(* ===== verification/Prelude.thy ===== *)
theory Prelude
  imports Main "HOL-Library.Word" "HOL-Library.List_Lexorder"
begin

text \<open>
  The values and the control flow every component of the NOA receipt kernel shares.

  \<^item> JavaScript strings: lists of UTF-16 code units, each a number as \<open>charCodeAt\<close> returns it.
  \<^item> Parsed documents: the trees \<open>safeParse\<close> builds (src/src/safe-json.ts), with an object as the
    list of its own properties in insertion order. A missing member reads as \<^const>\<open>None\<close>, which
    stands for \<open>undefined\<close>.
  \<^item> Failure: \<open>'e + 'a\<close>, with \<^const>\<open>Inl\<close> for a thrown error or an early return and \<open>bindS\<close>
    for sequencing; \<open>foldE\<close> is an indexed loop whose body may return early.
  \<^item> The interfaces of the library: \<open>canonical_codec\<close> (an encoder with a decoder that undoes it up
    to a normal form) and \<open>loop_invariant\<close> (a loop body that keeps an invariant over the elements
    already visited).
\<close>

named_theorems ok_iff \<open>when an operation with early returns succeeds\<close>

section \<open>Strings\<close>

type_synonym jstr = "int list"
type_synonym byte = "8 word"

text \<open>The code units of an ASCII literal of the source.\<close>

definition U :: "string \<Rightarrow> jstr" where
  "U s = map of_char s"

lemma U_Nil [simp]: "U [] = []"
  by (simp add: U_def)

lemma U_eq_Nil [simp]: "U s = [] \<longleftrightarrow> s = []" "[] = U s \<longleftrightarrow> s = []"
  by (auto simp: U_def)

lemma U_inject [simp]: "U s = U t \<longleftrightarrow> s = t"
  by (auto simp: U_def inj_map_eq_map inj_on_def)

lemma length_U [simp]: "length (U s) = length s"
  by (simp add: U_def)

lemma of_char_int_bounds: "0 \<le> (of_char c :: int)" "(of_char c :: int) < 256"
proof -
  have "(of_char c :: int) = int (of_char c)" by (simp add: of_nat_of_char)
  moreover have "(of_char c :: nat) < 256" by (rule nat_of_char_less_256)
  ultimately show "0 \<le> (of_char c :: int)" "(of_char c :: int) < 256" by simp_all
qed

text \<open>\<open>s.charCodeAt(i)\<close>: the scanners only compare the result, so \<open>-1\<close> serves as \<open>NaN\<close>.\<close>

definition charCodeAt :: "jstr \<Rightarrow> nat \<Rightarrow> int" where
  "charCodeAt s i = (if i < length s then s ! i else -1)"

lemma charCodeAt_append_left: "i < length s \<Longrightarrow> charCodeAt (s @ t) i = charCodeAt s i"
  by (simp add: charCodeAt_def nth_append)

lemma charCodeAt_append_right: "charCodeAt (s @ t) (length s + i) = charCodeAt t i"
  by (simp add: charCodeAt_def nth_append)

section \<open>Sequencing with early returns\<close>

fun bindS :: "'e + 'a \<Rightarrow> ('a \<Rightarrow> 'e + 'b) \<Rightarrow> 'e + 'b" where
  "bindS (Inl e) f = Inl e"
| "bindS (Inr x) f = f x"

definition guardE :: "bool \<Rightarrow> 'e \<Rightarrow> 'e + unit" where
  "guardE b e = (if b then Inr () else Inl e)"

fun foldE :: "('s \<Rightarrow> 'x \<Rightarrow> 'e + 's) \<Rightarrow> 's \<Rightarrow> 'x list \<Rightarrow> 'e + 's" where
  "foldE step s [] = Inr s"
| "foldE step s (x # xs) = bindS (step s x) (\<lambda>s'. foldE step s' xs)"

lemma bindS_Inr [ok_iff]: "bindS m f = Inr y \<longleftrightarrow> (\<exists>x. m = Inr x \<and> f x = Inr y)"
  by (cases m) auto

lemma bindS_Inl: "bindS m f = Inl e \<longleftrightarrow> m = Inl e \<or> (\<exists>x. m = Inr x \<and> f x = Inl e)"
  by (cases m) auto

lemma guardE_Inr [ok_iff]: "guardE b e = Inr u \<longleftrightarrow> b"
  by (simp add: guardE_def)

lemma guardE_Inl: "guardE b e = Inl e' \<longleftrightarrow> \<not> b \<and> e' = e"
  by (auto simp: guardE_def)

lemma bindS_cong [fundef_cong]:
  "m = m' \<Longrightarrow> (\<And>x. m' = Inr x \<Longrightarrow> f x = f' x) \<Longrightarrow> bindS m f = bindS m' f'"
  by (cases m') auto

lemma foldE_append:
  "foldE step s (xs @ ys) = bindS (foldE step s xs) (\<lambda>s'. foldE step s' ys)"
proof (induction xs arbitrary: s)
  case Nil
  show ?case by simp
next
  case (Cons x xs)
  show ?case by (cases "step s x") (simp_all add: Cons.IH)
qed

lemma foldE_Inl_witness:
  "foldE step s xs = Inl e \<Longrightarrow>
     \<exists>ys x zs s'. xs = ys @ x # zs \<and> foldE step s ys = Inr s' \<and> step s' x = Inl e"
proof (induction xs arbitrary: s)
  case Nil
  then show ?case by simp
next
  case (Cons x xs)
  show ?case
  proof (cases "step s x")
    case (Inl e')
    with Cons.prems have "xs = xs \<and> step s x = Inl e" by simp
    then show ?thesis by (metis append_Nil foldE.simps(1))
  next
    case (Inr s1)
    with Cons.prems have "foldE step s1 xs = Inl e" by simp
    from Cons.IH [OF this] obtain ys y zs s' where
      *: "xs = ys @ y # zs" "foldE step s1 ys = Inr s'" "step s' y = Inl e" by blast
    then have "x # xs = (x # ys) @ y # zs" "foldE step s (x # ys) = Inr s'" using Inr by simp_all
    with *(3) show ?thesis by blast
  qed
qed

text \<open>A loop that collects one result per element and stops at the first failure.\<close>

fun mapE :: "('x \<Rightarrow> 'e + 'y) \<Rightarrow> 'x list \<Rightarrow> 'e + 'y list" where
  "mapE f [] = Inr []"
| "mapE f (x # xs) = bindS (f x) (\<lambda>y. bindS (mapE f xs) (\<lambda>ys. Inr (y # ys)))"

lemma foldE_cong [fundef_cong]:
  "xs = ys \<Longrightarrow> s = t \<Longrightarrow> (\<And>a x. x \<in> set ys \<Longrightarrow> f a x = g a x) \<Longrightarrow> foldE f s xs = foldE g t ys"
  by (induction xs arbitrary: ys s t) (auto intro: bindS_cong)

lemma mapE_cong [fundef_cong]:
  "xs = ys \<Longrightarrow> (\<And>x. x \<in> set ys \<Longrightarrow> f x = g x) \<Longrightarrow> mapE f xs = mapE g ys"
  by (induction ys arbitrary: xs) auto

lemma mapE_Inr: "mapE f xs = Inr ys \<longleftrightarrow> list_all2 (\<lambda>x y. f x = Inr y) xs ys"
  by (induction xs arbitrary: ys) (auto simp: ok_iff list_all2_Cons1)

lemma mapE_total: "(\<And>x. x \<in> set xs \<Longrightarrow> f x = Inr (g x)) \<Longrightarrow> mapE f xs = Inr (map g xs)"
  by (induction xs) auto

section \<open>Parsed documents\<close>

datatype json =
    JNull
  | JBool bool
  | JNum int
  | JStr jstr
  | JArr "json list"
  | JObj "(jstr \<times> json) list"

lemma size_arr_elem [termination_simp]: "x \<in> set xs \<Longrightarrow> size x < Suc (size_list size xs)"
  by (induction xs) auto

lemma size_obj_member [termination_simp]:
  "p \<in> set m \<Longrightarrow> size (snd p) < Suc (size_list (size_prod (\<lambda>_. 0) size) m)"
  by (induction m) auto

lemma size_obj_member' [termination_simp]:
  "(k, v) \<in> set m \<Longrightarrow> size v < Suc (size_list (size_prod (\<lambda>_. 0) size) m)"
  using size_obj_member by fastforce

text \<open>A property read \<open>v.k\<close> on a parsed value: own properties only, \<open>undefined\<close> otherwise.\<close>

fun jget :: "json \<Rightarrow> jstr \<Rightarrow> json option" where
  "jget (JObj m) k = map_of m k"
| "jget _ k = None"

fun isPlainObject :: "json \<Rightarrow> bool" where
  "isPlainObject (JObj m) = True"
| "isPlainObject _ = False"

fun isObjectType :: "json \<Rightarrow> bool" where  \<comment> \<open>\<open>typeof v === "object" && v !== null\<close>\<close>
  "isObjectType (JObj m) = True"
| "isObjectType (JArr xs) = True"
| "isObjectType _ = False"

fun isArr :: "json \<Rightarrow> bool" where
  "isArr (JArr xs) = True"
| "isArr _ = False"

text \<open>An assignment \<open>o[k] = v\<close>: an existing property keeps its place, a new one goes last.\<close>

fun objPut :: "jstr \<Rightarrow> json \<Rightarrow> (jstr \<times> json) list \<Rightarrow> (jstr \<times> json) list" where
  "objPut k v [] = [(k, v)]"
| "objPut k v ((k', v') # m) = (if k' = k then (k, v) # m else (k', v') # objPut k v m)"

lemma map_of_objPut [simp]: "map_of (objPut k v m) = (map_of m)(k \<mapsto> v)"
  by (induction m) (auto simp: fun_eq_iff)

lemma fst_objPut [simp]: "fst ` set (objPut k v m) = insert k (fst ` set m)"
proof (induction m)
  case (Cons p m)
  then show ?case by (cases p) (simp add: insert_commute)
qed simp

lemma distinct_objPut [simp]: "distinct (map fst (objPut k v m)) \<longleftrightarrow> distinct (map fst m)"
proof (induction m)
  case (Cons p m)
  then show ?case by (cases p) (simp add: fst_objPut)
qed simp

lemma set_objPut: "p \<in> set (objPut k v m) \<Longrightarrow> p = (k, v) \<or> p \<in> set m"
  by (induction m) (auto split: if_splits)

lemma isPlainObject_iff: "isPlainObject v \<longleftrightarrow> (\<exists>m. v = JObj m)"
  by (cases v) auto

lemma isArr_iff: "isArr v \<longleftrightarrow> (\<exists>xs. v = JArr xs)"
  by (cases v) auto

definition MAX_SAFE_INTEGER :: int where
  "MAX_SAFE_INTEGER = 9007199254740991"

definition isSafeInteger :: "int \<Rightarrow> bool" where
  "isSafeInteger n \<longleftrightarrow> - MAX_SAFE_INTEGER \<le> n \<and> n \<le> MAX_SAFE_INTEGER"

section \<open>Decimal numerals\<close>

text \<open>\<open>Number.prototype.toString\<close> on an integer: the decimal digits, most significant first.\<close>

fun digits10 :: "nat \<Rightarrow> jstr" where
  "digits10 n = (if n < 10 then [48 + int n] else digits10 (n div 10) @ [48 + int (n mod 10)])"

declare digits10.simps [simp del]

definition numToString :: "int \<Rightarrow> jstr" where
  "numToString n = (if n < 0 then 45 # digits10 (nat (- n)) else digits10 (nat n))"

definition natStr :: "nat \<Rightarrow> jstr" where
  "natStr n = digits10 n"

text \<open>The value of a run of decimal digits, as the accumulating loops of the source compute it.\<close>

definition digitsValue :: "jstr \<Rightarrow> nat" where
  "digitsValue ds = foldl (\<lambda>a c. a * 10 + nat (c - 48)) 0 ds"

lemma digits10_induct_step:
  "n < 10 \<Longrightarrow> digits10 n = [48 + int n]"
  "\<not> n < 10 \<Longrightarrow> digits10 n = digits10 (n div 10) @ [48 + int (n mod 10)]"
  by (subst digits10.simps, simp)+

lemma digits10_ne [simp]: "digits10 n \<noteq> []"
  by (cases "n < 10") (simp_all add: digits10_induct_step)

lemma digits10_digits: "c \<in> set (digits10 n) \<Longrightarrow> 48 \<le> c \<and> c \<le> 57"
proof (induction n arbitrary: c rule: digits10.induct)
  case (1 n)
  show ?case
  proof (cases "n < 10")
    case True
    with "1.prems" show ?thesis by (simp add: digits10_induct_step)
  next
    case False
    with "1.prems" have "c \<in> set (digits10 (n div 10)) \<or> c = 48 + int (n mod 10)"
      by (auto simp: digits10_induct_step)
    with "1.IH" [OF False] show ?thesis by auto
  qed
qed

lemma digitsValue_digits10 [simp]: "digitsValue (digits10 n) = n"
proof (induction n rule: digits10.induct)
  case (1 n)
  show ?case
  proof (cases "n < 10")
    case True
    then show ?thesis by (simp add: digits10_induct_step digitsValue_def)
  next
    case False
    then have "digitsValue (digits10 n) = digitsValue (digits10 (n div 10)) * 10 + n mod 10"
      by (simp add: digits10_induct_step digitsValue_def)
    with "1.IH" [OF False] show ?thesis by simp
  qed
qed

lemma digits10_inject [simp]: "digits10 m = digits10 n \<longleftrightarrow> m = n"
  using digitsValue_digits10 by metis

lemma digits10_hd: "hd (digits10 n) = 48 \<longleftrightarrow> n = 0"
proof (induction n rule: digits10.induct)
  case (1 n)
  show ?case
  proof (cases "n < 10")
    case True
    then show ?thesis by (auto simp: digits10_induct_step)
  next
    case False
    then have "n div 10 \<noteq> 0" by auto
    with False "1.IH" [OF False] show ?thesis by (simp add: digits10_induct_step hd_append)
  qed
qed

section \<open>Own property names\<close>

text \<open>
  \<open>Object.keys\<close> and \<open>Object.getOwnPropertyNames\<close> list the array-index names first, in ascending
  numeric order, and then the other names in insertion order. A parsed array has its indices as
  enumerable own names.
\<close>

definition isArrayIndex :: "jstr \<Rightarrow> bool" where
  "isArrayIndex k \<longleftrightarrow> k \<noteq> [] \<and> (\<forall>c\<in>set k. 48 \<le> c \<and> c \<le> 57) \<and> (hd k = 48 \<longrightarrow> k = [48]) \<and>
     int (digitsValue k) \<le> 4294967294"

definition ownNames :: "(jstr \<times> json) list \<Rightarrow> jstr list" where
  "ownNames m = sort_key digitsValue (filter isArrayIndex (map fst m))
     @ filter (\<lambda>k. \<not> isArrayIndex k) (map fst m)"

fun objectKeys :: "json \<Rightarrow> jstr list" where
  "objectKeys (JObj m) = ownNames m"
| "objectKeys (JArr xs) = map natStr [0..<length xs]"
| "objectKeys _ = []"

lemma set_ownNames [simp]: "set (ownNames m) = fst ` set m"
  by (auto simp: ownNames_def)

lemma distinct_ownNames: "distinct (map fst m) \<Longrightarrow> distinct (ownNames m)"
  by (auto simp: ownNames_def)

section \<open>Well-formed trees\<close>

text \<open>
  What the parser guarantees of a tree: distinct member names in every object and numbers in the
  safe-integer range. String well-formedness is added where strings are defined (theory
  \<open>Bytes\<close>).
\<close>

text \<open>A value that JavaScript takes for false in a condition.\<close>

fun falsy :: "json \<Rightarrow> bool" where
  "falsy JNull = True"
| "falsy (JBool b) = (\<not> b)"
| "falsy (JNum n) = (n = 0)"
| "falsy (JStr s) = (s = [])"
| "falsy _ = False"

fun jdepth :: "json \<Rightarrow> nat" where
  "jdepth (JArr xs) = (if xs = [] then 0 else Suc (Max (set (map jdepth xs))))"
| "jdepth (JObj m) = (if m = [] then 0 else Suc (Max (set (map (\<lambda>p. jdepth (snd p)) m))))"
| "jdepth _ = 0"

lemma jdepth_arr_elem: "x \<in> set xs \<Longrightarrow> jdepth x < jdepth (JArr xs)"
  by (auto simp: less_Suc_eq_le intro!: Max_ge)

lemma jdepth_obj_member: "(k, v) \<in> set m \<Longrightarrow> jdepth v < jdepth (JObj m)"
  by (auto simp: less_Suc_eq_le intro!: Max_ge rev_image_eqI)

section \<open>Library interfaces\<close>

text \<open>
  An encoder (which may refuse a value) and a decoder that recovers the value up to a normal form.
  The client's fact: two values with the same encoding have the same normal form, so an encoding
  that is hashed or signed commits to the value.
\<close>

locale canonical_codec =
  fixes enc :: "'a \<Rightarrow> 'b option"
    and dec :: "'b \<Rightarrow> 'a option"
    and norm :: "'a \<Rightarrow> 'a"
  assumes dec_enc: "enc x = Some b \<Longrightarrow> dec b = Some (norm x)"
begin

lemma enc_determines: "enc x = Some b \<Longrightarrow> enc y = Some b \<Longrightarrow> norm x = norm y"
  using dec_enc [of x b] dec_enc [of y b] by simp

lemma enc_inj: "inj_on enc {x. enc x \<noteq> None \<and> norm x = x}"
proof (rule inj_onI)
  fix x y assume "x \<in> {x. enc x \<noteq> None \<and> norm x = x}" "y \<in> {x. enc x \<noteq> None \<and> norm x = x}"
    and eq: "enc x = enc y"
  then obtain b where "enc x = Some b" "norm x = x" "norm y = y" by auto
  moreover from this eq have "norm x = norm y" by (metis enc_determines)
  ultimately show "x = y" by metis
qed

end

text \<open>A loop body with early returns that keeps an invariant of the elements visited so far.\<close>

locale loop_invariant =
  fixes step :: "'s \<Rightarrow> 'x \<Rightarrow> 'e + 's"
    and Inv :: "'x list \<Rightarrow> 's \<Rightarrow> bool"
  assumes step_inv: "Inv xs s \<Longrightarrow> step s x = Inr s' \<Longrightarrow> Inv (xs @ [x]) s'"
begin

lemma foldE_inv: "Inv ps s \<Longrightarrow> foldE step s xs = Inr s' \<Longrightarrow> Inv (ps @ xs) s'"
proof (induction xs arbitrary: ps s)
  case Nil
  then show ?case by simp
next
  case (Cons x xs)
  from Cons.prems(2) obtain s1 where s1: "step s x = Inr s1" and rest: "foldE step s1 xs = Inr s'"
    by (auto simp: ok_iff)
  from Cons.IH [OF step_inv [OF Cons.prems(1) s1] rest] show ?case by simp
qed

lemma foldE_step_inv:
  assumes "Inv ps s" and "foldE step s (xs @ x # ys) = Inr s'"
  shows "\<exists>s1 s2. foldE step s xs = Inr s1 \<and> Inv (ps @ xs) s1 \<and> step s1 x = Inr s2
    \<and> foldE step s2 ys = Inr s'"
proof -
  from assms(2) obtain s1 where s1: "foldE step s xs = Inr s1"
    and rest: "foldE step s1 (x # ys) = Inr s'"
    unfolding foldE_append bindS_Inr by blast
  from rest obtain s2 where "step s1 x = Inr s2" "foldE step s2 ys = Inr s'"
    unfolding foldE.simps bindS_Inr by blast
  with s1 foldE_inv [OF assms(1) s1] show ?thesis by blast
qed

end

end
