(* ===== verification/Scan.thy ===== *)
theory Scan
  imports Prelude
begin

text \<open>
  The hand-written format scanners of src/src/scan.ts: hash formats, the RFC 3339 lexical form and
  its field ranges, and the timestamp order a chain walk reports. The lemmas show that each scanner
  decides exactly the regular expression its source comment says it replaces, that the minute count
  is a calendar (consecutive days are 1440 minutes apart), and what each answer of \<open>tsOrder\<close> means.
\<close>

section \<open>The scanners\<close>

definition isDigit :: "int \<Rightarrow> bool" where
  "isDigit c \<longleftrightarrow> 48 \<le> c \<and> c \<le> 57"

definition isLowerHex :: "int \<Rightarrow> bool" where
  "isLowerHex c \<longleftrightarrow> (48 \<le> c \<and> c \<le> 57) \<or> (97 \<le> c \<and> c \<le> 102)"

definition isAnyHex :: "int \<Rightarrow> bool" where
  "isAnyHex c \<longleftrightarrow> (48 \<le> c \<and> c \<le> 57) \<or> (97 \<le> c \<and> c \<le> 102) \<or> (65 \<le> c \<and> c \<le> 70)"

definition lowerHexRun :: "jstr \<Rightarrow> nat \<Rightarrow> nat \<Rightarrow> bool" where
  "lowerHexRun s from n = list_all (\<lambda>i. isLowerHex (charCodeAt s (from + i))) [0..<n]"

definition digitRun :: "jstr \<Rightarrow> nat \<Rightarrow> nat \<Rightarrow> bool" where
  "digitRun s from n = list_all (\<lambda>i. isDigit (charCodeAt s (from + i))) [0..<n]"

definition hasPrefix :: "jstr \<Rightarrow> jstr \<Rightarrow> bool" where
  "hasPrefix s lit =
     (if length s < length lit then False
      else list_all (\<lambda>i. charCodeAt s i = charCodeAt lit i) [0..<length lit])"

definition isSha256Hash :: "jstr \<Rightarrow> bool" where
  "isSha256Hash s =
     (if length s \<noteq> 71 then False
      else if \<not> hasPrefix s (U ''sha256:'') then False
      else lowerHexRun s 7 64)"

definition isParamsHash :: "jstr \<Rightarrow> bool" where
  "isParamsHash s =
     (if length s = 71 \<and> hasPrefix s (U ''sha256:'') then lowerHexRun s 7 64
      else if length s = 76 \<and> hasPrefix s (U ''hmac-sha256:'') then lowerHexRun s 12 64
      else False)"

definition isHex64 :: "json option \<Rightarrow> bool" where
  "isHex64 v = (case v of Some (JStr s) \<Rightarrow> length s = 64 \<and> lowerHexRun s 0 64 | _ \<Rightarrow> False)"

definition isHex4 :: "jstr \<Rightarrow> bool" where
  "isHex4 s = (length s = 4 \<and> list_all (\<lambda>i. isAnyHex (charCodeAt s i)) [0..<4])"

text \<open>The digits a \<open>while (isDigit(at(s, i))) i++\<close> loop passes over.\<close>

definition digitsFrom :: "jstr \<Rightarrow> nat \<Rightarrow> jstr" where
  "digitsFrom s i = takeWhile isDigit (drop i s)"

definition isRfc3339 :: "jstr \<Rightarrow> bool" where
  "isRfc3339 s =
     (let n = length s in
      if n < 20 then False
      else if \<not> digitRun s 0 4 then False
      else if charCodeAt s 4 \<noteq> 45 then False
      else if \<not> digitRun s 5 2 then False
      else if charCodeAt s 7 \<noteq> 45 then False
      else if \<not> digitRun s 8 2 then False
      else if charCodeAt s 10 \<noteq> 84 \<and> charCodeAt s 10 \<noteq> 116 then False
      else if \<not> digitRun s 11 2 then False
      else if charCodeAt s 13 \<noteq> 58 then False
      else if \<not> digitRun s 14 2 then False
      else if charCodeAt s 16 \<noteq> 58 then False
      else if \<not> digitRun s 17 2 then False
      else
        (let frac = length (digitsFrom s 20);
             i = (if charCodeAt s 19 = 46 then 20 + frac else 19) in
         if charCodeAt s 19 = 46 \<and> (frac < 1 \<or> frac > 9) then False
         else
           (let z = charCodeAt s i in
            if z = 90 \<or> z = 122 then i = n - 1
            else if z \<noteq> 43 \<and> z \<noteq> 45 then False
            else if n - i \<noteq> 6 then False
            else if \<not> digitRun s (i + 1) 2 then False
            else if charCodeAt s (i + 3) \<noteq> 58 then False
            else digitRun s (i + 4) 2)))"

definition num2 :: "jstr \<Rightarrow> nat \<Rightarrow> int" where
  "num2 s from = (charCodeAt s from - 48) * 10 + (charCodeAt s (from + 1) - 48)"

definition num4 :: "jstr \<Rightarrow> nat \<Rightarrow> int" where
  "num4 s from = (charCodeAt s from - 48) * 1000 + (charCodeAt s (from + 1) - 48) * 100
     + (charCodeAt s (from + 2) - 48) * 10 + (charCodeAt s (from + 3) - 48)"

definition isLeapYear :: "int \<Rightarrow> bool" where
  "isLeapYear y = (if y mod 4 \<noteq> 0 then False else if y mod 100 \<noteq> 0 then True else y mod 400 = 0)"

definition daysInMonth :: "int \<Rightarrow> int \<Rightarrow> int" where
  "daysInMonth year month =
     (if month = 1 \<or> month = 3 \<or> month = 5 \<or> month = 7 \<or> month = 8 \<or> month = 10 \<or> month = 12 then 31
      else if month = 4 \<or> month = 6 \<or> month = 9 \<or> month = 11 then 30
      else if month = 2 then (if isLeapYear year then 29 else 28)
      else 0)"

definition isRfc3339Instant :: "jstr \<Rightarrow> bool" where
  "isRfc3339Instant s =
     (if \<not> isRfc3339 s then False
      else
        (let year = num4 s 0; month = num2 s 5; day = num2 s 8; n = length s in
         if month < 1 \<or> month > 12 then False
         else if day < 1 \<or> day > daysInMonth year month then False
         else if num2 s 11 > 23 then False
         else if num2 s 14 > 59 then False
         else if num2 s 17 > 60 then False
         else if charCodeAt s (n - 1) = 90 \<or> charCodeAt s (n - 1) = 122 then True
         else if num2 s (n - 5) > 23 then False
         else if num2 s (n - 2) > 59 then False
         else True))"

datatype ts_order = TS_ORDER_OK | TS_ORDER_BACKWARDS | TS_ORDER_NOT_COMPARABLE

definition divFloor :: "int \<Rightarrow> int \<Rightarrow> int" where
  "divFloor a b = (a - a mod b) div b"

text \<open>The day count inside \<open>utcMinute\<close>: March-based years, shifted by 400 years.\<close>

definition dayCount :: "int \<Rightarrow> int \<Rightarrow> int \<Rightarrow> int" where
  "dayCount year month day =
     (let y = year - (if month \<le> 2 then 1 else 0) + 400;
          m = (month + 9) mod 12 in
      365 * y + divFloor y 4 - divFloor y 100 + divFloor y 400 + divFloor (153 * m + 2) 5 + day - 1)"

definition utcMinute :: "jstr \<Rightarrow> int" where
  "utcMinute s =
     (let days = dayCount (num4 s 0) (num2 s 5) (num2 s 8);
          local_min = days * 1440 + num2 s 11 * 60 + num2 s 14;
          n = length s;
          last = charCodeAt s (n - 1) in
      if last = 90 \<or> last = 122 then local_min
      else
        (let offset = num2 s (n - 5) * 60 + num2 s (n - 2) in
         if charCodeAt s (n - 6) = 43 then local_min - offset else local_min + offset))"

definition fractionNanos :: "jstr \<Rightarrow> int" where
  "fractionNanos s =
     (if charCodeAt s 19 \<noteq> 46 then 0
      else (let ds = digitsFrom s 20 in int (digitsValue ds) * 10 ^ (9 - length ds)))"

definition tsOrder :: "jstr \<Rightarrow> jstr \<Rightarrow> ts_order" where
  "tsOrder earlier later =
     (if \<not> isRfc3339Instant earlier \<or> \<not> isRfc3339Instant later then TS_ORDER_NOT_COMPARABLE
      else
        (let minuteA = utcMinute earlier; minuteB = utcMinute later;
             secondA = num2 earlier 17; secondB = num2 later 17;
             nanosA = fractionNanos earlier; nanosB = fractionNanos later;
             backAsLeap = (minuteB < minuteA \<or> (minuteB = minuteA \<and>
               (secondB < secondA \<or> (secondB = secondA \<and> nanosB < nanosA))));
             elapsedA = minuteA * 60 + secondA; elapsedB = minuteB * 60 + secondB;
             backAsNextMinute = (elapsedB < elapsedA \<or> (elapsedB = elapsedA \<and> nanosB < nanosA)) in
         if backAsLeap \<and> backAsNextMinute then TS_ORDER_BACKWARDS
         else if backAsLeap \<noteq> backAsNextMinute then TS_ORDER_NOT_COMPARABLE
         else TS_ORDER_OK))"

section \<open>The scanners decide their regular expressions\<close>

lemma run_iff:
  assumes "\<not> P (-1)"
  shows "list_all (\<lambda>i. P (charCodeAt s (from + i))) [0..<n] \<longleftrightarrow>
    n = 0 \<or> from + n \<le> length s \<and> list_all P (take n (drop from s))" (is "?L \<longleftrightarrow> ?R")
proof
  assume L: ?L
  show ?R
  proof (cases n)
    case (Suc m)
    with L have "P (charCodeAt s (from + m))" by (simp add: list_all_iff)
    with assms have len: "from + n \<le> length s" using Suc
      by (auto simp: charCodeAt_def split: if_splits)
    have "P (take n (drop from s) ! i)" if "i < n" for i
      using L that len by (auto simp: list_all_iff charCodeAt_def)
    with len show ?thesis by (auto simp: list_all_length)
  qed simp
next
  assume R: ?R
  have "P (s ! (from + i))" if "i < n" "from + n \<le> length s" for i
    using R that by (auto simp: list_all_length)
  with R show ?L by (auto simp: list_all_iff charCodeAt_def)
qed

lemma hasPrefix_iff: "hasPrefix s lit \<longleftrightarrow> (\<exists>t. s = lit @ t)"
proof
  assume h: "hasPrefix s lit"
  then have len: "length lit \<le> length s" by (simp add: hasPrefix_def split: if_splits)
  with h have "take (length lit) s = lit"
    by (intro nth_equalityI) (auto simp: hasPrefix_def charCodeAt_def list_all_iff)
  then show "\<exists>t. s = lit @ t" by (metis append_take_drop_id)
next
  assume "\<exists>t. s = lit @ t"
  then show "hasPrefix s lit"
    by (auto simp: hasPrefix_def charCodeAt_def list_all_iff nth_append)
qed

lemma lowerHexRun_iff:
  "lowerHexRun s from n \<longleftrightarrow> n = 0 \<or> from + n \<le> length s \<and> list_all isLowerHex (take n (drop from s))"
  unfolding lowerHexRun_def by (rule run_iff) (simp add: isLowerHex_def)

lemma digitRun_iff:
  "digitRun s from n \<longleftrightarrow> n = 0 \<or> from + n \<le> length s \<and> list_all isDigit (take n (drop from s))"
  unfolding digitRun_def by (rule run_iff) (simp add: isDigit_def)

lemma isSha256Hash_iff:
  "isSha256Hash s \<longleftrightarrow> (\<exists>h. s = U ''sha256:'' @ h \<and> length h = 64 \<and> list_all isLowerHex h)"
  by (auto simp: isSha256Hash_def hasPrefix_iff lowerHexRun_iff)

lemma isParamsHash_iff:
  "isParamsHash s \<longleftrightarrow> (\<exists>h. (s = U ''sha256:'' @ h \<or> s = U ''hmac-sha256:'' @ h)
     \<and> length h = 64 \<and> list_all isLowerHex h)"
  by (auto simp: isParamsHash_def hasPrefix_iff lowerHexRun_iff)

lemma isHex4_iff: "isHex4 s \<longleftrightarrow> length s = 4 \<and> list_all isAnyHex s"
  using run_iff [of isAnyHex s 0 4] by (auto simp: isHex4_def isAnyHex_def)

text \<open>The pattern \<open>isRfc3339\<close> replaces, as a decomposition of the string.\<close>

definition digs :: "nat \<Rightarrow> jstr \<Rightarrow> bool" where
  "digs n xs \<longleftrightarrow> length xs = n \<and> list_all isDigit xs"

definition is_zone :: "jstr \<Rightarrow> bool" where
  "is_zone z \<longleftrightarrow> z = [90] \<or> z = [122] \<or>
     (\<exists>sg hh mm. z = sg # hh @ [58] @ mm \<and> (sg = 43 \<or> sg = 45) \<and> digs 2 hh \<and> digs 2 mm)"

definition fraction_zone :: "jstr \<Rightarrow> bool" where
  "fraction_zone r \<longleftrightarrow> (\<exists>fr z. r = fr @ z
     \<and> (fr = [] \<or> (\<exists>ds. fr = 46 # ds \<and> 1 \<le> length ds \<and> length ds \<le> 9 \<and> list_all isDigit ds))
     \<and> is_zone z)"

definition date_time :: "jstr \<Rightarrow> bool" where
  "date_time p \<longleftrightarrow> (\<exists>y mo d t h mi se.
     p = y @ [45] @ mo @ [45] @ d @ [t] @ h @ [58] @ mi @ [58] @ se
     \<and> digs 4 y \<and> digs 2 mo \<and> digs 2 d \<and> (t = 84 \<or> t = 116) \<and> digs 2 h \<and> digs 2 mi \<and> digs 2 se)"

definition rfc3339_pattern :: "jstr \<Rightarrow> bool" where
  "rfc3339_pattern s \<longleftrightarrow> (\<exists>p r. s = p @ r \<and> date_time p \<and> fraction_zone r)"

text \<open>The same two parts as the scanner checks them, on the rest of the string.\<close>

definition zone_scan :: "jstr \<Rightarrow> bool" where
  "zone_scan r = (if charCodeAt r 0 = 90 \<or> charCodeAt r 0 = 122 then length r = 1
     else (charCodeAt r 0 = 43 \<or> charCodeAt r 0 = 45) \<and> length r = 6
       \<and> digitRun r 1 2 \<and> charCodeAt r 3 = 58 \<and> digitRun r 4 2)"

definition fraction_zone_scan :: "jstr \<Rightarrow> bool" where
  "fraction_zone_scan r =
     (if charCodeAt r 0 = 46
      then 1 \<le> length (digitsFrom r 1) \<and> length (digitsFrom r 1) \<le> 9
        \<and> zone_scan (drop (1 + length (digitsFrom r 1)) r)
      else zone_scan r)"

lemma digs_2: "digs 2 xs \<longleftrightarrow> (\<exists>a b. xs = [a, b] \<and> isDigit a \<and> isDigit b)"
  by (auto simp: digs_def numeral_2_eq_2 length_Suc_conv)

lemma digs_4: "digs 4 xs \<longleftrightarrow> (\<exists>a b c d. xs = [a, b, c, d] \<and> isDigit a \<and> isDigit b \<and> isDigit c \<and> isDigit d)"
  by (auto simp: digs_def eval_nat_numeral length_Suc_conv)

lemma zone_scan_iff: "zone_scan r \<longleftrightarrow> is_zone r" (is "?L \<longleftrightarrow> ?R")
proof
  assume ?R
  then consider "r = [90] \<or> r = [122]"
    | sg a b c d where "r = [sg, a, b, 58, c, d]" "sg = 43 \<or> sg = 45"
        "isDigit a" "isDigit b" "isDigit c" "isDigit d"
    by (fastforce simp: digs_2 is_zone_def)
  then show ?L by cases (auto simp: zone_scan_def charCodeAt_def digitRun_def upt_rec numeral_2_eq_2)
next
  assume L: ?L
  show ?R
  proof (cases "charCodeAt r 0 = 90 \<or> charCodeAt r 0 = 122")
    case True
    with L show ?thesis by (cases r) (auto simp: zone_scan_def charCodeAt_def is_zone_def)
  next
    case False
    with L have "length r = 6" by (auto simp: zone_scan_def)
    then obtain a b c d e f where r: "r = [a, b, c, d, e, f]"
      by (auto simp: eval_nat_numeral length_Suc_conv)
    from L False show ?thesis
      by (simp add: r zone_scan_def charCodeAt_def digitRun_def upt_rec Let_def)
        (auto simp: is_zone_def digs_def intro: exI [where x = "[b, c]"])
  qed
qed

lemma charCodeAt_drop: "charCodeAt (drop i s) k = charCodeAt s (i + k)"
  by (auto simp: charCodeAt_def)

lemma digitRun_drop: "digitRun (drop i s) k n = digitRun s (i + k) n"
  by (simp add: digitRun_def charCodeAt_drop add.assoc)

lemma is_zone_hd: "is_zone z \<Longrightarrow> z \<noteq> [] \<and> \<not> isDigit (hd z) \<and> hd z \<noteq> 46"
  by (auto simp: is_zone_def isDigit_def)

lemma fraction_zone_scan_iff: "fraction_zone_scan r \<longleftrightarrow> fraction_zone r"
proof (cases "charCodeAt r 0 = 46")
  case False
  then have "fraction_zone r \<longleftrightarrow> is_zone r"
    by (force simp: fraction_zone_def charCodeAt_def)
  with False show ?thesis by (simp add: fraction_zone_scan_def zone_scan_iff)
next
  case True
  then obtain r' where r: "r = 46 # r'" by (cases r) (auto simp: charCodeAt_def)
  define ds where "ds = takeWhile isDigit r'"
  define z where "z = dropWhile isDigit r'"
  have r': "r' = ds @ z" and ds: "list_all isDigit ds"
    by (auto simp: ds_def z_def list_all_iff dest: set_takeWhileD)
  have split: "fr = 46 # ds \<and> z' = z"
    if "r = fr @ z'" "fr = 46 # ds'" "list_all isDigit ds'" "z' \<noteq> []" "\<not> isDigit (hd z')" for fr z' ds'
  proof -
    from that r have "r' = ds' @ z'" by simp
    with that(3-5) have "ds = ds'"
      by (cases z') (auto simp: ds_def list_all_iff takeWhile_append2)
    with \<open>r' = ds' @ z'\<close> r' that(2) show ?thesis by simp
  qed
  have "fraction_zone r \<longleftrightarrow> 1 \<le> length ds \<and> length ds \<le> 9 \<and> is_zone z"
   
  proof
    assume "fraction_zone r"
    then obtain fr z' where f: "r = fr @ z'" "is_zone z'" "fr = [] \<or>
        (\<exists>ds. fr = 46 # ds \<and> 1 \<le> length ds \<and> length ds \<le> 9 \<and> list_all isDigit ds)"
      by (auto simp: fraction_zone_def)
    from f(2) have z': "z' \<noteq> []" "\<not> isDigit (hd z')" "hd z' \<noteq> 46" using is_zone_hd by blast+
    with f(1) r have "fr \<noteq> []" by auto
    with f(3) obtain ds' where d: "fr = 46 # ds'" "1 \<le> length ds'" "length ds' \<le> 9" "list_all isDigit ds'"
      by auto
    from split [OF f(1) d(1) d(4) z'(1,2)] f(2) d show "1 \<le> length ds \<and> length ds \<le> 9 \<and> is_zone z" by simp
  next
    assume "1 \<le> length ds \<and> length ds \<le> 9 \<and> is_zone z"
    with r r' ds show "fraction_zone r"
      unfolding fraction_zone_def by (intro exI [of _ "46 # ds"] exI [of _ z]) simp
  qed
  moreover have "digitsFrom r 1 = ds" by (simp add: digitsFrom_def r ds_def)
  moreover have "drop (1 + length ds) r = z" by (simp add: r r')
  ultimately show ?thesis using True by (simp add: fraction_zone_scan_def zone_scan_iff)
qed

definition head_scan :: "jstr \<Rightarrow> bool" where
  "head_scan s \<longleftrightarrow> digitRun s 0 4 \<and> charCodeAt s 4 = 45 \<and> digitRun s 5 2 \<and> charCodeAt s 7 = 45
     \<and> digitRun s 8 2 \<and> (charCodeAt s 10 = 84 \<or> charCodeAt s 10 = 116) \<and> digitRun s 11 2
     \<and> charCodeAt s 13 = 58 \<and> digitRun s 14 2 \<and> charCodeAt s 16 = 58 \<and> digitRun s 17 2"

lemma if_False_conj: "(if b then False else c) \<longleftrightarrow> \<not> b \<and> c"
  by simp

lemma isRfc3339_scan:
  "isRfc3339 s \<longleftrightarrow> 20 \<le> length s \<and> head_scan s \<and> fraction_zone_scan (drop 19 s)"
proof -
  let ?frac = "length (digitsFrom s 20)"
  let ?i = "if charCodeAt s 19 = 46 then 20 + ?frac else 19"
  have d: "digitsFrom (drop 19 s) 1 = digitsFrom s 20" by (simp add: digitsFrom_def)
  have c: "charCodeAt (drop 19 s) 0 = charCodeAt s 19" by (simp add: charCodeAt_drop)
  have z: "(if charCodeAt s i = 90 \<or> charCodeAt s i = 122 then i = length s - 1
      else \<not> (charCodeAt s i \<noteq> 43 \<and> charCodeAt s i \<noteq> 45) \<and> \<not> length s - i \<noteq> 6 \<and>
        \<not> \<not> digitRun s (i + 1) 2 \<and> \<not> charCodeAt s (i + 3) \<noteq> 58 \<and> digitRun s (i + 4) 2)
     \<longleftrightarrow> zone_scan (drop i s)" if "20 \<le> length s" for i
    using that by (auto simp: zone_scan_def charCodeAt_drop digitRun_drop)
  have f: "fraction_zone_scan (drop 19 s) \<longleftrightarrow>
     \<not> (charCodeAt s 19 = 46 \<and> (?frac < 1 \<or> ?frac > 9)) \<and> zone_scan (drop ?i s)"
    unfolding fraction_zone_scan_def d c by (simp add: not_less Suc_le_eq)
  show ?thesis
  proof (cases "20 \<le> length s")
    case True
    show ?thesis
      unfolding isRfc3339_def Let_def if_False_conj z [OF True] f head_scan_def
      using True by (simp add: not_less)
  next
    case False
    then show ?thesis by (simp add: isRfc3339_def)
  qed
qed

lemma length_date_time: "date_time p \<Longrightarrow> length p = 19"
  by (auto simp: date_time_def digs_def)

lemma head_scan_iff:
  assumes "length p = 19"
  shows "head_scan (p @ r) \<longleftrightarrow> date_time p"
proof -
  from assms obtain a0 a1 a2 a3 a4 a5 a6 a7 a8 a9 b0 b1 b2 b3 b4 b5 b6 b7 b8 where
    p: "p = [a0, a1, a2, a3, a4, a5, a6, a7, a8, a9, b0, b1, b2, b3, b4, b5, b6, b7, b8]"
    by (auto simp: eval_nat_numeral length_Suc_conv)
  have scan: "head_scan (p @ r) \<longleftrightarrow> digs 4 [a0, a1, a2, a3] \<and> a4 = 45 \<and> digs 2 [a5, a6] \<and> a7 = 45 \<and>
     digs 2 [a8, a9] \<and> (b0 = 84 \<or> b0 = 116) \<and> digs 2 [b1, b2] \<and> b3 = 58 \<and> digs 2 [b4, b5] \<and> b6 = 58 \<and>
     digs 2 [b7, b8]" (is "_ \<longleftrightarrow> ?D")
    by (simp add: p digs_def head_scan_def digitRun_def charCodeAt_def upt_rec)
  have "date_time p \<longleftrightarrow> ?D"
  proof
    assume "date_time p"
    then obtain y mo d t h mi se where
      "p = y @ [45] @ mo @ [45] @ d @ [t] @ h @ [58] @ mi @ [58] @ se"
      "digs 4 y" "digs 2 mo" "digs 2 d" "t = 84 \<or> t = 116" "digs 2 h" "digs 2 mi" "digs 2 se"
      by (auto simp: date_time_def)
    then show ?D unfolding digs_2 digs_4 p by auto
  next
    assume ?D
    then show "date_time p" unfolding date_time_def
      by (intro exI [of _ "[a0, a1, a2, a3]"] exI [of _ "[a5, a6]"] exI [of _ "[a8, a9]"] exI [of _ b0]
        exI [of _ "[b1, b2]"] exI [of _ "[b4, b5]"] exI [of _ "[b7, b8]"]) (simp add: p)
  qed
  with scan show ?thesis by simp
qed

lemma isRfc3339_iff: "isRfc3339 s \<longleftrightarrow> rfc3339_pattern s"
proof
  assume "isRfc3339 s"
  then have "length (take 19 s) = 19" "head_scan (take 19 s @ drop 19 s)" "fraction_zone (drop 19 s)"
    by (simp_all add: isRfc3339_scan fraction_zone_scan_iff)
  then show "rfc3339_pattern s"
    using head_scan_iff unfolding rfc3339_pattern_def by (metis append_take_drop_id)
next
  assume "rfc3339_pattern s"
  then obtain p r where s: "s = p @ r" and p: "date_time p" and r: "fraction_zone r"
    by (auto simp: rfc3339_pattern_def)
  from r have "r \<noteq> []" by (auto simp: fraction_zone_def is_zone_def)
  then have "1 \<le> length r" by (cases r) auto
  with s p r head_scan_iff [of p r] length_date_time [OF p] show "isRfc3339 s"
    by (simp add: isRfc3339_scan fraction_zone_scan_iff)
qed

section \<open>The minute count is a calendar\<close>

definition nextDay :: "int \<times> int \<times> int \<Rightarrow> int \<times> int \<times> int" where
  "nextDay = (\<lambda>(y, m, d). if d < daysInMonth y m then (y, m, d + 1)
     else if m < 12 then (y, m + 1, 1) else (y + 1, 1, 1))"

definition validDate :: "int \<times> int \<times> int \<Rightarrow> bool" where
  "validDate = (\<lambda>(y, m, d). 1 \<le> m \<and> m \<le> 12 \<and> 1 \<le> d \<and> d \<le> daysInMonth y m)"

lemma divFloor_div: "0 < b \<Longrightarrow> divFloor a b = a div b"
  by (simp add: divFloor_def minus_mod_eq_mult_div)

lemma div_pred:
  "0 < k \<Longrightarrow> y div k = (y - 1) div k + (if y mod k = 0 then 1 else 0)" for k y :: int
proof -
  assume k: "0 < k"
  show ?thesis
  proof (cases "y mod k = 0")
    case True
    then obtain q where "y = k * q" by auto
    then have "y - 1 = (k - 1) + (q - 1) * k" by (simp add: algebra_simps)
    then have "(y - 1) div k = q - 1 + (k - 1) div k" using k by (simp only: div_mult_self1)
    with k \<open>y = k * q\<close> show ?thesis by simp
  next
    case False
    with k have "0 < y mod k" "y mod k < k" using pos_mod_sign [OF k, of y] pos_mod_bound [OF k, of y] by linarith+
    moreover have "y - 1 = (y mod k - 1) + (y div k) * k" by simp
    then have "(y - 1) div k = y div k + (y mod k - 1) div k" using k by (metis div_mult_self1 less_irrefl)
    ultimately show ?thesis by (simp add: False div_pos_pos_trivial)
  qed
qed

text \<open>Days before the first of March of year \<open>y - 400\<close>.\<close>

definition marchDays :: "int \<Rightarrow> int" where
  "marchDays y = 365 * y + y div 4 - y div 100 + y div 400"

lemma dayCount_march:
  "dayCount y m d = marchDays (if m \<le> 2 then y + 399 else y + 400) + (153 * ((m + 9) mod 12) + 2) div 5 + d - 1"
  unfolding dayCount_def Let_def by (simp add: divFloor_div marchDays_def add.commute)

lemma leap_days: "marchDays (y + 400) = marchDays (y + 399) + (if isLeapYear y then 366 else 365)"
proof -
  have e: "y + 400 - 1 = y + 399" by simp
  have m: "(y + 400) mod 4 = y mod 4" "(y + 400) mod 100 = y mod 100" "(y + 400) mod 400 = y mod 400"
    using mod_mult_self1 [of y 100 4] mod_mult_self1 [of y 4 100] mod_mult_self1 [of y 1 400] by simp_all
  have "y mod 400 = 0 \<Longrightarrow> y mod 100 = 0" "y mod 100 = 0 \<Longrightarrow> y mod 4 = 0"
    using dvd_trans [of 100 400 y] dvd_trans [of 4 100 y] by (simp_all add: dvd_eq_mod_eq_0)
  then have "365 * (y + 400) + (a + (if y mod 4 = 0 then 1 else 0)) - (b + (if y mod 100 = 0 then 1 else 0))
      + (c + (if y mod 400 = 0 then 1 else 0)) = 365 * (y + 399) + a - b + c + (if isLeapYear y then 366 else 365)"
    for a b c unfolding isLeapYear_def by simp
  with div_pred [of 4 "y + 400"] div_pred [of 100 "y + 400"] div_pred [of 400 "y + 400"] show ?thesis
    unfolding marchDays_def e m by (simp only: zero_less_numeral)
qed

lemma month_cases:
  assumes "1 \<le> m" "m \<le> (12::int)"
  shows "m = 1 \<or> m = 2 \<or> m = 3 \<or> m = 4 \<or> m = 5 \<or> m = 6 \<or> m = 7 \<or> m = 8 \<or> m = 9 \<or> m = 10 \<or> m = 11 \<or> m = 12"
  using assms by presburger

lemma dayCount_nextDay:
  "validDate (y, m, d) \<Longrightarrow> nextDay (y, m, d) = (y', m', d') \<Longrightarrow> dayCount y' m' d' = dayCount y m d + 1"
proof (cases "d < daysInMonth y m")
  case True
  assume "nextDay (y, m, d) = (y', m', d')"
  with True show ?thesis by (auto simp: nextDay_def dayCount_def Let_def)
next
  case False
  assume v: "validDate (y, m, d)" and n: "nextDay (y, m, d) = (y', m', d')"
  from v False have d: "d = daysInMonth y m" and m: "1 \<le> m" "m \<le> 12" by (auto simp: validDate_def)
  show ?thesis
  proof (cases "m = 2")
    case True
    with n False have e: "y' = y" "m' = 3" "d' = 1" by (simp_all add: nextDay_def)
    have "d = (if isLeapYear y then 29 else 28)" using d True by (simp add: daysInMonth_def)
    then show ?thesis unfolding e True dayCount_march by (simp add: leap_days)
  next
    case False
    with month_cases [OF m]
    have "dayCount y (m + 1) 1 = dayCount y m (daysInMonth y m) + 1" if "m \<noteq> 12"
      using that by (elim disjE) (simp_all add: dayCount_march daysInMonth_def)
    moreover have "dayCount (y + 1) 1 1 = dayCount y 12 (daysInMonth y 12) + 1"
      by (simp add: dayCount_march daysInMonth_def add.commute)
    moreover have "(y', m', d') = (if m = 12 then (y + 1, 1, 1) else (y, m + 1, 1))"
      using n m d \<open>\<not> d < daysInMonth y m\<close> by (simp add: nextDay_def split: if_splits)
    ultimately show ?thesis unfolding d by (simp split: if_splits)
  qed
qed

section \<open>What the timestamp order reports\<close>

text \<open>The nanoseconds as the code counts them.\<close>

definition instantNanos :: "jstr \<Rightarrow> int" where
  "instantNanos s = (utcMinute s * 60 + num2 s 17) * 10 ^ 9 + fractionNanos s"

lemma digitsValue_bound: "list_all isDigit ds \<Longrightarrow> digitsValue ds < 10 ^ length ds"
proof (induction ds rule: rev_induct)
  case (snoc d ds)
  then have "digitsValue ds + 1 \<le> 10 ^ length ds" "nat (d - 48) \<le> 9"
    by (auto simp: isDigit_def list_all_iff)
  then have "digitsValue ds * 10 + 10 \<le> 10 ^ length ds * 10" by simp
  with \<open>nat (d - 48) \<le> 9\<close> show ?case by (simp add: digitsValue_def)
qed (simp add: digitsValue_def)

lemma num2_digits: "digitRun s i 2 \<Longrightarrow> 0 \<le> num2 s i \<and> num2 s i \<le> 99"
  by (auto simp: digitRun_def num2_def isDigit_def upt_rec)

lemma instant_bounds:
  assumes "isRfc3339Instant s"
  shows "0 \<le> num2 s 17" "num2 s 17 \<le> 60" "0 \<le> fractionNanos s" "fractionNanos s < 10 ^ 9"
proof -
  from assms have r: "isRfc3339 s" and le: "num2 s 17 \<le> 60"
    unfolding isRfc3339Instant_def Let_def if_False_conj not_less by simp_all
  then show "num2 s 17 \<le> 60" by simp
  from r have "digitRun s 17 2" by (simp add: isRfc3339_scan head_scan_def)
  then show "0 \<le> num2 s 17" using num2_digits by blast
  define ds where "ds = digitsFrom s 20"
  have l: "length ds \<le> 9" if "charCodeAt s 19 = 46"
    using r that by (simp add: isRfc3339_scan fraction_zone_scan_def charCodeAt_drop ds_def digitsFrom_def)
  have "list_all isDigit ds" by (auto simp: ds_def digitsFrom_def list_all_iff dest: set_takeWhileD)
  then have "int (digitsValue ds) < int (10 ^ length ds)" using digitsValue_bound by (simp only: of_nat_less_iff)
  then have "int (digitsValue ds) * 10 ^ (9 - length ds) < 10 ^ length ds * 10 ^ (9 - length ds)" by simp
  moreover have "10 ^ length ds * 10 ^ (9 - length ds) = (10 ^ 9 :: int)" if "charCodeAt s 19 = 46"
    using l [OF that] power_add [of "10 :: int" "length ds" "9 - length ds"] by simp
  ultimately have b: "int (digitsValue ds) * 10 ^ (9 - length ds) < 10 ^ 9" if "charCodeAt s 19 = 46"
    using that by (simp only:)
  show "0 \<le> fractionNanos s" "fractionNanos s < 10 ^ 9"
    using b by (simp_all add: fractionNanos_def ds_def [symmetric] Let_def)
qed

lemma mult_lex_order:
  fixes ma mb a b k :: int
  assumes "0 \<le> a" "a < k" "0 \<le> b" "b < k"
  shows "mb * k + b < ma * k + a \<longleftrightarrow> mb < ma \<or> mb = ma \<and> b < a"
    and "mb * k + b = ma * k + a \<longleftrightarrow> mb = ma \<and> b = a"
proof -
  have step: "x * k + k \<le> y * k" if "x < y" for x y :: int
  proof -
    from that have "x + 1 \<le> y" by simp
    then have "(x + 1) * k \<le> y * k" using assms by (intro mult_right_mono) auto
    then show ?thesis by (simp add: algebra_simps)
  qed
  have "mb < ma \<Longrightarrow> mb * k + b < ma * k + a" "ma < mb \<Longrightarrow> ma * k + a < mb * k + b"
    using step [of mb ma] step [of ma mb] assms by linarith+
  then show "mb * k + b < ma * k + a \<longleftrightarrow> mb < ma \<or> mb = ma \<and> b < a"
    "mb * k + b = ma * k + a \<longleftrightarrow> mb = ma \<and> b = a"
    by (cases mb ma rule: linorder_cases; simp)+
qed

lemma tsOrder_seconds:
  assumes "isRfc3339Instant e" "isRfc3339Instant l" "num2 e 17 \<noteq> 60" "num2 l 17 \<noteq> 60"
  shows "tsOrder e l = (if instantNanos l < instantNanos e then TS_ORDER_BACKWARDS else TS_ORDER_OK)"
proof -
  note be = instant_bounds [OF assms(1)] and bl = instant_bounds [OF assms(2)]
  have s: "num2 e 17 < 60" "num2 l 17 < 60" using assms(3,4) be(2) bl(2) by auto
  note m = mult_lex_order [OF be(1) s(1) bl(1) s(2), of "utcMinute l" "utcMinute e"]
    and n = mult_lex_order(1) [OF be(3,4) bl(3,4)]
  show ?thesis
    unfolding tsOrder_def Let_def instantNanos_def n m using assms(1,2) by auto
qed

section \<open>What a timestamp means\<close>

text \<open>
  The meaning of a timestamp, independent of how the scanners read it: its fields as they are printed, and the
  instant they name in nanoseconds since the start of year 0, by adding up the lengths of the years and months.
\<close>

record stamp =
  st_year :: nat
  st_month :: nat
  st_day :: nat
  st_sep :: int
  st_hour :: nat
  st_minute :: nat
  st_second :: nat
  st_fraction :: "nat list"
  st_zone :: "int \<times> (nat \<times> nat)"

primrec decimal :: "nat \<Rightarrow> nat \<Rightarrow> jstr" where
  "decimal 0 n = []"
| "decimal (Suc w) n = decimal w (n div 10) @ [48 + int (n mod 10)]"

definition zoneText :: "int \<times> (nat \<times> nat) \<Rightarrow> jstr" where
  "zoneText z = (case z of (c, hh, mm) \<Rightarrow> if c = 43 \<or> c = 45 then [c] @ decimal 2 hh @ [58] @ decimal 2 mm else [c])"

definition fractionText :: "nat list \<Rightarrow> jstr" where
  "fractionText ds = (if ds = [] then [] else 46 # map (\<lambda>d. 48 + int d) ds)"

definition stampText :: "stamp \<Rightarrow> jstr" where
  "stampText t = decimal 4 (st_year t) @ [45] @ decimal 2 (st_month t) @ [45] @ decimal 2 (st_day t) @ [st_sep t] @
     decimal 2 (st_hour t) @ [58] @ decimal 2 (st_minute t) @ [58] @ decimal 2 (st_second t) @
     fractionText (st_fraction t) @ zoneText (st_zone t)"

definition leapYear :: "nat \<Rightarrow> bool" where
  "leapYear y \<longleftrightarrow> 400 dvd y \<or> 4 dvd y \<and> \<not> 100 dvd y"

definition monthLength :: "nat \<Rightarrow> nat \<Rightarrow> nat" where
  "monthLength y m = [31, if leapYear y then 29 else 28, 31, 30, 31, 30, 31, 31, 30, 31, 30, 31] ! (m - 1)"

definition daysBefore :: "nat \<Rightarrow> nat \<Rightarrow> nat \<Rightarrow> nat" where
  "daysBefore y m d = (\<Sum>k<y. if leapYear k then 366 else 365) + (\<Sum>k = 1..<m. monthLength y k) + (d - 1)"

definition zoneMinutes :: "int \<times> (nat \<times> nat) \<Rightarrow> int" where
  "zoneMinutes z = (case z of (c, hh, mm) \<Rightarrow> if c = 43 then int (hh * 60 + mm) else if c = 45 then - int (hh * 60 + mm) else 0)"

definition utcInstant :: "stamp \<Rightarrow> int" where
  "utcInstant t = (((int (daysBefore (st_year t) (st_month t) (st_day t)) * 24 + int (st_hour t)) * 60 + int (st_minute t)
      - zoneMinutes (st_zone t)) * 60 + int (st_second t)) * 10 ^ 9 +
     int (\<Sum>k<length (st_fraction t). st_fraction t ! k * 10 ^ (8 - k))"

text \<open>The fields fit their columns; and they are a date, a time before second 60 and an offset.\<close>

definition printable :: "stamp \<Rightarrow> bool" where
  "printable t \<longleftrightarrow> st_year t < 10000 \<and> st_month t < 100 \<and> st_day t < 100 \<and> st_sep t \<in> {84, 116} \<and> st_hour t < 100 \<and>
     st_minute t < 100 \<and> st_second t < 100 \<and> length (st_fraction t) \<le> 9 \<and> list_all (\<lambda>d. d < 10) (st_fraction t) \<and>
     fst (st_zone t) \<in> {90, 122, 43, 45} \<and> fst (snd (st_zone t)) < 100 \<and> snd (snd (st_zone t)) < 100"

definition calendarStamp :: "stamp \<Rightarrow> bool" where
  "calendarStamp t \<longleftrightarrow> printable t \<and> 1 \<le> st_month t \<and> st_month t \<le> 12 \<and> 1 \<le> st_day t \<and>
     st_day t \<le> monthLength (st_year t) (st_month t) \<and> st_hour t < 24 \<and> st_minute t < 60 \<and> st_second t < 60 \<and>
     (fst (st_zone t) \<in> {43, 45} \<longrightarrow> fst (snd (st_zone t)) < 24 \<and> snd (snd (st_zone t)) < 60)"

lemma decimal_unfold: "decimal 2 n = [48 + int (n div 10 mod 10), 48 + int (n mod 10)]"
  "decimal 4 n = [48 + int (n div 1000 mod 10), 48 + int (n div 100 mod 10), 48 + int (n div 10 mod 10), 48 + int (n mod 10)]"
proof -
  have w: "2 = Suc (Suc 0)" "4 = Suc (Suc (Suc (Suc 0)))" by simp_all
  have d: "n div 10 div 10 = n div 100" "n div 100 div 10 = n div 1000" by (simp_all add: div_mult2_eq [symmetric])
  show "decimal 2 n = [48 + int (n div 10 mod 10), 48 + int (n mod 10)]" unfolding w(1) decimal.simps by simp
  show "decimal 4 n = [48 + int (n div 1000 mod 10), 48 + int (n div 100 mod 10), 48 + int (n div 10 mod 10), 48 + int (n mod 10)]"
    unfolding w(2) decimal.simps d by simp
qed

lemma decimal_split: "n mod 100 = 10 * (n div 10 mod 10) + n mod 10" "n mod 1000 = 100 * (n div 100 mod 10) + n mod 100"
  "n mod 10000 = 1000 * (n div 1000 mod 10) + n mod 1000" for n :: nat
  using mod_mult2_eq [of n 10 10] mod_mult2_eq [of n 100 10] mod_mult2_eq [of n 1000 10] by (simp_all only: numeral_times_numeral num.simps semiring_norm)

lemma two_digits: "n < 100 \<Longrightarrow> int (n div 10 mod 10) * 10 + int (n mod 10) = int n"
  using decimal_split(1) [of n] by (simp only: mod_less)

lemma four_digits:
  "n < 10000 \<Longrightarrow> int (n div 1000 mod 10) * 1000 + int (n div 100 mod 10) * 100 + int (n div 10 mod 10) * 10 + int (n mod 10) = int n"
  using decimal_split [of n] by (simp only: mod_less)

text \<open>The nineteen columns before the fraction.\<close>

definition dateColumns :: "stamp \<Rightarrow> jstr" where
  "dateColumns t = decimal 4 (st_year t) @ [45] @ decimal 2 (st_month t) @ [45] @ decimal 2 (st_day t) @ [st_sep t] @
     decimal 2 (st_hour t) @ [58] @ decimal 2 (st_minute t) @ [58] @ decimal 2 (st_second t)"

lemma stampText_split: "stampText t = dateColumns t @ fractionText (st_fraction t) @ zoneText (st_zone t)"
  by (simp add: stampText_def dateColumns_def)

lemma length_dateColumns [simp]: "length (dateColumns t) = 19"
  by (simp add: dateColumns_def decimal_unfold)

lemma num2_append: "num2 (s @ r) (length s + i) = num2 r i"
  unfolding num2_def add.assoc charCodeAt_append_right ..

lemma num2_decimal: "n < 100 \<Longrightarrow> num2 (decimal 2 n @ r) 0 = int n"
  unfolding decimal_unfold num2_def using two_digits [of n] by (simp only: charCodeAt_def) auto

lemma num4_decimal: "n < 10000 \<Longrightarrow> num4 (decimal 4 n @ r) 0 = int n"
  unfolding decimal_unfold num4_def using four_digits [of n] by (simp only: charCodeAt_def) auto

lemma num2_at: "n < 100 \<Longrightarrow> num2 (p @ decimal 2 n @ r) (length p) = int n"
  using num2_append [of p "decimal 2 n @ r" 0] num2_decimal [of n r] by simp

lemma stamp_columns:
  assumes "printable t"
  shows "num4 (stampText t) 0 = int (st_year t)" "num2 (stampText t) 5 = int (st_month t)" "num2 (stampText t) 8 = int (st_day t)"
    "num2 (stampText t) 11 = int (st_hour t)" "num2 (stampText t) 14 = int (st_minute t)" "num2 (stampText t) 17 = int (st_second t)"
proof -
  let ?y = "decimal 4 (st_year t)" and ?m = "decimal 2 (st_month t)" and ?d = "decimal 2 (st_day t)" and ?h = "decimal 2 (st_hour t)"
    and ?i = "decimal 2 (st_minute t)" and ?s = "decimal 2 (st_second t)" and ?r = "fractionText (st_fraction t) @ zoneText (st_zone t)"
  have p: "st_year t < 10000" "st_month t < 100" "st_day t < 100" "st_hour t < 100" "st_minute t < 100" "st_second t < 100"
    using assms by (simp_all add: printable_def)
  have l: "length (decimal 4 n) = 4" "length (decimal 2 n) = 2" for n by (simp_all add: decimal_unfold)
  show "num4 (stampText t) 0 = int (st_year t)"
    unfolding stampText_def by (rule num4_decimal [OF p(1)])
  show "num2 (stampText t) 5 = int (st_month t)"
    using num2_at [OF p(2), of "?y @ [45]"] by (simp add: stampText_def l)
  show "num2 (stampText t) 8 = int (st_day t)"
    using num2_at [OF p(3), of "?y @ [45] @ ?m @ [45]"] by (simp add: stampText_def l)
  show "num2 (stampText t) 11 = int (st_hour t)"
    using num2_at [OF p(4), of "?y @ [45] @ ?m @ [45] @ ?d @ [st_sep t]"] by (simp add: stampText_def l)
  show "num2 (stampText t) 14 = int (st_minute t)"
    using num2_at [OF p(5), of "?y @ [45] @ ?m @ [45] @ ?d @ [st_sep t] @ ?h @ [58]"] by (simp add: stampText_def l)
  show "num2 (stampText t) 17 = int (st_second t)"
    using num2_at [OF p(6), of "?y @ [45] @ ?m @ [45] @ ?d @ [st_sep t] @ ?h @ [58] @ ?i @ [58]"] by (simp add: stampText_def l)
qed

lemma isLeapYear_int: "isLeapYear (int y) = leapYear y"
proof -
  have d: "int y mod int k = 0 \<longleftrightarrow> k dvd y" for k by (metis int_dvd_int_iff dvd_eq_mod_eq_0)
  have "(400 :: nat) dvd y \<Longrightarrow> 100 dvd y" "(100 :: nat) dvd y \<Longrightarrow> 4 dvd y"
    using dvd_trans [of 100 400 y] dvd_trans [of 4 100 y] by simp_all
  then show ?thesis using d [of 4] d [of 100] d [of 400] unfolding isLeapYear_def leapYear_def by auto
qed

lemma month_number: "1 \<le> m \<Longrightarrow> m \<le> 12 \<Longrightarrow> m \<in> {1, 2, 3, 4, 5, 6, 7, 8, 9, 10, 11, 12 :: nat}"
  by simp arith

lemma daysInMonth_int: "1 \<le> m \<Longrightarrow> m \<le> 12 \<Longrightarrow> daysInMonth (int y) (int m) = int (monthLength y m)"
  by (drule (1) month_number) (auto simp: daysInMonth_def monthLength_def isLeapYear_int)

lemma dayCount_year: "dayCount (int y) 1 1 = dayCount 0 1 1 + int (\<Sum>k<y. if leapYear k then 366 else 365)"
proof (induction y)
  case (Suc y)
  have "dayCount (int (Suc y)) 1 1 = dayCount (int y) 1 1 + (if leapYear y then 366 else 365)"
    using leap_days [of "int y"] by (simp add: dayCount_march isLeapYear_int add.commute)
  then show ?case using Suc by simp
qed simp

lemma month_start:
  assumes "1 \<le> m" "m \<le> 12"
  shows "dayCount (int y) (int m) 1 = dayCount (int y) 1 1 + int (\<Sum>k = 1..<m. monthLength y k)"
  using assms
proof (induction m rule: nat_induct_at_least)
  case (Suc m)
  have v: "validDate (int y, int m, int (monthLength y m))"
    using Suc.prems Suc.hyps daysInMonth_int [of m y] by (auto simp: validDate_def monthLength_def nth_Cons')
  have "nextDay (int y, int m, int (monthLength y m)) = (int y, int (Suc m), 1)"
    using Suc.prems Suc.hyps daysInMonth_int [of m y] by (simp add: nextDay_def add.commute)
  from dayCount_nextDay [OF v this]
  have "dayCount (int y) (int (Suc m)) 1 = dayCount (int y) (int m) (int (monthLength y m)) + 1" .
  also have "\<dots> = dayCount (int y) (int m) 1 + int (monthLength y m)" by (simp add: dayCount_def Let_def)
  finally show ?case using Suc by simp
qed simp

lemma dayCount_daysBefore:
  assumes "1 \<le> m" "m \<le> 12" "1 \<le> d"
  shows "dayCount (int y) (int m) (int d) = dayCount 0 1 1 + int (daysBefore y m d)"
proof -
  have "dayCount (int y) (int m) (int d) = dayCount (int y) (int m) 1 + int (d - 1)" using assms(3) by (simp add: dayCount_def Let_def)
  then show ?thesis unfolding month_start [OF assms(1,2)] dayCount_year daysBefore_def by simp
qed

lemma fraction_value:
  assumes "list_all (\<lambda>d. d < 10) ds" "length ds \<le> 9"
  shows "int (digitsValue (map (\<lambda>d. 48 + int d) ds)) * 10 ^ (9 - length ds) = int (\<Sum>k<length ds. ds ! k * 10 ^ (8 - k))"
  using assms
proof (induction ds rule: rev_induct)
  case (snoc d ds)
  have p: "(10 :: int) ^ (9 - length ds) = 10 * 10 ^ (8 - length ds)" using snoc.prems(2) by (simp add: Suc_diff_le flip: power_Suc)
  have "(\<Sum>k<length (ds @ [d]). (ds @ [d]) ! k * 10 ^ (8 - k)) = (\<Sum>k<length ds. ds ! k * 10 ^ (8 - k)) + d * 10 ^ (8 - length ds)"
    by (simp add: nth_append)
  moreover have "int (digitsValue (map (\<lambda>d. 48 + int d) (ds @ [d]))) = int (digitsValue (map (\<lambda>d. 48 + int d) ds)) * 10 + int d"
    by (simp add: digitsValue_def)
  ultimately show ?case using snoc by (simp add: p algebra_simps)
qed (simp add: digitsValue_def)

lemma isDigit_decimal: "isDigit (48 + int (n mod 10))"
  by (simp add: isDigit_def)

lemma digs_decimal: "digs 2 (decimal 2 n)" "digs 4 (decimal 4 n)"
  by (simp_all add: decimal_unfold digs_def isDigit_decimal)

lemma zoneText_zone:
  assumes "printable t"
  shows "is_zone (zoneText (st_zone t))"
proof -
  obtain c hh mm where z: "st_zone t = (c, hh, mm)" "c \<in> {90, 122, 43, 45}" using assms by (cases "st_zone t") (auto simp: printable_def)
  then show ?thesis using digs_decimal(1) [of hh] digs_decimal(1) [of mm]
    by (cases "c = 43 \<or> c = 45") (auto simp: zoneText_def is_zone_def)
qed

lemma fraction_digits: "list_all (\<lambda>d. d < 10) ds \<Longrightarrow> list_all isDigit (map (\<lambda>d. 48 + int d) ds)"
  by (auto simp: list_all_iff isDigit_def)

lemma stamp_pattern:
  assumes "printable t"
  shows "isRfc3339 (stampText t)"
proof -
  have "date_time (dateColumns t)" unfolding date_time_def dateColumns_def
    using assms digs_decimal by (intro exI conjI) (auto simp: printable_def)
  moreover have "fraction_zone (fractionText (st_fraction t) @ zoneText (st_zone t))"
    unfolding fraction_zone_def using zoneText_zone [OF assms] assms fraction_digits [of "st_fraction t"]
    by (intro exI [of _ "fractionText (st_fraction t)"] exI [of _ "zoneText (st_zone t)"])
      (auto simp: fractionText_def printable_def Suc_le_eq)
  ultimately show ?thesis unfolding isRfc3339_iff rfc3339_pattern_def stampText_split by blast
qed

lemma stamp_zone:
  assumes "printable t" "st_zone t = (c, hh, mm)"
  shows "c \<in> {90, 122} \<Longrightarrow> charCodeAt (stampText t) (length (stampText t) - 1) = c"
    "c \<in> {43, 45} \<Longrightarrow> charCodeAt (stampText t) (length (stampText t) - 1) \<notin> {90, 122} \<and>
       charCodeAt (stampText t) (length (stampText t) - 6) = c \<and>
       num2 (stampText t) (length (stampText t) - 5) = int hh \<and> num2 (stampText t) (length (stampText t) - 2) = int mm"
proof -
  let ?p = "dateColumns t @ fractionText (st_fraction t)"
  have b: "hh < 100" "mm < 100" using assms by (simp_all add: printable_def)
  show "c \<in> {90, 122} \<Longrightarrow> charCodeAt (stampText t) (length (stampText t) - 1) = c"
    using charCodeAt_append_right [of ?p "[c]" 0] by (auto simp: stampText_split zoneText_def assms(2) charCodeAt_def)
  assume c: "c \<in> {43, 45}"
  then have s: "stampText t = ?p @ [c] @ decimal 2 hh @ [58] @ decimal 2 mm" by (auto simp: stampText_split zoneText_def assms(2))
  have n: "length (stampText t) = length ?p + 6" unfolding s by (simp add: decimal_unfold)
  have i: "length (stampText t) - 1 = length ?p + 5" "length (stampText t) - 6 = length ?p + 0"
    "length (stampText t) - 5 = length (?p @ [c])" "length (stampText t) - 2 = length (?p @ [c] @ decimal 2 hh @ [58])"
    unfolding n by (simp_all add: decimal_unfold)
  have "charCodeAt (stampText t) (length ?p + 5) = charCodeAt ([c] @ decimal 2 hh @ [58] @ decimal 2 mm) 5"
    "charCodeAt (stampText t) (length ?p + 0) = charCodeAt ([c] @ decimal 2 hh @ [58] @ decimal 2 mm) 0"
    unfolding s by (rule charCodeAt_append_right)+
  then have "charCodeAt (stampText t) (length ?p + 5) = 48 + int (mm mod 10)" "charCodeAt (stampText t) (length ?p + 0) = c"
    by (simp_all add: decimal_unfold charCodeAt_def)
  moreover have "num2 (stampText t) (length (?p @ [c])) = int hh"
    using num2_at [OF b(1), of "?p @ [c]" "[58] @ decimal 2 mm"] unfolding s by simp
  moreover have "num2 (stampText t) (length (?p @ [c] @ decimal 2 hh @ [58])) = int mm"
    using num2_at [OF b(2), of "?p @ [c] @ decimal 2 hh @ [58]" "[]"] unfolding s by simp
  moreover have "48 + int (mm mod 10) < 90" by simp
  ultimately show "charCodeAt (stampText t) (length (stampText t) - 1) \<notin> {90, 122} \<and>
       charCodeAt (stampText t) (length (stampText t) - 6) = c \<and>
       num2 (stampText t) (length (stampText t) - 5) = int hh \<and> num2 (stampText t) (length (stampText t) - 2) = int mm"
    unfolding i by auto
qed

lemma stamp_fraction:
  assumes "printable t"
  shows "fractionNanos (stampText t) = int (\<Sum>k<length (st_fraction t). st_fraction t ! k * 10 ^ (8 - k))"
proof -
  note z = is_zone_hd [OF zoneText_zone [OF assms]]
  have f: "list_all (\<lambda>d. d < 10) (st_fraction t)" "length (st_fraction t) \<le> 9" using assms by (simp_all add: printable_def)
  have c: "charCodeAt (stampText t) 19 = charCodeAt (fractionText (st_fraction t) @ zoneText (st_zone t)) 0"
    using charCodeAt_append_right [of "dateColumns t" _ 0] unfolding stampText_split by simp
  show ?thesis
  proof (cases "st_fraction t = []")
    case True
    have "charCodeAt (stampText t) 19 \<noteq> 46" unfolding c using z True by (cases "zoneText (st_zone t)") (auto simp: fractionText_def charCodeAt_def)
    then show ?thesis using True by (simp add: fractionNanos_def)
  next
    case False
    have "charCodeAt (stampText t) 19 = 46" unfolding c using False by (simp add: fractionText_def charCodeAt_def)
    moreover have "drop 20 (stampText t) = map (\<lambda>d. 48 + int d) (st_fraction t) @ zoneText (st_zone t)"
      unfolding stampText_split using False by (simp add: fractionText_def)
    then have "digitsFrom (stampText t) 20 = map (\<lambda>d. 48 + int d) (st_fraction t)"
      using z fraction_digits [OF f(1)] by (cases "zoneText (st_zone t)") (auto simp: digitsFrom_def list_all_iff takeWhile_append)
    ultimately show ?thesis using fraction_value [OF f] by (simp add: fractionNanos_def Let_def)
  qed
qed

lemma isRfc3339Instant_iff:
  "isRfc3339Instant s \<longleftrightarrow> isRfc3339 s \<and> (1 \<le> num2 s 5 \<and> num2 s 5 \<le> 12) \<and> (1 \<le> num2 s 8 \<and> num2 s 8 \<le> daysInMonth (num4 s 0) (num2 s 5)) \<and>
     num2 s 11 \<le> 23 \<and> num2 s 14 \<le> 59 \<and> num2 s 17 \<le> 60 \<and>
     (charCodeAt s (length s - 1) \<in> {90, 122} \<or> num2 s (length s - 5) \<le> 23 \<and> num2 s (length s - 2) \<le> 59)"
  unfolding isRfc3339Instant_def Let_def if_False_conj by (simp only: not_less de_Morgan_disj insert_iff empty_iff simp_thms if_bool_eq_disj) blast

lemma stamp_instant:
  assumes "printable t"
  shows "isRfc3339Instant (stampText t) \<and> num2 (stampText t) 17 \<noteq> 60 \<longleftrightarrow> calendarStamp t"
proof -
  obtain c hh mm where z: "st_zone t = (c, hh, mm)" "c \<in> {90, 122} \<or> c \<in> {43, 45}"
    using assms by (cases "st_zone t") (auto simp: printable_def)
  note col = stamp_columns [OF assms] and zone = stamp_zone [OF assms z(1)]
  let ?s = "stampText t"
  have date: "(1 \<le> int (st_month t) \<and> int (st_month t) \<le> 12) \<and> (1 \<le> int (st_day t) \<and> int (st_day t) \<le> daysInMonth (int (st_year t)) (int (st_month t)))
      \<longleftrightarrow> 1 \<le> st_month t \<and> st_month t \<le> 12 \<and> 1 \<le> st_day t \<and> st_day t \<le> monthLength (st_year t) (st_month t)"
    using daysInMonth_int [of "st_month t" "st_year t"] by auto
  have time: "int (st_hour t) \<le> 23 \<longleftrightarrow> st_hour t < 24" "int (st_minute t) \<le> 59 \<longleftrightarrow> st_minute t < 60"
    "int (st_second t) \<le> 60 \<and> int (st_second t) \<noteq> 60 \<longleftrightarrow> st_second t < 60" by auto
  have offset: "charCodeAt ?s (length ?s - 1) \<in> {90, 122} \<or> num2 ?s (length ?s - 5) \<le> 23 \<and> num2 ?s (length ?s - 2) \<le> 59 \<longleftrightarrow>
      (fst (st_zone t) \<in> {43, 45} \<longrightarrow> fst (snd (st_zone t)) < 24 \<and> snd (snd (st_zone t)) < 60)"
    using z(2)
  proof (elim disjE)
    assume "c \<in> {90, 122}"
    then show ?thesis using zone(1) z(1) by auto
  next
    assume "c \<in> {43, 45}"
    then show ?thesis using zone(2) z(1) by auto
  qed
  show ?thesis unfolding isRfc3339Instant_iff offset calendarStamp_def unfolding col
    using assms stamp_pattern [OF assms] date time by blast
qed

lemma stamp_nanos:
  assumes "calendarStamp t"
  shows "instantNanos (stampText t) = utcInstant t + dayCount 0 1 1 * (1440 * 60 * 10 ^ 9)"
proof -
  have p: "printable t" and r: "1 \<le> st_month t" "st_month t \<le> 12" "1 \<le> st_day t" using assms by (simp_all add: calendarStamp_def)
  obtain c hh mm where z: "st_zone t = (c, hh, mm)" "c \<in> {90, 122} \<or> c \<in> {43, 45}"
    using p by (cases "st_zone t") (auto simp: printable_def)
  note col = stamp_columns [OF p] and zone = stamp_zone [OF p z(1)]
  have "utcMinute (stampText t) = (dayCount 0 1 1 + int (daysBefore (st_year t) (st_month t) (st_day t))) * 1440 +
      int (st_hour t) * 60 + int (st_minute t) - zoneMinutes (st_zone t)"
    unfolding utcMinute_def Let_def col dayCount_daysBefore [OF r] using zone z by (auto simp: zoneMinutes_def)
  then show ?thesis unfolding instantNanos_def col stamp_fraction [OF p] utcInstant_def by (simp add: algebra_simps)
qed

lemma two_columns:
  assumes "digs 2 xs"
  obtains n where "n < 100" "xs = decimal 2 n"
proof -
  obtain a b where ab: "xs = [a, b]" "isDigit a" "isDigit b" using assms by (auto simp: digs_2)
  define x y where "x = nat (a - 48)" and "y = nat (b - 48)"
  have "x < 10" "y < 10" "a = 48 + int x" "b = 48 + int y" using ab by (auto simp: x_def y_def isDigit_def)
  then show thesis using ab by (intro that [of "x * 10 + y"]) (auto simp: decimal_unfold)
qed

lemma decimal_append: "n < 10 ^ k \<Longrightarrow> decimal (w + k) (m * 10 ^ k + n) = decimal w m @ decimal k n"
proof (induction k arbitrary: n)
  case (Suc k)
  have e: "m * 10 ^ Suc k + n = n + m * 10 ^ k * 10" by simp
  have d: "(m * 10 ^ Suc k + n) div 10 = m * 10 ^ k + n div 10" "(m * 10 ^ Suc k + n) mod 10 = n mod 10"
    unfolding e by simp_all
  have "n div 10 < 10 ^ k" using Suc.prems by auto
  then show ?case using Suc.IH unfolding add_Suc_right decimal.simps d by simp
qed simp

lemma four_columns:
  assumes "digs 4 xs"
  obtains n where "n < 10000" "xs = decimal 4 n"
proof -
  obtain a b c d where ab: "xs = [a, b] @ [c, d]" "digs 2 [a, b]" "digs 2 [c, d]" using assms by (auto simp: digs_2 digs_4)
  obtain m n where mn: "m < 100" "[a, b] = decimal 2 m" "n < 100" "[c, d] = decimal 2 n" using two_columns ab(2,3) by metis
  have "decimal (2 + 2) (m * 10 ^ 2 + n) = decimal 2 m @ decimal 2 n" using mn(3) by (intro decimal_append) simp
  then have "xs = decimal 4 (m * 100 + n)" using mn(2,4) ab(1) by simp
  then show thesis using mn(1,3) by (intro that [of "m * 100 + n"]) simp_all
qed

lemma fraction_columns:
  assumes "list_all isDigit xs"
  obtains ds where "list_all (\<lambda>d. d < 10) ds" "xs = map (\<lambda>d. 48 + int d) ds"
proof
  show "list_all (\<lambda>d. d < 10) (map (\<lambda>c. nat (c - 48)) xs)" using assms by (auto simp: list_all_iff isDigit_def)
  show "xs = map (\<lambda>d. 48 + int d) (map (\<lambda>c. nat (c - 48)) xs)" using assms by (auto simp: list_all_iff isDigit_def intro!: map_idI [symmetric])
qed

lemma zone_columns:
  assumes "is_zone z"
  obtains c hh mm where "z = zoneText (c, hh, mm)" "c \<in> {90, 122, 43, 45}" "hh < 100" "mm < 100"
proof -
  from assms consider "z = [90] \<or> z = [122]" | sg hs ms where "z = sg # hs @ [58] @ ms" "sg = 43 \<or> sg = 45" "digs 2 hs" "digs 2 ms"
    unfolding is_zone_def by blast
  then show thesis
  proof cases
    case 1
    then show thesis by (intro that [of "hd z" 0 0]) (auto simp: zoneText_def)
  next
    case 2
    obtain hh mm where "hh < 100" "hs = decimal 2 hh" "mm < 100" "ms = decimal 2 mm" using two_columns 2(3,4) by metis
    then show thesis using 2 by (intro that [of sg hh mm]) (auto simp: zoneText_def)
  qed
qed

lemma instant_is_stamp:
  assumes "isRfc3339 s"
  obtains t where "printable t" "s = stampText t"
proof -
  obtain p fr z where s: "s = p @ fr @ z" and p: "date_time p" and z: "is_zone z"
    and fr: "fr = [] \<or> (\<exists>ds. fr = 46 # ds \<and> 1 \<le> length ds \<and> length ds \<le> 9 \<and> list_all isDigit ds)"
    using assms unfolding isRfc3339_iff rfc3339_pattern_def fraction_zone_def by blast
  obtain y mo d sep h mi se where f: "p = y @ [45] @ mo @ [45] @ d @ [sep] @ h @ [58] @ mi @ [58] @ se"
    "digs 4 y" "digs 2 mo" "digs 2 d" "sep = 84 \<or> sep = 116" "digs 2 h" "digs 2 mi" "digs 2 se"
    using p unfolding date_time_def by blast
  obtain Y where Y: "Y < 10000" "y = decimal 4 Y" using four_columns [OF f(2)] .
  obtain M where M: "M < 100" "mo = decimal 2 M" using two_columns [OF f(3)] .
  obtain D where D: "D < 100" "d = decimal 2 D" using two_columns [OF f(4)] .
  obtain h' where h: "h' < 100" "h = decimal 2 h'" using two_columns [OF f(6)] .
  obtain m' where m: "m' < 100" "mi = decimal 2 m'" using two_columns [OF f(7)] .
  obtain s' where s': "s' < 100" "se = decimal 2 s'" using two_columns [OF f(8)] .
  obtain c hh mm where c: "z = zoneText (c, hh, mm)" "c \<in> {90, 122, 43, 45}" "hh < 100" "mm < 100" using zone_columns [OF z] .
  obtain ds where ds: "list_all (\<lambda>d. d < 10) ds" "length ds \<le> 9" "fr = fractionText ds"
  proof (cases "fr = []")
    case True
    then show thesis by (intro that [of "[]"]) (simp_all add: fractionText_def)
  next
    case False
    then obtain xs where xs: "fr = 46 # xs" "1 \<le> length xs" "length xs \<le> 9" "list_all isDigit xs" using fr by blast
    obtain ds where "list_all (\<lambda>d. d < 10) ds" "xs = map (\<lambda>d. 48 + int d) ds" using fraction_columns [OF xs(4)] .
    then show thesis using xs by (intro that [of ds]) (auto simp: fractionText_def)
  qed
  let ?t = "\<lparr>st_year = Y, st_month = M, st_day = D, st_sep = sep, st_hour = h', st_minute = m', st_second = s', st_fraction = ds,
    st_zone = (c, hh, mm)\<rparr>"
  have "printable ?t" using Y(1) M(1) D(1) h(1) m(1) s'(1) f(5) c(2-4) ds(1,2) by (simp add: printable_def)
  moreover have "s = stampText ?t" unfolding s f(1) c(1) ds(3) Y(2) M(2) D(2) h(2) m(2) s'(2) by (simp add: stampText_def)
  ultimately show thesis by (rule that)
qed

lemma instants_are_stamps: "isRfc3339Instant s \<and> num2 s 17 \<noteq> 60 \<longleftrightarrow> (\<exists>t. calendarStamp t \<and> s = stampText t)"
proof
  assume i: "isRfc3339Instant s \<and> num2 s 17 \<noteq> 60"
  then have "isRfc3339 s" by (simp add: isRfc3339Instant_def split: if_splits)
  then obtain t where "printable t" "s = stampText t" by (rule instant_is_stamp)
  then show "\<exists>t. calendarStamp t \<and> s = stampText t" using stamp_instant i by blast
next
  assume "\<exists>t. calendarStamp t \<and> s = stampText t"
  then show "isRfc3339Instant s \<and> num2 s 17 \<noteq> 60" using stamp_instant by (auto simp: calendarStamp_def)
qed

lemma tsOrder_stamps:
  assumes "calendarStamp a" "calendarStamp b"
  shows "tsOrder (stampText a) (stampText b) = (if utcInstant b < utcInstant a then TS_ORDER_BACKWARDS else TS_ORDER_OK)"
proof -
  have "isRfc3339Instant (stampText a)" "isRfc3339Instant (stampText b)" "num2 (stampText a) 17 \<noteq> 60" "num2 (stampText b) 17 \<noteq> 60"
    using assms instants_are_stamps by blast+
  then show ?thesis using tsOrder_seconds stamp_nanos assms by simp
qed

section \<open>Properties\<close>

text \<open>
  (C23) The RFC 3339 scanner accepts exactly the strings of the pattern it replaces: four digit year,
  two digit fields with their separators, an optional fraction of one to nine digits, and \<open>Z\<close> or a
  numeric offset. The hash scanner accepts exactly \<open>sha256:\<close> followed by 64 lower-case hex digits.
\<close>

theorem scanners_decide_patterns:
  "(isRfc3339 s \<longleftrightarrow> rfc3339_pattern s) \<and>
   (isSha256Hash s \<longleftrightarrow> (\<exists>h. s = U ''sha256:'' @ h \<and> length h = 64 \<and> list_all isLowerHex h)) \<and>
   (isParamsHash s \<longleftrightarrow> (\<exists>h. (s = U ''sha256:'' @ h \<or> s = U ''hmac-sha256:'' @ h)
      \<and> length h = 64 \<and> list_all isLowerHex h))"
  using isRfc3339_iff isSha256Hash_iff isParamsHash_iff by simp

text \<open>
  (C24) The day count behind \<open>utcMinute\<close> is the proleptic Gregorian calendar: from any valid date, the
  next calendar date (month ends and leap years as \<open>daysInMonth\<close> has them) counts exactly one more.
\<close>

theorem day_count_is_calendar:
  "validDate (y, m, d) \<Longrightarrow> nextDay (y, m, d) = (y', m', d') \<Longrightarrow> dayCount y' m' d' = dayCount y m d + 1"
  by (rule dayCount_nextDay)

theorem day_count_is_calendar_witness:
  "validDate (2028, 2, 28) \<and> nextDay (2028, 2, 28) = (2028, 2, 29) \<and>
   dayCount 2028 2 29 = dayCount 2028 2 28 + 1"
proof -
  have v: "validDate (2028, 2, 28)" and n: "nextDay (2028, 2, 28) = (2028, 2, 29)"
    by (simp_all add: validDate_def nextDay_def daysInMonth_def isLeapYear_def)
  show ?thesis using v n day_count_is_calendar [OF v n] by blast
qed

definition exampleStamp :: "nat \<Rightarrow> nat list \<Rightarrow> int \<Rightarrow> nat \<Rightarrow> stamp" where
  "exampleStamp h fr c z = \<lparr>st_year = 2024, st_month = 2, st_day = 29, st_sep = 84, st_hour = h, st_minute = 0, st_second = 0, st_fraction = fr,
     st_zone = (c, z, 0)\<rparr>"

text \<open>
  (C25) The timestamp order is the order of the instants: on the texts of any two dates and times before second
  60, it reports BACKWARDS exactly when the later stamp names a strictly earlier instant, in nanoseconds of
  UTC counted from the lengths of the years and months, and OK otherwise. These texts are all the instants
  the scanner accepts without a second 60.
\<close>

theorem timestamp_order_decided:
  assumes "calendarStamp a" "calendarStamp b"
  shows "tsOrder (stampText a) (stampText b) = (if utcInstant b < utcInstant a then TS_ORDER_BACKWARDS else TS_ORDER_OK) \<and>
    {s. isRfc3339Instant s \<and> num2 s 17 \<noteq> 60} = {stampText t |t. calendarStamp t}"
  using tsOrder_stamps [OF assms] instants_are_stamps by auto

theorem timestamp_order_decided_witness:
  "stampText (exampleStamp 1 [5] 90 0) = U ''2024-02-29T01:00:00.5Z'' \<and> stampText (exampleStamp 3 [2, 5] 43 2) = U ''2024-02-29T03:00:00.25+02:00'' \<and>
   tsOrder (U ''2024-02-29T01:00:00.5Z'') (U ''2024-02-29T03:00:00.25+02:00'') = TS_ORDER_BACKWARDS"
proof -
  let ?a = "exampleStamp 1 [5] 90 0" and ?b = "exampleStamp 3 [2, 5] 43 2"
  have c: "calendarStamp ?a" "calendarStamp ?b" by code_simp+
  have t: "stampText ?a = U ''2024-02-29T01:00:00.5Z''" "stampText ?b = U ''2024-02-29T03:00:00.25+02:00''" by code_simp+
  have "utcInstant ?b < utcInstant ?a"
    by (simp add: utcInstant_def exampleStamp_def zoneMinutes_def lessThan_Suc)
  then show ?thesis using timestamp_order_decided [OF c] t by simp
qed

end
