(* ===== verification/Safe_Json.thy ===== *)
theory Safe_Json
  imports Scan
begin

text \<open>
  The hardened JSON parser of src/src/safe-json.ts. The cursor \<open>i\<close> into \<open>text\<close> is modelled by the
  suffix that is still to be read, so \<open>text[i]\<close> is the head of the suffix (nothing at the end), and
  a thrown \<open>SafeJsonError\<close> is a message with the length of that suffix, from which \<open>safeParse\<close>
  recovers the position. The recursive descent runs on fuel; \<open>safeParse_total\<close> shows that the fuel
  \<open>safeParse\<close> supplies (one more than twice the length of the text) is never used up. The other lemmas show
  what every accepted document looks like: distinct, allowed keys, safe integers, well-formed
  strings, bounded depth.
\<close>

section \<open>Strings\<close>

definition isHighSurrogate :: "int \<Rightarrow> bool" where
  "isHighSurrogate c \<longleftrightarrow> 0xD800 \<le> c \<and> c \<le> 0xDBFF"

definition isLowSurrogate :: "int \<Rightarrow> bool" where
  "isLowSurrogate c \<longleftrightarrow> 0xDC00 \<le> c \<and> c \<le> 0xDFFF"

text \<open>\<open>String.prototype.isWellFormed\<close>: every surrogate is half of a pair.\<close>

fun strIsWellFormed :: "jstr \<Rightarrow> bool" where
  "strIsWellFormed [] = True"
| "strIsWellFormed (c # s) =
     (if isHighSurrogate c then (case s of [] \<Rightarrow> False | d # s' \<Rightarrow> isLowSurrogate d \<and> strIsWellFormed s')
      else \<not> isLowSurrogate c \<and> strIsWellFormed s)"

text \<open>\<open>parseInt(hex, 16)\<close> on the four digits \<open>isHex4\<close> let through.\<close>

definition hexDigit :: "int \<Rightarrow> int" where
  "hexDigit c = (if c \<le> 57 then c - 48 else if 97 \<le> c then c - 87 else c - 55)"

definition parseHex :: "jstr \<Rightarrow> int" where
  "parseHex s = foldl (\<lambda>a c. a * 16 + hexDigit c) 0 s"

section \<open>The parser\<close>

datatype json_msg =
    InputTooLong | DepthExceeded | UnexpectedEnd | UnexpectedCharacter int
  | ExpectedKeyString | ForbiddenKey jstr | DuplicateKey jstr | ExpectedColon | ExpectedObjectSep
  | ExpectedArraySep | UnterminatedString | UnpairedSurrogate | InvalidUnicodeEscape
  | InvalidEscape "int option" | ControlCharacter | InvalidNumber | NonInteger | UnsafeInteger
  | InvalidLiteral | TrailingCharacters | OutOfFuel

type_synonym 'a parsed = "(json_msg \<times> nat) + ('a \<times> jstr)"

definition isForbiddenKey :: "jstr \<Rightarrow> bool" where
  "isForbiddenKey k \<longleftrightarrow> k = U ''__proto__'' \<or> k = U ''prototype'' \<or> k = U ''constructor''"

definition isWs :: "int \<Rightarrow> bool" where
  "isWs c \<longleftrightarrow> c = 32 \<or> c = 9 \<or> c = 10 \<or> c = 13"

definition skipWs :: "jstr \<Rightarrow> jstr" where
  "skipWs r = dropWhile isWs r"

text \<open>
  \<open>parseString\<close> from after the opening quote; \<open>out\<close> is the text collected so far. The one-character
  escapes are the table \<open>simpleEscape\<close>.
\<close>

definition simpleEscape :: "int \<Rightarrow> int option" where
  "simpleEscape e =
     (if e = 34 then Some 34 else if e = 92 then Some 92 else if e = 47 then Some 47
      else if e = 98 then Some 8 else if e = 102 then Some 12 else if e = 110 then Some 10
      else if e = 114 then Some 13 else if e = 116 then Some 9 else None)"

fun parseString :: "jstr \<Rightarrow> jstr \<Rightarrow> jstr parsed" where
  "parseString out [] = Inl (UnterminatedString, 0)"
| "parseString out (c # r) =
     (if c = 34 then
        (if \<not> strIsWellFormed out then Inl (UnpairedSurrogate, length r) else Inr (out, r))
      else if c = 92 then
        (case r of
           [] \<Rightarrow> Inl (InvalidEscape None, 0)
         | e # r' \<Rightarrow>
             (case simpleEscape e of
                Some d \<Rightarrow> parseString (out @ [d]) r'
              | None \<Rightarrow>
                  if e = 117 then
                    (if \<not> isHex4 (take 4 r') then Inl (InvalidUnicodeEscape, length r)
                     else parseString (out @ [parseHex (take 4 r')]) (drop 4 r'))
                  else Inl (InvalidEscape (Some e), length r)))
      else if c < 32 then Inl (ControlCharacter, Suc (length r))
      else parseString (out @ [c]) r)"

definition parseNumber :: "jstr \<Rightarrow> json parsed" where
  "parseNumber r =
     (let neg = (r \<noteq> [] \<and> hd r = 45);
          r1 = (if neg then tl r else r);
          digits = (if r1 \<noteq> [] \<and> hd r1 = 48 then [48] else takeWhile isDigit r1);
          r2 = drop (length digits) r1 in
      if digits = [] then Inl (InvalidNumber, length r1)
      else if r2 \<noteq> [] \<and> (hd r2 = 46 \<or> hd r2 = 101 \<or> hd r2 = 69) then Inl (NonInteger, length r2)
      else
        (let num = (if neg then - int (digitsValue digits) else int (digitsValue digits)) in
         if \<not> isSafeInteger num then Inl (UnsafeInteger, length r2) else Inr (JNum num, r2)))"

definition parseBool :: "jstr \<Rightarrow> json parsed" where
  "parseBool r =
     (if hasPrefix r (U ''true'') then Inr (JBool True, drop 4 r)
      else if hasPrefix r (U ''false'') then Inr (JBool False, drop 5 r)
      else Inl (InvalidLiteral, length r))"

definition parseNull :: "jstr \<Rightarrow> json parsed" where
  "parseNull r =
     (if hasPrefix r (U ''null'') then Inr (JNull, drop 4 r) else Inl (InvalidLiteral, length r))"

text \<open>
  The recursive descent. \<open>parseObjectBody\<close> and \<open>parseArrayBody\<close> are one turn of the two \<open>for (;;)\<close>
  loops, entered after the test for an empty object or array, with the members or elements collected
  so far; the recursive calls and the next turn are arguments, tied together by \<open>parseValue\<close>,
  \<open>parseObject\<close> and \<open>parseArray\<close> below.
\<close>

definition parseValueBody ::
  "(nat \<Rightarrow> (jstr \<times> json) list \<Rightarrow> jstr \<Rightarrow> json parsed) \<Rightarrow> (nat \<Rightarrow> json list \<Rightarrow> jstr \<Rightarrow> json parsed) \<Rightarrow>
   nat \<Rightarrow> nat \<Rightarrow> jstr \<Rightarrow> json parsed" where
  "parseValueBody object array maxDepth depth r =
     (if depth > maxDepth then Inl (DepthExceeded, length r)
      else case skipWs r of
        [] \<Rightarrow> Inl (UnexpectedEnd, 0)
      | c # r' \<Rightarrow>
          if c = 123 then
            (let r2 = skipWs r' in
             if r2 \<noteq> [] \<and> hd r2 = 125 then Inr (JObj [], tl r2) else object depth [] r2)
          else if c = 91 then
            (let r2 = skipWs r' in
             if r2 \<noteq> [] \<and> hd r2 = 93 then Inr (JArr [], tl r2) else array depth [] r2)
          else if c = 34 then bindS (parseString [] r') (\<lambda>(s, r2). Inr (JStr s, r2))
          else if c = 116 \<or> c = 102 then parseBool (c # r')
          else if c = 110 then parseNull (c # r')
          else if c = 45 \<or> isDigit c then parseNumber (c # r')
          else Inl (UnexpectedCharacter c, length (c # r')))"

definition parseObjectBody ::
  "(nat \<Rightarrow> jstr \<Rightarrow> json parsed) \<Rightarrow> (nat \<Rightarrow> (jstr \<times> json) list \<Rightarrow> jstr \<Rightarrow> json parsed) \<Rightarrow>
   nat \<Rightarrow> (jstr \<times> json) list \<Rightarrow> jstr \<Rightarrow> json parsed" where
  "parseObjectBody value next depth obj r =
     (let r1 = skipWs r in
      if r1 = [] \<or> hd r1 \<noteq> 34 then Inl (ExpectedKeyString, length r1)
      else bindS (parseString [] (tl r1)) (\<lambda>(key, r2).
        if isForbiddenKey key then Inl (ForbiddenKey key, length r2)
        else if key \<in> set (map fst obj) then Inl (DuplicateKey key, length r2)
        else
          (let r3 = skipWs r2 in
           if r3 = [] \<or> hd r3 \<noteq> 58 then Inl (ExpectedColon, length r3)
           else bindS (value (depth + 1) (tl r3)) (\<lambda>(val, r4).
             (let obj' = obj @ [(key, val)]; r5 = skipWs r4 in
              if r5 \<noteq> [] \<and> hd r5 = 44 then next depth obj' (tl r5)
              else if r5 \<noteq> [] \<and> hd r5 = 125 then Inr (JObj obj', tl r5)
              else Inl (ExpectedObjectSep, length r5))))))"

definition parseArrayBody ::
  "(nat \<Rightarrow> jstr \<Rightarrow> json parsed) \<Rightarrow> (nat \<Rightarrow> json list \<Rightarrow> jstr \<Rightarrow> json parsed) \<Rightarrow>
   nat \<Rightarrow> json list \<Rightarrow> jstr \<Rightarrow> json parsed" where
  "parseArrayBody value next depth arr r =
     bindS (value (depth + 1) r) (\<lambda>(val, r2).
       (let arr' = arr @ [val]; r3 = skipWs r2 in
        if r3 \<noteq> [] \<and> hd r3 = 44 then next depth arr' (tl r3)
        else if r3 \<noteq> [] \<and> hd r3 = 93 then Inr (JArr arr', tl r3)
        else Inl (ExpectedArraySep, length r3)))"

fun parseValue :: "nat \<Rightarrow> nat \<Rightarrow> nat \<Rightarrow> jstr \<Rightarrow> json parsed"
  and parseObject :: "nat \<Rightarrow> nat \<Rightarrow> nat \<Rightarrow> (jstr \<times> json) list \<Rightarrow> jstr \<Rightarrow> json parsed"
  and parseArray :: "nat \<Rightarrow> nat \<Rightarrow> nat \<Rightarrow> json list \<Rightarrow> jstr \<Rightarrow> json parsed" where
  "parseValue 0 maxDepth depth r = Inl (OutOfFuel, length r)"
| "parseValue (Suc f) maxDepth depth r =
     parseValueBody (parseObject f maxDepth) (parseArray f maxDepth) maxDepth depth r"
| "parseObject 0 maxDepth depth obj r = Inl (OutOfFuel, length r)"
| "parseObject (Suc f) maxDepth depth obj r =
     parseObjectBody (parseValue f maxDepth) (parseObject f maxDepth) depth obj r"
| "parseArray 0 maxDepth depth arr r = Inl (OutOfFuel, length r)"
| "parseArray (Suc f) maxDepth depth arr r =
     parseArrayBody (parseValue f maxDepth) (parseArray f maxDepth) depth arr r"

text \<open>A \<open>SafeJsonError\<close>: the message and the position.\<close>

type_synonym safe_json_error = "json_msg \<times> int"

definition safeParseWith :: "nat \<Rightarrow> int \<Rightarrow> jstr \<Rightarrow> safe_json_error + json" where
  "safeParseWith maxDepth maxLength text =
     (let n = int (length text) in
      if n > maxLength then Inl (InputTooLong, n)
      else case parseValue (Suc (length text + length text)) maxDepth 0 text of
        Inl (msg, left) \<Rightarrow> Inl (msg, n - int left)
      | Inr (v, r) \<Rightarrow>
          (let r' = skipWs r in if r' \<noteq> [] then Inl (TrailingCharacters, n - int (length r')) else Inr v))"

text \<open>The defaults \<open>maxDepth = 64\<close> and \<open>maxLength = 16 MiB\<close>.\<close>

definition safeParse :: "jstr \<Rightarrow> safe_json_error + json" where
  "safeParse text = safeParseWith 64 16777216 text"

section \<open>What the parser accepts\<close>

definition isUnit :: "int \<Rightarrow> bool" where
  "isUnit c \<longleftrightarrow> 0 \<le> c \<and> c \<le> 0xFFFF"

text \<open>
  The shape of a parsed document: strings of units \<open>Q\<close> with paired surrogates, safe integers, and
  objects with distinct keys none of which is forbidden.
\<close>

fun json_ok :: "(int \<Rightarrow> bool) \<Rightarrow> json \<Rightarrow> bool" where
  "json_ok Q (JNum n) = isSafeInteger n"
| "json_ok Q (JStr s) = (strIsWellFormed s \<and> list_all Q s)"
| "json_ok Q (JArr xs) = list_all (json_ok Q) xs"
| "json_ok Q (JObj m) = (distinct (map fst m) \<and>
     list_all (\<lambda>(k, v). \<not> isForbiddenKey k \<and> strIsWellFormed k \<and> list_all Q k \<and> json_ok Q v) m)"
| "json_ok Q _ = True"

text \<open>
  A result that did not run out of fuel and, when it is a value, satisfies \<open>P\<close> and leaves a strictly
  shorter rest, of the same units.
\<close>

definition good :: "(int \<Rightarrow> bool) \<Rightarrow> nat \<Rightarrow> ('a \<Rightarrow> bool) \<Rightarrow> 'a parsed \<Rightarrow> bool" where
  "good Q n P res = (case res of Inl (m, k) \<Rightarrow> m \<noteq> OutOfFuel \<and> k \<le> n | Inr (v, r) \<Rightarrow> length r < n \<and> list_all Q r \<and> P v)"

lemma good_Inl [simp]: "good Q n P (Inl (m, k)) \<longleftrightarrow> m \<noteq> OutOfFuel \<and> k \<le> n"
  by (simp add: good_def)

lemma good_Inr [simp]: "good Q n P (Inr (v, r)) \<longleftrightarrow> length r < n \<and> list_all Q r \<and> P v"
  by (simp add: good_def)

lemma good_bind:
  assumes "good Q n P res" "n \<le> m"
    and "\<And>v r. length r < n \<Longrightarrow> list_all Q r \<Longrightarrow> P v \<Longrightarrow> good Q m R (f (v, r))"
  shows "good Q m R (bindS res f)"
proof (cases res)
  case (Inl e)
  with assms(1,2) show ?thesis by (cases e) auto
next
  case (Inr p)
  with assms(1) assms(3) [of "snd p" "fst p"] show ?thesis by (cases p) auto
qed

lemma good_mono: "good Q n P res \<Longrightarrow> n \<le> m \<Longrightarrow> (\<And>v. P v \<Longrightarrow> R v) \<Longrightarrow> good Q m R res"
  by (auto simp: good_def split: sum.splits)

lemma skipWs_length: "length (skipWs r) \<le> length r"
  by (simp add: skipWs_def length_dropWhile_le)

lemma skipWs_units: "list_all Q r \<Longrightarrow> list_all Q (skipWs r)"
  by (auto simp: skipWs_def list_all_iff dest: set_dropWhileD)

lemma skipWs_idem [simp]: "skipWs (skipWs r) = skipWs r"
  by (simp add: skipWs_def)

lemma parseHex_unit:
  assumes "isHex4 h"
  shows "0 \<le> parseHex h" "parseHex h \<le> 0xFFFF"
proof -
  from assms have l: "length h = 4" and a: "list_all isAnyHex h" by (simp_all add: isHex4_iff)
  from l obtain a b c d where "h = [a, b, c, d]"
    by (auto simp: eval_nat_numeral length_Suc_conv)
  with a have "0 \<le> hexDigit x \<and> hexDigit x \<le> 15" if "x \<in> {a, b, c, d}" for x
    using that by (auto simp: hexDigit_def isAnyHex_def)
  then have "\<forall>x\<in>{a, b, c, d}. 0 \<le> hexDigit x \<and> hexDigit x \<le> 15" by blast
  then show "0 \<le> parseHex h" "parseHex h \<le> 0xFFFF"
    unfolding \<open>h = [a, b, c, d]\<close> parseHex_def by auto
qed

lemma simpleEscape_unit: "simpleEscape e = Some d \<Longrightarrow> isUnit d"
  by (auto simp: simpleEscape_def isUnit_def split: if_splits)

lemma parseString_good:
  assumes Q: "\<And>c. isUnit c \<Longrightarrow> Q c"
  shows "list_all Q out \<Longrightarrow> list_all Q r \<Longrightarrow>
    good Q (Suc (length r)) (\<lambda>s. strIsWellFormed s \<and> list_all Q s) (parseString out r)"
proof (induction out r rule: parseString.induct)
  case (2 out c r)
  show ?case
  proof (cases "c = 34 \<or> c \<noteq> 92")
    case True
    with 2 show ?thesis by (auto intro: good_mono)
  next
    case False
    then have c: "c = 92" by simp
    show ?thesis
    proof (cases r)
      case (Cons e r')
      show ?thesis
      proof (cases "simpleEscape e")
        case (Some d)
        with "2.IH" "2.prems" c Cons Q [OF simpleEscape_unit [OF Some]]
        have "good Q (Suc (length r')) (\<lambda>s. strIsWellFormed s \<and> list_all Q s) (parseString (out @ [d]) r')"
          by auto
        then show ?thesis using c Cons Some by (auto intro: good_mono)
      next
        case None
        show ?thesis
        proof (cases "e = 117 \<and> isHex4 (take 4 r')")
          case True
          then have "Q (parseHex (take 4 r'))" using parseHex_unit Q by (auto simp: isUnit_def)
          moreover have "list_all Q (drop 4 r')"
            using "2.prems" Cons by (auto simp: list_all_iff dest: in_set_dropD)
          ultimately have "good Q (Suc (length (drop 4 r'))) (\<lambda>s. strIsWellFormed s \<and> list_all Q s)
              (parseString (out @ [parseHex (take 4 r')]) (drop 4 r'))"
            using "2.IH" "2.prems" c Cons None True by auto
          then show ?thesis using c Cons None True by (auto intro: good_mono)
        qed (use c Cons None in auto)
      qed
    qed (use c in simp)
  qed
qed simp

lemma takeWhile_digits_ne: "c = 45 \<or> isDigit c \<Longrightarrow> c \<noteq> 45 \<Longrightarrow> takeWhile isDigit (c # r) \<noteq> []"
  by auto

lemma parseNumber_good:
  "list_all Q r \<Longrightarrow> r \<noteq> [] \<Longrightarrow> good Q (length r) (\<lambda>v. \<exists>n. v = JNum n \<and> isSafeInteger n) (parseNumber r)"
proof -
  assume Q: "list_all Q r" and ne: "r \<noteq> []"
  define r1 where "r1 = (if r \<noteq> [] \<and> hd r = 45 then tl r else r)"
  define digits where "digits = (if r1 \<noteq> [] \<and> hd r1 = 48 then [48] else takeWhile isDigit r1)"
  define r2 where "r2 = drop (length digits) r1"
  have l1: "length r1 \<le> length r" "list_all Q r1"
    using Q by (auto simp: r1_def list_all_iff dest: list.set_sel(2))
  have l2: "list_all Q r2" using l1(2) by (auto simp: r2_def list_all_iff dest: in_set_dropD)
  have "length digits \<le> length r1" by (auto simp: digits_def length_takeWhile_le Suc_le_eq)
  then have l3: "length r2 < length r" if "digits \<noteq> []" using that l1(1) by (cases digits) (auto simp: r2_def)
  have l4: "length r2 \<le> length r" using l1(1) by (simp add: r2_def)
  show ?thesis
    unfolding parseNumber_def Let_def r1_def [symmetric] digits_def [symmetric] r2_def [symmetric]
    using l1 l2 l3 l4 by auto
qed

lemma parseLiterals_good:
  assumes "list_all Q r"
  shows "good Q (length r) (json_ok Q) (parseBool r)" "good Q (length r) (json_ok Q) (parseNull r)"
    "good Q (length r) (\<lambda>v. jdepth v = 0) (parseBool r)" "good Q (length r) (\<lambda>v. jdepth v = 0) (parseNull r)"
  using assms by (auto simp: parseBool_def parseNull_def hasPrefix_iff list_all_iff dest: in_set_dropD)

definition value_ok :: "(int \<Rightarrow> bool) \<Rightarrow> nat \<Rightarrow> nat \<Rightarrow> json \<Rightarrow> bool" where
  "value_ok Q maxDepth depth v \<longleftrightarrow> json_ok Q v \<and> depth + jdepth v \<le> maxDepth"

definition members_ok :: "(int \<Rightarrow> bool) \<Rightarrow> nat \<Rightarrow> nat \<Rightarrow> (jstr \<times> json) list \<Rightarrow> bool" where
  "members_ok Q maxDepth depth obj \<longleftrightarrow> json_ok Q (JObj obj) \<and> (\<forall>(k, v)\<in>set obj. Suc depth + jdepth v \<le> maxDepth)"

definition elements_ok :: "(int \<Rightarrow> bool) \<Rightarrow> nat \<Rightarrow> nat \<Rightarrow> json list \<Rightarrow> bool" where
  "elements_ok Q maxDepth depth arr \<longleftrightarrow> (\<forall>v\<in>set arr. value_ok Q maxDepth (Suc depth) v)"

lemma members_ok_value: "members_ok Q D d obj \<Longrightarrow> obj \<noteq> [] \<Longrightarrow> value_ok Q D d (JObj obj)"
proof -
  assume ok: "members_ok Q D d obj" and ne: "obj \<noteq> []"
  then have "Max ((\<lambda>p. jdepth (snd p)) ` set obj) \<in> (\<lambda>p. jdepth (snd p)) ` set obj" by (intro Max_in) auto
  with ok have "Suc d + Max ((\<lambda>p. jdepth (snd p)) ` set obj) \<le> D" by (auto simp: members_ok_def)
  with ok ne show ?thesis by (simp add: members_ok_def value_ok_def)
qed

lemma elements_ok_value: "elements_ok Q D d arr \<Longrightarrow> arr \<noteq> [] \<Longrightarrow> value_ok Q D d (JArr arr)"
proof -
  assume ok: "elements_ok Q D d arr" and ne: "arr \<noteq> []"
  then have "Max (jdepth ` set arr) \<in> jdepth ` set arr" by (intro Max_in) auto
  with ok have "Suc d + Max (jdepth ` set arr) \<le> D" by (auto simp: elements_ok_def value_ok_def)
  with ok ne show ?thesis by (simp add: elements_ok_def value_ok_def list_all_iff)
qed

lemma members_ok_snoc:
  "members_ok Q D d obj \<Longrightarrow> \<not> isForbiddenKey k \<Longrightarrow> k \<notin> fst ` set obj \<Longrightarrow>
   strIsWellFormed k \<and> list_all Q k \<Longrightarrow> value_ok Q D (Suc d) v \<Longrightarrow> members_ok Q D d (obj @ [(k, v)])"
  by (auto simp: members_ok_def value_ok_def)

lemma elements_ok_snoc:
  "elements_ok Q D d arr \<Longrightarrow> value_ok Q D (Suc d) v \<Longrightarrow> elements_ok Q D d (arr @ [v])"
  by (auto simp: elements_ok_def)

lemma skipWs_tl:
  assumes "skipWs r = c # r'" "list_all Q r"
  shows "length r' < length r" "list_all Q r'"
  using skipWs_length [of r] skipWs_units [OF assms(2)] assms(1) by auto

lemma parseArrayBody_good:
  assumes val: "\<And>r'. length r' \<le> length r \<Longrightarrow> list_all Q r' \<Longrightarrow>
      good Q (length r') (value_ok Q D (Suc depth)) (value (Suc depth) r')"
    and nxt: "\<And>arr r'. length r' < length r \<Longrightarrow> list_all Q r' \<Longrightarrow> elements_ok Q D depth arr \<Longrightarrow>
      good Q (length r') (value_ok Q D depth) (next depth arr r')"
    and ok: "elements_ok Q D depth arr" "list_all Q r"
  shows "good Q (length r) (value_ok Q D depth) (parseArrayBody value next depth arr r)"
  unfolding parseArrayBody_def Suc_eq_plus1 [symmetric]
proof (rule good_bind [OF val [OF order_refl ok(2)] order_refl], goal_cases)
  case (1 v r2)
  note ok' = elements_ok_snoc [OF ok(1) 1(3)]
  show ?case
  proof (cases "skipWs r2")
    case Nil
    then show ?thesis by simp
  next
    case (Cons c r')
    note s = skipWs_tl [OF Cons 1(2)]
    have "length r' < length r" using s 1 by simp
    then show ?thesis
      using nxt [OF _ s(2) ok'] elements_ok_value [OF ok'] Cons s
      by (auto simp: Let_def intro: good_mono)
  qed
qed

lemma parseObjectBody_good:
  assumes Q: "\<And>c. isUnit c \<Longrightarrow> Q c"
    and val: "\<And>r'. length r' < length r \<Longrightarrow> list_all Q r' \<Longrightarrow>
      good Q (length r') (value_ok Q D (Suc depth)) (value (Suc depth) r')"
    and nxt: "\<And>obj r'. length r' < length r \<Longrightarrow> list_all Q r' \<Longrightarrow> members_ok Q D depth obj \<Longrightarrow>
      good Q (length r') (value_ok Q D depth) (next depth obj r')"
    and ok: "members_ok Q D depth obj" "list_all Q r"
  shows "good Q (length r) (value_ok Q D depth) (parseObjectBody value next depth obj r)"
proof (cases "skipWs r")
  case Nil
  then show ?thesis by (simp add: parseObjectBody_def)
next
  case (Cons c r1)
  note s1 = skipWs_tl [OF Cons ok(2)]
  have key: "good Q (Suc (length r1)) (\<lambda>s. strIsWellFormed s \<and> list_all Q s) (parseString [] r1)"
    using parseString_good [of Q "[]" r1] Q s1 by simp
  have after: "good Q (length r) (value_ok Q D depth)
      (bindS (value (Suc depth) r') (\<lambda>(val, r4). let obj' = obj @ [(key, val)]; r5 = skipWs r4 in
              if r5 \<noteq> [] \<and> hd r5 = 44 then next depth obj' (tl r5)
              else if r5 \<noteq> [] \<and> hd r5 = 125 then Inr (JObj obj', tl r5)
              else Inl (ExpectedObjectSep, length r5)))"
    if r': "length r' < length r" "list_all Q r'" and k: "strIsWellFormed key \<and> list_all Q key"
      "\<not> isForbiddenKey key" "key \<notin> fst ` set obj" for key r'
  proof (rule good_bind [OF val [OF r'] less_imp_le [OF r'(1)]], goal_cases)
    case (1 v r4)
    note ok' = members_ok_snoc [OF ok(1) k(2,3,1) 1(3)]
    show ?case
    proof (cases "skipWs r4")
      case Nil
      then show ?thesis by simp
    next
      case (Cons c r5)
      note s = skipWs_tl [OF Cons 1(2)]
      have "length r5 < length r" using s 1 r' by simp
      then show ?thesis
        using nxt [OF _ s(2) ok'] members_ok_value [OF ok'] Cons s
        by (auto simp: Let_def intro: good_mono)
    qed
  qed
  show ?thesis
  proof (cases "c = 34")
    case True
    have "parseObjectBody value next depth obj r = bindS (parseString [] r1) (\<lambda>(key, r2).
        if isForbiddenKey key then Inl (ForbiddenKey key, length r2)
        else if key \<in> set (map fst obj) then Inl (DuplicateKey key, length r2)
        else case skipWs r2 of [] \<Rightarrow> Inl (ExpectedColon, 0) | c # r3 \<Rightarrow>
           if c \<noteq> 58 then Inl (ExpectedColon, Suc (length r3))
           else bindS (value (Suc depth) r3) (\<lambda>(val, r4). let obj' = obj @ [(key, val)]; r5 = skipWs r4 in
              if r5 \<noteq> [] \<and> hd r5 = 44 then next depth obj' (tl r5)
              else if r5 \<noteq> [] \<and> hd r5 = 125 then Inr (JObj obj', tl r5)
              else Inl (ExpectedObjectSep, length r5)))"
      unfolding parseObjectBody_def Cons True Let_def
      by (auto intro!: arg_cong [of _ _ "bindS (parseString [] r1)"] split: list.splits)
    also have "good Q (length r) (value_ok Q D depth) \<dots>"
    proof (rule good_bind [OF key], use s1 in simp, goal_cases)
      case (1 key r2)
      show ?case
      proof (cases "skipWs r2")
        case Nil
        with 1 s1 show ?thesis by simp
      next
        case (Cons c' r3)
        note s3 = skipWs_tl [OF Cons 1(2)]
        have l: "length r3 < length r" "length r2 \<le> length r" using s3 1 s1 by simp_all
        show ?thesis using Cons l 1 after [OF l(1) s3(2) 1(3)] s3 by simp
      qed
    qed
    finally show ?thesis .
  next
    case False
    with s1 show ?thesis unfolding parseObjectBody_def Cons by simp
  qed
qed

lemma parseValueBody_good:
  assumes Q: "\<And>c. isUnit c \<Longrightarrow> Q c"
    and obj: "\<And>r'. length r' < length r \<Longrightarrow> list_all Q r' \<Longrightarrow> good Q (length r') (value_ok Q D depth) (object depth [] r')"
    and arr: "\<And>r'. length r' < length r \<Longrightarrow> list_all Q r' \<Longrightarrow> good Q (length r') (value_ok Q D depth) (array depth [] r')"
    and r: "list_all Q r"
  shows "good Q (length r) (value_ok Q D depth) (parseValueBody object array D depth r)"
proof (cases "depth > D \<or> skipWs r = []")
  case True
  then show ?thesis by (auto simp: parseValueBody_def)
next
  case False
  then obtain c r' where s: "skipWs r = c # r'" and d: "depth \<le> D" by (cases "skipWs r") auto
  note s' = skipWs_tl [OF s r] and l = skipWs_length [of r'] skipWs_units [OF skipWs_tl(2) [OF s r]]
  have cr: "list_all Q (c # r')" "length (c # r') \<le> length r"
    using skipWs_units [OF r] skipWs_length [of r] s by auto
  have str: "good Q (length r) (value_ok Q D depth) (bindS (parseString [] r') (\<lambda>(s, r2). Inr (JStr s, r2)))"
    by (rule good_bind [OF parseString_good [of Q "[]" r']]) (use Q s' d in \<open>auto simp: value_ok_def\<close>)
  have len: "length (skipWs r') < length r" using l s' by simp
  note rec_obj = good_mono [OF obj [OF len l(2)] less_imp_le [OF len]]
    and rec_arr = good_mono [OF arr [OF len l(2)] less_imp_le [OF len]]
  have open_obj: "good Q (length r) (value_ok Q D depth)
      (let r2 = skipWs r' in if r2 \<noteq> [] \<and> hd r2 = 125 then Inr (JObj [], tl r2) else object depth [] r2)"
    using rec_obj [of "value_ok Q D depth"] l s' d
    by (cases "skipWs r'") (auto simp: Let_def value_ok_def [of Q D depth "JObj []"])
  have open_arr: "good Q (length r) (value_ok Q D depth)
      (let r2 = skipWs r' in if r2 \<noteq> [] \<and> hd r2 = 93 then Inr (JArr [], tl r2) else array depth [] r2)"
    using rec_arr [of "value_ok Q D depth"] l s' d
    by (cases "skipWs r'") (auto simp: Let_def value_ok_def [of Q D depth "JArr []"])
  have "good Q (length (c # r')) (value_ok Q D depth) (parseNumber (c # r'))"
    using parseNumber_good [OF cr(1)] d by (auto simp: value_ok_def elim!: good_mono)
  moreover have "good Q (length (c # r')) (value_ok Q D depth) (parseBool (c # r'))"
    "good Q (length (c # r')) (value_ok Q D depth) (parseNull (c # r'))"
    using parseLiterals_good [OF cr(1)] d by (auto simp: good_def value_ok_def split: sum.splits)
  ultimately show ?thesis
    unfolding parseValueBody_def s using d str open_obj open_arr cr by (auto intro: good_mono)
qed

lemma parser_good:
  assumes Q: "\<And>c. isUnit c \<Longrightarrow> Q c"
  shows "2 * length r < f \<Longrightarrow> list_all Q r \<Longrightarrow> good Q (length r) (value_ok Q D d) (parseValue f D d r)"
    and "2 * length r < f \<Longrightarrow> list_all Q r \<Longrightarrow> members_ok Q D d obj \<Longrightarrow>
      good Q (length r) (value_ok Q D d) (parseObject f D d obj r)"
    and "Suc (2 * length r) < f \<Longrightarrow> list_all Q r \<Longrightarrow> elements_ok Q D d arr \<Longrightarrow>
      good Q (length r) (value_ok Q D d) (parseArray f D d arr r)"
proof (induction f arbitrary: r d obj arr)
  case (Suc f)
  { case 1
    show ?case unfolding parseValue.simps
      by (rule parseValueBody_good [OF Q])
        (use 1 Suc.IH(2,3) in \<open>auto simp: members_ok_def elements_ok_def\<close>)
  next
    case 2
    show ?case unfolding parseObject.simps
      by (rule parseObjectBody_good [OF Q]) (use 2 Suc.IH(1,2) in auto)
  next
    case 3
    show ?case unfolding parseArray.simps
      by (rule parseArrayBody_good) (use 3 Suc.IH(1,3) in auto)
  }
qed auto

lemma safeParse_Inr:
  assumes Q: "\<And>c. isUnit c \<Longrightarrow> Q c" and t: "list_all Q t" and p: "safeParseWith D L t = Inr v"
  shows "json_ok Q v" "jdepth v \<le> D" "int (length t) \<le> L"
proof -
  from p obtain r where "parseValue (Suc (length t + length t)) D 0 t = Inr (v, r)" "int (length t) \<le> L"
    by (auto simp: safeParseWith_def Let_def split: if_splits sum.splits)
  then show "json_ok Q v" "jdepth v \<le> D" "int (length t) \<le> L"
    using parser_good(1) [of Q t "Suc (length t + length t)" D 0] Q t by (auto simp: value_ok_def)
qed

lemma safeParse_Inl:
  assumes "safeParseWith D L t = Inl (msg, pos)"
  shows "msg \<noteq> OutOfFuel" "0 \<le> pos" "pos \<le> int (length t)"
proof -
  have g: "good (\<lambda>_. True) (length t) (value_ok (\<lambda>_. True) D 0) (parseValue (Suc (length t + length t)) D 0 t)"
    by (rule parser_good(1)) (simp_all add: list_all_iff)
  have "length (skipWs r) \<le> length t" if "length r < length t" for r
    using skipWs_length [of r] that by linarith
  with g assms show "msg \<noteq> OutOfFuel" "0 \<le> pos" "pos \<le> int (length t)"
    by (auto simp: safeParseWith_def Let_def split: if_splits sum.splits prod.splits)
qed

section \<open>Properties\<close>

text \<open>
  (C20) The parser is total: on every text it returns a value or one of its own errors (the recursion
  never runs out of fuel), and the position of an error lies within the text.
\<close>

theorem safeParse_total:
  "case safeParse t of Inr v \<Rightarrow> True | Inl (msg, pos) \<Rightarrow> msg \<noteq> OutOfFuel \<and> 0 \<le> pos \<and> pos \<le> int (length t)"
  using safeParse_Inl [of 64 16777216 t] by (simp add: safeParse_def split: sum.splits)

text \<open>
  (C19) Whatever the parser accepts is safe to reason about: no object repeats a key or carries
  \<open>__proto__\<close>, \<open>prototype\<close> or \<open>constructor\<close>, every number is a safe integer, every string and key has
  its surrogates paired, nesting is at most 64 deep, and the text was at most 16 MiB long.
\<close>

theorem safeParse_accepts_only_safe_documents:
  "safeParse t = Inr v \<Longrightarrow> json_ok (\<lambda>_. True) v \<and> jdepth v \<le> 64 \<and> int (length t) \<le> 16777216"
  using safeParse_Inr [of "\<lambda>_. True" t 64 16777216 v] by (simp add: safeParse_def list_all_iff)

theorem safeParse_accepts_only_safe_documents_witness:
  "safeParse (U ''{\"a\":[1,true]}'') = Inr (JObj [(U ''a'', JArr [JNum 1, JBool True])]) \<and>
   json_ok (\<lambda>_. True) (JObj [(U ''a'', JArr [JNum 1, JBool True])])"
proof -
  have p: "safeParse (U ''{\"a\":[1,true]}'') = Inr (JObj [(U ''a'', JArr [JNum 1, JBool True])])"
    by code_simp
  show ?thesis using p safeParse_accepts_only_safe_documents [OF p] by blast
qed

end
