(* ===== verification/Bytes.thy ===== *)
theory Bytes
  imports Safe_Json
begin

text \<open>
  The byte boundary of src/src/bytes.ts: the UTF-8 length scan, the bounded and fatal decode of one
  document, and decode-then-parse. \<open>utf8Decode\<close> is \<open>TextDecoder("utf-8", fatal, ignoreBOM)\<close> and
  \<open>utf8Encode\<close> the encoder \<open>Buffer.from(s, "utf8")\<close> (an unpaired surrogate becomes U+FFFD). The
  lemmas show that the decoder accepts exactly the encodings of well-formed strings, that the length
  scan is the length of the encoding, and hence that the text and the byte entry agree.
\<close>

section \<open>UTF-8\<close>

text \<open>The encoding of one code point that is not a surrogate.\<close>

definition encodePoint :: "int \<Rightarrow> int list" where
  "encodePoint c =
     (if c < 0x80 then [c]
      else if c < 0x800 then [0xC0 + c div 64, 0x80 + c mod 64]
      else if c < 0x10000 then [0xE0 + c div 4096, 0x80 + c div 64 mod 64, 0x80 + c mod 64]
      else [0xF0 + c div 262144, 0x80 + c div 4096 mod 64, 0x80 + c div 64 mod 64, 0x80 + c mod 64])"

definition pairPoint :: "int \<Rightarrow> int \<Rightarrow> int" where
  "pairPoint hi lo = 0x10000 + (hi - 0xD800) * 1024 + (lo - 0xDC00)"

fun utf8Units :: "jstr \<Rightarrow> int list" where
  "utf8Units [] = []"
| "utf8Units (c # s) =
     (if isHighSurrogate c \<and> s \<noteq> [] \<and> isLowSurrogate (hd s)
      then encodePoint (pairPoint c (hd s)) @ utf8Units (tl s)
      else if isHighSurrogate c \<or> isLowSurrogate c then encodePoint 0xFFFD @ utf8Units s
      else encodePoint c @ utf8Units s)"

definition utf8Encode :: "jstr \<Rightarrow> byte list" where
  "utf8Encode s = map word_of_int (utf8Units s)"

definition isCont :: "int \<Rightarrow> bool" where
  "isCont b \<longleftrightarrow> 0x80 \<le> b \<and> b \<le> 0xBF"

definition unitsOf :: "int \<Rightarrow> jstr" where
  "unitsOf c = (if c < 0x10000 then [c] else [0xD800 + (c - 0x10000) div 1024, 0xDC00 + (c - 0x10000) mod 1024])"

text \<open>
  The fatal decoder: a lead byte, the number of continuation bytes it announces, and a refusal of
  overlong forms, surrogates and values above U+10FFFF.
\<close>

fun decodeUnits :: "int list \<Rightarrow> jstr option" where
  "decodeUnits [] = Some []"
| "decodeUnits (b # bs) =
     (if b < 0x80 then map_option ((@) [b]) (decodeUnits bs)
      else if b < 0xC0 then None
      else if b < 0xE0 then
        (case bs of
           c1 # bs' \<Rightarrow>
             (let v = (b - 0xC0) * 64 + (c1 - 0x80) in
              if isCont c1 \<and> 0x80 \<le> v then map_option ((@) (unitsOf v)) (decodeUnits bs') else None)
         | _ \<Rightarrow> None)
      else if b < 0xF0 then
        (case bs of
           c1 # c2 # bs' \<Rightarrow>
             (let v = (b - 0xE0) * 4096 + (c1 - 0x80) * 64 + (c2 - 0x80) in
              if isCont c1 \<and> isCont c2 \<and> 0x800 \<le> v \<and> \<not> (0xD800 \<le> v \<and> v \<le> 0xDFFF)
              then map_option ((@) (unitsOf v)) (decodeUnits bs') else None)
         | _ \<Rightarrow> None)
      else
        (case bs of
           c1 # c2 # c3 # bs' \<Rightarrow>
             (let v = (b - 0xF0) * 262144 + (c1 - 0x80) * 4096 + (c2 - 0x80) * 64 + (c3 - 0x80) in
              if isCont c1 \<and> isCont c2 \<and> isCont c3 \<and> 0x10000 \<le> v \<and> v \<le> 0x10FFFF
              then map_option ((@) (unitsOf v)) (decodeUnits bs') else None)
         | _ \<Rightarrow> None))"

definition utf8Decode :: "byte list \<Rightarrow> jstr option" where
  "utf8Decode bs = decodeUnits (map uint bs)"

section \<open>The document boundary\<close>

definition MAX_INPUT_BYTES :: int where
  "MAX_INPUT_BYTES = 16777216"

text \<open>
  A value handed to the boundary: a string, the content of a \<open>Uint8Array\<close>, or anything else.
\<close>

datatype input = Text jstr | ByteArray "byte list" | OtherValue

definition isUint8Array :: "input \<Rightarrow> bool" where
  "isUint8Array v = (case v of ByteArray _ \<Rightarrow> True | _ \<Rightarrow> False)"

fun utf8LengthFrom :: "int \<Rightarrow> jstr \<Rightarrow> int" where
  "utf8LengthFrom acc [] = acc"
| "utf8LengthFrom acc (c # s) =
     (if c < 0x80 then (if acc + 1 > MAX_INPUT_BYTES then acc + 1 else utf8LengthFrom (acc + 1) s)
      else if c < 0x800 then (if acc + 2 > MAX_INPUT_BYTES then acc + 2 else utf8LengthFrom (acc + 2) s)
      else if isHighSurrogate c then
        (case s of
           [] \<Rightarrow> -1
         | d # s' \<Rightarrow>
             if \<not> isLowSurrogate d then -1
             else if acc + 4 > MAX_INPUT_BYTES then acc + 4 else utf8LengthFrom (acc + 4) s')
      else if isLowSurrogate c then -1
      else if acc + 3 > MAX_INPUT_BYTES then acc + 3 else utf8LengthFrom (acc + 3) s)"

definition utf8Length :: "jstr \<Rightarrow> int" where
  "utf8Length text = utf8LengthFrom 0 text"

text \<open>The reasons the boundary gives; \<open>ParseError\<close> carries the parser's message and position.\<close>

datatype doc_reason = IllFormedText | TooManyBytes | NotBytesOrString | InvalidUtf8 | ParseError json_msg int
  | NotOriginalBytes

definition decodeDocument :: "input \<Rightarrow> doc_reason + jstr" where
  "decodeDocument v =
     (case v of
        Text s \<Rightarrow>
          (let len = utf8Length s in
           if len < 0 then Inl IllFormedText
           else if len > MAX_INPUT_BYTES then Inl TooManyBytes
           else Inr s)
      | ByteArray bs \<Rightarrow>
          if int (length bs) > MAX_INPUT_BYTES then Inl TooManyBytes
          else (case utf8Decode bs of None \<Rightarrow> Inl InvalidUtf8 | Some text \<Rightarrow> Inr text)
      | OtherValue \<Rightarrow> Inl NotBytesOrString)"

definition parseDecodedText :: "jstr \<Rightarrow> doc_reason + json" where
  "parseDecodedText text =
     (case safeParseWith 64 MAX_INPUT_BYTES text of
        Inl (msg, pos) \<Rightarrow> Inl (ParseError msg pos) | Inr v \<Rightarrow> Inr v)"

definition parseDocument :: "input \<Rightarrow> doc_reason + json" where
  "parseDocument v = bindS (decodeDocument v) parseDecodedText"

definition parseDocumentBytes :: "input \<Rightarrow> doc_reason + json \<times> jstr" where
  "parseDocumentBytes v =
     (if \<not> isUint8Array v then Inl NotOriginalBytes
      else bindS (decodeDocument v) (\<lambda>text. bindS (parseDecodedText text) (\<lambda>value. Inr (value, text))))"

section \<open>The decoder accepts exactly the encodings\<close>

lemma radix_div_mod: "0 \<le> r \<Longrightarrow> r < b \<Longrightarrow> (x * b + r) div b = x \<and> (x * b + r) mod b = r" for r b x :: int
  by (simp add: div_pos_pos_trivial)

definition isScalar :: "int \<Rightarrow> bool" where
  "isScalar c \<longleftrightarrow> 0 \<le> c \<and> c \<le> 0x10FFFF \<and> \<not> (0xD800 \<le> c \<and> c \<le> 0xDFFF)"

lemma cont_bounds: "0 \<le> c mod 64" "c mod 64 \<le> (63 :: int)"
  using pos_mod_bound [of 64 c] by simp_all

lemma radix64_digits:
  fixes c :: int
  shows "c div 4096 * 4096 + (c div 64 mod 64 * 64 + c mod 64) = c" (is ?three)
    and "c div 262144 * 262144 + (c div 4096 mod 64 * 4096 + (c div 64 mod 64 * 64 + c mod 64)) = c" (is ?four)
proof -
  have split: "x = x div 64 * 64 + x mod 64" for x :: int by simp
  have d: "c div 64 div 64 = c div 4096" "c div 4096 div 64 = c div 262144"
    using zdiv_zmult2_eq [of 64 c 64] zdiv_zmult2_eq [of 64 c 4096] by simp_all
  have lin: "c = q * 64 + a \<Longrightarrow> q = r * 64 + b \<Longrightarrow> r * 4096 + (b * 64 + a) = c"
    "c = q * 64 + a \<Longrightarrow> q = r * 64 + b \<Longrightarrow> r = t * 64 + e \<Longrightarrow> t * 262144 + (e * 4096 + (b * 64 + a)) = c"
    for a b e q r t :: int by simp_all
  show ?three by (rule lin(1) [OF split [of c] split [of "c div 64", unfolded d]])
  show ?four by (rule lin(2) [OF split [of c] split [of "c div 64", unfolded d] split [of "c div 4096", unfolded d]])
qed

lemma decode_two:
  "\<lbrakk>2 \<le> x; x < 32; 0 \<le> y; y \<le> 63; x * 64 + y = v\<rbrakk> \<Longrightarrow>
   decodeUnits ((0xC0 + x) # (0x80 + y) # bs) = map_option ((@) (unitsOf v)) (decodeUnits bs)"
  by (simp add: isCont_def Let_def)

lemma decode_three:
  "\<lbrakk>0 \<le> x; x < 16; 0 \<le> y; y \<le> 63; 0 \<le> z; z \<le> 63; x * 4096 + (y * 64 + z) = v; 0x800 \<le> v; isScalar v\<rbrakk> \<Longrightarrow>
   decodeUnits ((0xE0 + x) # (0x80 + y) # (0x80 + z) # bs) = map_option ((@) (unitsOf v)) (decodeUnits bs)"
  by (auto simp: isCont_def Let_def isScalar_def add.assoc)

lemma decode_four:
  "\<lbrakk>0 \<le> x; 0 \<le> y; y \<le> 63; 0 \<le> z; z \<le> 63; 0 \<le> w; w \<le> 63; x * 262144 + (y * 4096 + (z * 64 + w)) = v;
    0x10000 \<le> v; isScalar v\<rbrakk> \<Longrightarrow>
   decodeUnits ((0xF0 + x) # (0x80 + y) # (0x80 + z) # (0x80 + w) # bs) = map_option ((@) (unitsOf v)) (decodeUnits bs)"
  by (simp add: isCont_def Let_def isScalar_def)

lemma decode_encodePoint:
  assumes "isScalar c"
  shows "decodeUnits (encodePoint c @ bs) = map_option ((@) (unitsOf c)) (decodeUnits bs)"
proof -
  from assms have c: "0 \<le> c" "c \<le> 0x10FFFF" by (simp_all add: isScalar_def)
  consider (1) "c < 0x80" | (2) "0x80 \<le> c" "c < 0x800" | (3) "0x800 \<le> c" "c < 0x10000" | (4) "0x10000 \<le> c"
    by linarith
  then show ?thesis
  proof cases
    case 1
    with c show ?thesis by (simp add: encodePoint_def unitsOf_def)
  next
    case 2
    have e: "encodePoint c @ bs = (0xC0 + c div 64) # (0x80 + c mod 64) # bs" using 2 by (simp add: encodePoint_def)
    have b: "2 \<le> c div 64" "c div 64 < 32" using 2 by linarith+
    show ?thesis unfolding e by (rule decode_two [OF b cont_bounds div_mult_mod_eq])
  next
    case 3
    have e: "encodePoint c @ bs = (0xE0 + c div 4096) # (0x80 + c div 64 mod 64) # (0x80 + c mod 64) # bs"
      using 3 by (simp add: encodePoint_def)
    have b: "0 \<le> c div 4096" "c div 4096 < 16" using 3 by linarith+
    show ?thesis unfolding e
      by (rule decode_three [OF b cont_bounds cont_bounds radix64_digits(1) 3(1) assms])
  next
    case 4
    have e: "encodePoint c @ bs =
        (0xF0 + c div 262144) # (0x80 + c div 4096 mod 64) # (0x80 + c div 64 mod 64) # (0x80 + c mod 64) # bs"
      using 4 by (simp add: encodePoint_def)
    have b: "0 \<le> c div 262144" using c by simp
    show ?thesis unfolding e
      by (rule decode_four [OF b cont_bounds cont_bounds cont_bounds radix64_digits(2) 4 assms])
  qed
qed

lemma unitsOf_pairPoint: "isHighSurrogate hi \<Longrightarrow> isLowSurrogate lo \<Longrightarrow> unitsOf (pairPoint hi lo) = [hi, lo]"
proof -
  assume a: "isHighSurrogate hi" "isLowSurrogate lo"
  have "pairPoint hi lo - 0x10000 = (hi - 0xD800) * 1024 + (lo - 0xDC00)" by (simp add: pairPoint_def)
  moreover have "0 \<le> lo - 0xDC00" "lo - 0xDC00 < 1024" using a(2) by (simp_all add: isLowSurrogate_def)
  ultimately have "(pairPoint hi lo - 0x10000) div 1024 = hi - 0xD800" "(pairPoint hi lo - 0x10000) mod 1024 = lo - 0xDC00"
    using radix_div_mod [of "lo - 0xDC00" 1024 "hi - 0xD800"] by metis+
  then show ?thesis using a by (simp add: unitsOf_def) (simp add: pairPoint_def isHighSurrogate_def isLowSurrogate_def)
qed

lemma pairPoint_scalar: "isHighSurrogate hi \<Longrightarrow> isLowSurrogate lo \<Longrightarrow> isScalar (pairPoint hi lo)"
  by (auto simp: isScalar_def pairPoint_def isHighSurrogate_def isLowSurrogate_def)

lemma unit_scalar: "isUnit c \<Longrightarrow> \<not> isHighSurrogate c \<Longrightarrow> \<not> isLowSurrogate c \<Longrightarrow> isScalar c \<and> unitsOf c = [c]"
  by (auto simp: isUnit_def isScalar_def isHighSurrogate_def isLowSurrogate_def unitsOf_def)

lemma decode_encode:
  "strIsWellFormed s \<Longrightarrow> list_all isUnit s \<Longrightarrow> decodeUnits (utf8Units s) = Some s"
proof (induction s rule: utf8Units.induct)
  case (2 c s)
  show ?case
  proof (cases "isHighSurrogate c")
    case True
    with "2.prems" obtain d s' where s: "s = d # s'" "isLowSurrogate d" by (auto split: list.splits)
    with True 2 show ?thesis
      by (simp add: decode_encodePoint pairPoint_scalar unitsOf_pairPoint)
  next
    case False
    with 2 show ?thesis using unit_scalar [of c] by (simp add: decode_encodePoint)
  qed
qed simp

lemma utf8Units_unitsOf:
  assumes "isScalar v"
  shows "utf8Units (unitsOf v @ s) = encodePoint v @ utf8Units s"
    "strIsWellFormed (unitsOf v @ s) = strIsWellFormed s" "list_all isUnit (unitsOf v)"
proof -
  have "\<exists>hi lo. unitsOf v = [hi, lo] \<and> isHighSurrogate hi \<and> isLowSurrogate lo \<and> isUnit hi \<and> isUnit lo \<and> pairPoint hi lo = v"
    if "0x10000 \<le> v"
  proof -
    have "0 \<le> (v - 0x10000) div 1024" "(v - 0x10000) div 1024 \<le> 1023"
      "0 \<le> (v - 0x10000) mod 1024" "(v - 0x10000) mod 1024 \<le> 1023"
      using that assms pos_mod_bound [of 1024 "v - 0x10000"] unfolding isScalar_def by simp_all
    then show ?thesis using that
      by (simp add: unitsOf_def isHighSurrogate_def isLowSurrogate_def isUnit_def pairPoint_def)
  qed
  then consider hi lo where "unitsOf v = [hi, lo]" "isHighSurrogate hi" "isLowSurrogate lo" "isUnit hi" "isUnit lo"
      "pairPoint hi lo = v"
    | "unitsOf v = [v]" "\<not> isHighSurrogate v" "\<not> isLowSurrogate v" "isUnit v"
    using assms unfolding isScalar_def isUnit_def isHighSurrogate_def isLowSurrogate_def unitsOf_def
    by (cases "0x10000 \<le> v") auto
  then show "utf8Units (unitsOf v @ s) = encodePoint v @ utf8Units s"
    "strIsWellFormed (unitsOf v @ s) = strIsWellFormed s" "list_all isUnit (unitsOf v)"
    by (cases; simp)+
qed


lemma radix64:
  "isCont y \<Longrightarrow> (x * 64 + (y - 0x80)) div 64 = x" "isCont y \<Longrightarrow> (x * 64 + (y - 0x80)) mod 64 = y - 0x80"
  using radix_div_mod [of "y - 0x80" 64 x] by (simp_all add: isCont_def)

lemma encodePoint_two:
  assumes "0xC0 \<le> b" "b < 0xE0" "isCont c1" and v: "v = (b - 0xC0) * 64 + (c1 - 0x80)" "0x80 \<le> v"
  shows "encodePoint v = [b, c1]"
proof -
  have "v div 64 = b - 0xC0" "v mod 64 = c1 - 0x80" unfolding v(1) by (rule radix64 [OF assms(3)])+
  moreover have "v < 0x800" using assms by (simp add: isCont_def)
  ultimately show ?thesis using v(2) by (simp add: encodePoint_def)
qed

lemma div_64_64: "v div 4096 = v div 64 div 64" "v div 262144 = v div 4096 div 64" for v :: int
  using zdiv_zmult2_eq [of 64 v 64] zdiv_zmult2_eq [of 64 v 4096] by simp_all

lemma encodePoint_three:
  assumes "0xE0 \<le> b" "b < 0xF0" "isCont c1" "isCont c2"
    and v: "v = (b - 0xE0) * 4096 + (c1 - 0x80) * 64 + (c2 - 0x80)" "0x800 \<le> v"
  shows "encodePoint v = [b, c1, c2]"
proof -
  have w: "v = ((b - 0xE0) * 64 + (c1 - 0x80)) * 64 + (c2 - 0x80)" using v(1) by simp
  have d1: "v div 64 = (b - 0xE0) * 64 + (c1 - 0x80)" and d2: "v mod 64 = c2 - 0x80"
    unfolding w by (rule radix64 [OF assms(4)])+
  have d3: "v div 4096 = b - 0xE0" and d4: "v div 64 mod 64 = c1 - 0x80"
    unfolding div_64_64(1) d1 by (rule radix64 [OF assms(3)])+
  have "v < 0x10000" using assms by (simp add: isCont_def)
  with v(2) show ?thesis unfolding encodePoint_def d2 d3 d4 by simp
qed

lemma encodePoint_four:
  assumes "isCont c1" "isCont c2" "isCont c3"
    and v: "v = (b - 0xF0) * 262144 + (c1 - 0x80) * 4096 + (c2 - 0x80) * 64 + (c3 - 0x80)" "0x10000 \<le> v"
  shows "encodePoint v = [b, c1, c2, c3]"
proof -
  have w: "v = (((b - 0xF0) * 64 + (c1 - 0x80)) * 64 + (c2 - 0x80)) * 64 + (c3 - 0x80)" using v(1) by simp
  have d1: "v div 64 = ((b - 0xF0) * 64 + (c1 - 0x80)) * 64 + (c2 - 0x80)" and d2: "v mod 64 = c3 - 0x80"
    unfolding w by (rule radix64 [OF assms(3)])+
  have d3: "v div 4096 = (b - 0xF0) * 64 + (c1 - 0x80)" and d4: "v div 64 mod 64 = c2 - 0x80"
    unfolding div_64_64(1) d1 by (rule radix64 [OF assms(2)])+
  have d5: "v div 262144 = b - 0xF0" and d6: "v div 4096 mod 64 = c1 - 0x80"
    unfolding div_64_64(2) d3 by (rule radix64 [OF assms(1)])+
  show ?thesis using v(2) unfolding encodePoint_def d2 d4 d5 d6 by simp
qed

lemma decodeUnits_Cons_cases:
  assumes "decodeUnits (b # bs) = Some s"
  obtains (one) "b < 0x80" "map_option ((@) [b]) (decodeUnits bs) = Some s"
  | (two) c1 bs' v where "0xC0 \<le> b" "b < 0xE0" "bs = c1 # bs'" "isCont c1" "v = (b - 0xC0) * 64 + (c1 - 0x80)"
      "0x80 \<le> v" "map_option ((@) (unitsOf v)) (decodeUnits bs') = Some s"
  | (three) c1 c2 bs' v where "0xE0 \<le> b" "b < 0xF0" "bs = c1 # c2 # bs'" "isCont c1" "isCont c2"
      "v = (b - 0xE0) * 4096 + (c1 - 0x80) * 64 + (c2 - 0x80)" "0x800 \<le> v" "\<not> (0xD800 \<le> v \<and> v \<le> 0xDFFF)"
      "map_option ((@) (unitsOf v)) (decodeUnits bs') = Some s"
  | (four) c1 c2 c3 bs' v where "bs = c1 # c2 # c3 # bs'" "isCont c1" "isCont c2" "isCont c3"
      "v = (b - 0xF0) * 262144 + (c1 - 0x80) * 4096 + (c2 - 0x80) * 64 + (c3 - 0x80)" "0x10000 \<le> v" "v \<le> 0x10FFFF"
      "map_option ((@) (unitsOf v)) (decodeUnits bs') = Some s"
proof -
  consider (1) "b < 0x80" | (2) "0xC0 \<le> b" "b < 0xE0" | (3) "0xE0 \<le> b" "b < 0xF0" | (4) "0xF0 \<le> b"
    using assms by (auto split: if_splits)
  then show thesis
  proof cases
    case 1
    with assms one show thesis by simp
  next
    case 2
    with assms obtain c1 bs' where bs: "bs = c1 # bs'" by (auto split: list.splits)
    from assms show thesis
      unfolding bs decodeUnits.simps list.case Let_def using 2 by (intro two [OF 2 bs]) (auto split: if_splits)
  next
    case 3
    with assms obtain c1 c2 bs' where bs: "bs = c1 # c2 # bs'" by (auto split: list.splits)
    from assms show thesis
      unfolding bs decodeUnits.simps list.case Let_def using 3 by (intro three [OF 3 bs]) (auto split: if_splits)
  next
    case 4
    with assms obtain c1 c2 c3 bs' where bs: "bs = c1 # c2 # c3 # bs'" by (auto split: list.splits)
    from assms show thesis
      unfolding bs decodeUnits.simps list.case Let_def using 4 by (intro four [OF bs]) (auto split: if_splits)
  qed
qed

lemma encode_decode:
  "decodeUnits bs = Some s \<Longrightarrow> list_all (\<lambda>b. 0 \<le> b) bs \<Longrightarrow>
   utf8Units s = bs \<and> strIsWellFormed s \<and> list_all isUnit s"
proof (induction bs arbitrary: s rule: length_induct)
  case (1 bs)
  have step: "utf8Units s = encodePoint v @ bs' \<and> strIsWellFormed s \<and> list_all isUnit s"
    if v: "isScalar v" and d: "map_option ((@) (unitsOf v)) (decodeUnits bs') = Some s"
      and b: "length bs' < length bs" "list_all (\<lambda>b. 0 \<le> b) bs'" for v bs'
  proof -
    from d obtain t where t: "decodeUnits bs' = Some t" "s = unitsOf v @ t" by auto
    with 1 b have "utf8Units t = bs'" "strIsWellFormed t" "list_all isUnit t" by blast+
    with t(2) utf8Units_unitsOf [OF v] show ?thesis by simp
  qed
  show ?case
  proof (cases bs)
    case Nil
    with "1.prems" show ?thesis by simp
  next
    case (Cons b bs1)
    from "1.prems"(1) [unfolded Cons] show ?thesis
    proof (cases rule: decodeUnits_Cons_cases)
      case one
      then have "isScalar b" "unitsOf b = [b]" "encodePoint b = [b]" using "1.prems"(2) Cons
        by (simp_all add: isScalar_def unitsOf_def encodePoint_def)
      with one step [of b bs1] "1.prems"(2) Cons show ?thesis by simp
    next
      case (two c1 bs' v)
      then have "isScalar v" by (simp add: isScalar_def isCont_def)
      from step [OF this two(7)] encodePoint_two [OF two(1,2,4-6)] two(3) "1.prems"(2) Cons
      show ?thesis by simp
    next
      case (three c1 c2 bs' v)
      then have "isScalar v" by (simp add: isScalar_def isCont_def)
      from step [OF this three(9)] encodePoint_three [OF three(1,2,4-7)] three(3) "1.prems"(2) Cons
      show ?thesis by simp
    next
      case (four c1 c2 c3 bs' v)
      then have "isScalar v" by (simp add: isScalar_def)
      from step [OF this four(8)] encodePoint_four [OF four(2-6)] four(1) "1.prems"(2) Cons
      show ?thesis by simp
    qed
  qed
qed

lemma encodePoint_bytes: "0 \<le> c \<Longrightarrow> c \<le> 0x10FFFF \<Longrightarrow> b \<in> set (encodePoint c) \<Longrightarrow> 0 \<le> b \<and> b < 256"
proof -
  assume c: "0 \<le> c" "c \<le> 0x10FFFF" and b: "b \<in> set (encodePoint c)"
  have k: "0 \<le> 128 + x mod 64 \<and> 128 + x mod 64 < 256" for x :: int
    using cont_bounds [of x] by linarith
  have h: "c < 0x800 \<Longrightarrow> 0 \<le> 192 + c div 64 \<and> 192 + c div 64 < 256"
    "c < 0x10000 \<Longrightarrow> 0 \<le> 224 + c div 4096 \<and> 224 + c div 4096 < 256"
    "0 \<le> 240 + c div 262144 \<and> 240 + c div 262144 < 256" using c by linarith+
  from b have "c < 0x80 \<and> b = c \<or> c < 0x800 \<and> b = 192 + c div 64 \<or> c < 0x10000 \<and> b = 224 + c div 4096 \<or>
      b = 240 + c div 262144 \<or> b = 128 + c mod 64 \<or> b = 128 + c div 64 mod 64 \<or> b = 128 + c div 4096 mod 64"
    unfolding encodePoint_def by (simp only: set_simps split: if_splits) blast+
  with k h c show ?thesis by fastforce
qed

lemma utf8Units_bytes: "list_all isUnit s \<Longrightarrow> b \<in> set (utf8Units s) \<Longrightarrow> 0 \<le> b \<and> b < 256"
proof (induction s rule: utf8Units.induct)
  case (2 c s)
  have "0 \<le> c \<and> c \<le> 0x10FFFF" using "2.prems"(1) by (simp add: isUnit_def)
  moreover have "0 \<le> pairPoint c (hd s) \<and> pairPoint c (hd s) \<le> 0x10FFFF"
    if "isHighSurrogate c" "isLowSurrogate (hd s)"
    using pairPoint_scalar [OF that] by (simp add: isScalar_def)
  moreover have "list_all isUnit (tl s)" using "2.prems"(1) by (cases s) auto
  ultimately show ?case
    using 2 encodePoint_bytes [of c b] encodePoint_bytes [of "pairPoint c (hd s)" b] encodePoint_bytes [of 65533 b]
    by (auto split: if_splits)
qed simp

lemma utf8Decode_encode:
  assumes "strIsWellFormed s" "list_all isUnit s"
  shows "utf8Decode (utf8Encode s) = Some s"
proof -
  have "map uint (utf8Encode s) = utf8Units s"
    unfolding utf8Encode_def map_map
    by (rule map_idI) (use utf8Units_bytes [OF assms(2)] in \<open>simp add: uint_word_of_int\<close>)
  with decode_encode [OF assms] show ?thesis by (simp add: utf8Decode_def)
qed

lemma utf8Decode_Some:
  assumes "utf8Decode bs = Some s"
  shows "utf8Encode s = bs" "strIsWellFormed s" "list_all isUnit s"
proof -
  have "list_all (\<lambda>b. 0 \<le> b) (map uint bs)" by (simp add: list_all_iff)
  from encode_decode [OF assms [unfolded utf8Decode_def] this]
  show "utf8Encode s = bs" "strIsWellFormed s" "list_all isUnit s"
    by (simp_all add: utf8Encode_def map_idI)
qed

lemma utf8Decode_iff: "utf8Decode bs = Some s \<longleftrightarrow> bs = utf8Encode s \<and> strIsWellFormed s \<and> list_all isUnit s"
  using utf8Decode_Some utf8Decode_encode by blast

lemma length_encodePoint:
  "length (encodePoint c) = (if c < 0x80 then 1 else if c < 0x800 then 2 else if c < 0x10000 then 3 else 4)"
  by (simp add: encodePoint_def)

lemma utf8LengthFrom_spec:
  "list_all isUnit s \<Longrightarrow> 0 \<le> acc \<Longrightarrow> acc \<le> MAX_INPUT_BYTES \<Longrightarrow>
   0 \<le> utf8LengthFrom acc s \<and> utf8LengthFrom acc s \<le> MAX_INPUT_BYTES \<longleftrightarrow>
     strIsWellFormed s \<and> acc + int (length (utf8Units s)) \<le> MAX_INPUT_BYTES"
proof (induction acc s rule: utf8LengthFrom.induct)
  case (2 acc c s)
  consider (hi) "isHighSurrogate c" | (lo) "isLowSurrogate c" | (other) "\<not> isHighSurrogate c" "\<not> isLowSurrogate c" by blast
  then show ?case
  proof cases
    case hi
    then have c: "\<not> c < 0x80" "\<not> c < 0x800" "\<not> isLowSurrogate c" by (auto simp: isHighSurrogate_def isLowSurrogate_def)
    show ?thesis
    proof (cases s)
      case Nil
      with hi c show ?thesis by simp
    next
      case (Cons d s')
      show ?thesis
      proof (cases "isLowSurrogate d")
        case True
        then have l: "length (encodePoint (pairPoint c d)) = 4"
          using hi by (simp add: length_encodePoint pairPoint_def isHighSurrogate_def isLowSurrogate_def)
        show ?thesis
        proof (cases "acc + 4 > MAX_INPUT_BYTES")
          case False
          with "2.IH"(3) [OF c(1,2) hi Cons] True "2.prems" Cons
          show ?thesis using l hi c by (simp add: add.assoc)
        qed (use l hi c Cons True "2.prems" in simp)
      qed (use hi c Cons in simp)
    qed
  next
    case lo
    then have c: "\<not> c < 0x80" "\<not> c < 0x800" "\<not> isHighSurrogate c" by (auto simp: isHighSurrogate_def isLowSurrogate_def)
    with lo show ?thesis by simp
  next
    case other
    have "c < 0x10000" using "2.prems"(1) by (simp add: isUnit_def)
    then show ?thesis using 2 other length_encodePoint [of c] by (simp add: add.assoc)
  qed
qed simp

lemma length_utf8Encode [simp]: "length (utf8Encode s) = length (utf8Units s)"
  by (simp add: utf8Encode_def)

lemma decodeDocument_Text:
  assumes "list_all isUnit s"
  shows "decodeDocument (Text s) = Inr t \<longleftrightarrow>
    t = s \<and> strIsWellFormed s \<and> int (length (utf8Encode s)) \<le> MAX_INPUT_BYTES"
  using utf8LengthFrom_spec [OF assms, of 0] by (auto simp: decodeDocument_def utf8Length_def Let_def MAX_INPUT_BYTES_def)

lemma decodeDocument_ByteArray:
  "decodeDocument (ByteArray bs) = Inr t \<longleftrightarrow>
    bs = utf8Encode t \<and> strIsWellFormed t \<and> list_all isUnit t \<and> int (length bs) \<le> MAX_INPUT_BYTES"
  unfolding decodeDocument_def input.case using utf8Decode_iff [of bs t]
  by (cases "utf8Decode bs") (auto simp: not_less)

lemma decodeDocument_ok:
  assumes "decodeDocument v = Inr t" "\<And>s. v = Text s \<Longrightarrow> list_all isUnit s"
  shows "strIsWellFormed t" "list_all isUnit t"
  using assms decodeDocument_Text [of _ t] decodeDocument_ByteArray [of _ t]
  by (cases v; auto simp: decodeDocument_def)+

lemma parseDecodedText_Inr [ok_iff]:
  "parseDecodedText t = Inr j \<longleftrightarrow> safeParseWith 64 MAX_INPUT_BYTES t = Inr j"
  by (cases "safeParseWith 64 MAX_INPUT_BYTES t") (auto simp: parseDecodedText_def)

lemma parseDocument_ok:
  assumes "parseDocument v = Inr j" "\<And>s. v = Text s \<Longrightarrow> list_all isUnit s"
  shows "json_ok isUnit j" "jdepth j \<le> 64"
proof -
  from assms(1) obtain t where t: "decodeDocument v = Inr t" "safeParseWith 64 MAX_INPUT_BYTES t = Inr j"
    by (auto simp: parseDocument_def parseDecodedText_Inr ok_iff)
  from safeParse_Inr [OF _ decodeDocument_ok(2) [OF t(1) assms(2)] t(2)]
  show "json_ok isUnit j" "jdepth j \<le> 64" by simp_all
qed

lemma utf8LengthFrom_well_formed: "strIsWellFormed s \<Longrightarrow> 0 \<le> acc \<Longrightarrow> 0 \<le> utf8LengthFrom acc s"
  by (induction acc s rule: utf8LengthFrom.induct) (auto simp: isHighSurrogate_def isLowSurrogate_def split: list.splits)

lemma decodeDocument_agrees:
  assumes "list_all isUnit s" "strIsWellFormed s"
  shows "decodeDocument (Text s) = decodeDocument (ByteArray (utf8Encode s))"
proof (cases "int (length (utf8Encode s)) \<le> MAX_INPUT_BYTES")
  case True
  then show ?thesis using assms decodeDocument_Text [of s s] decodeDocument_ByteArray [of "utf8Encode s" s] by simp
next
  case False
  have "0 \<le> utf8Length s" "\<not> utf8Length s \<le> MAX_INPUT_BYTES"
    using utf8LengthFrom_well_formed [OF assms(2), of 0] utf8LengthFrom_spec [OF assms(1), of 0] False
    by (auto simp: utf8Length_def MAX_INPUT_BYTES_def)
  then show ?thesis using False by (simp add: decodeDocument_def Let_def)
qed

text \<open>UTF-8 on well-formed strings is a codec: the decoder undoes it exactly.\<close>

definition utf8EncodeOpt :: "jstr \<Rightarrow> byte list option" where
  "utf8EncodeOpt s = (if strIsWellFormed s \<and> list_all isUnit s then Some (utf8Encode s) else None)"

interpretation utf8: canonical_codec utf8EncodeOpt utf8Decode "\<lambda>s. s"
  by unfold_locales (auto simp: utf8EncodeOpt_def utf8Decode_encode split: if_splits)

lemma utf8Encode_inject:
  "\<lbrakk>strIsWellFormed s; list_all isUnit s; strIsWellFormed t; list_all isUnit t; utf8Encode s = utf8Encode t\<rbrakk> \<Longrightarrow> s = t"
  using utf8.enc_determines [of s "utf8Encode s" t] by (simp add: utf8EncodeOpt_def)

section \<open>Properties\<close>

text \<open>
  (C21) The byte entry is exact: a byte array decodes to a text exactly when it is the UTF-8 encoding of
  that text, the text is well-formed Unicode, and the array fits the ceiling. Nothing is substituted
  or stripped, so two different byte arrays never give the same text.
\<close>

theorem decode_bytes_exact:
  "decodeDocument (ByteArray bs) = Inr t \<longleftrightarrow>
    bs = utf8Encode t \<and> strIsWellFormed t \<and> list_all isUnit t \<and> int (length bs) \<le> MAX_INPUT_BYTES"
  by (rule decodeDocument_ByteArray)

text \<open>
  (C22) The text entry and the byte entry agree: a well-formed string and its UTF-8 bytes are parsed to the same
  value or refused for the same reason, and a string with an unpaired surrogate, which has no such bytes, is
  refused before it is parsed.
\<close>

theorem text_and_bytes_agree:
  assumes "list_all isUnit s"
  shows "if strIsWellFormed s then parseDocument (Text s) = parseDocument (ByteArray (utf8Encode s))
         else parseDocument (Text s) \<in> {Inl IllFormedText, Inl TooManyBytes}"
proof (cases "strIsWellFormed s")
  case True
  then show ?thesis using decodeDocument_agrees [OF assms] by (simp add: parseDocument_def)
next
  case False
  then have "decodeDocument (Text s) \<noteq> Inr s" using decodeDocument_Text [OF assms] by simp
  then have "decodeDocument (Text s) \<in> {Inl IllFormedText, Inl TooManyBytes}" by (auto simp: decodeDocument_def Let_def split: if_splits)
  then show ?thesis using False by (auto simp: parseDocument_def)
qed

theorem text_and_bytes_agree_witness:
  "parseDocument (Text (U ''[7]'')) = parseDocument (ByteArray (utf8Encode (U ''[7]''))) \<and> parseDocument (Text (U ''[7]'')) = Inr (JArr [JNum 7]) \<and>
   parseDocument (Text [34, 0xD83D, 34]) \<in> {Inl IllFormedText, Inl TooManyBytes}"
proof -
  have u: "list_all isUnit (U ''[7]'')" "list_all isUnit [34, 0xD83D, 34]" "strIsWellFormed (U ''[7]'')" "\<not> strIsWellFormed [34, 0xD83D, 34]"
    "parseDocument (Text (U ''[7]'')) = Inr (JArr [JNum 7])" by code_simp+
  show ?thesis using text_and_bytes_agree [OF u(1)] text_and_bytes_agree [OF u(2)] u(3-5) by simp
qed

end
