(* ===== verification/Jcs.thy ===== *)
theory Jcs
  imports Bytes "HOL-Library.Multiset"
begin

text \<open>
  RFC 8785 canonicalization (src/src/jcs.ts), the hash pre-images (src/src/canonicalize.ts), the
  digest helpers (src/src/hash.ts) and the domain-separated signing message (src/src/signing.ts).
  SHA-256 itself is a parameter. The lemmas show when canonicalization succeeds, that the strict
  parser reads the canonical text back as the document with its members sorted (so the canonical text
  determines the document), what the two pre-images commit to, and that receipt and checkpoint
  signing messages never coincide.
\<close>

section \<open>Canonical text\<close>

datatype jcs_error = JcsDepth | JcsUnsafeInteger | JcsUnpairedSurrogate

definition JCS_MAX_DEPTH :: nat where
  "JCS_MAX_DEPTH = 64"

definition hexChar :: "int \<Rightarrow> int" where
  "hexChar d = (if d < 10 then 48 + d else 87 + d)"

text \<open>\<open>numToString(code, 16)\<close> for a code below 32, and \<open>strPadStart(s, n, "0")\<close>.\<close>

definition hexString :: "int \<Rightarrow> jstr" where
  "hexString c = (if c < 16 then [hexChar c] else [hexChar (c div 16), hexChar (c mod 16)])"

definition padStart0 :: "jstr \<Rightarrow> nat \<Rightarrow> jstr" where
  "padStart0 s n = replicate (n - length s) 48 @ s"

definition escapePoint :: "int \<Rightarrow> jstr" where
  "escapePoint c =
     (if c = 34 then [92, 34] else if c = 92 then [92, 92] else if c = 8 then [92, 98]
      else if c = 12 then [92, 102] else if c = 10 then [92, 110] else if c = 13 then [92, 114]
      else if c = 9 then [92, 116]
      else if c < 32 then [92, 117] @ padStart0 (hexString c) 4 else [c])"

text \<open>The walk by code point: a surrogate pair is copied whole.\<close>

fun escapeFrom :: "jstr \<Rightarrow> jstr" where
  "escapeFrom [] = []"
| "escapeFrom (c # s) =
     (if isHighSurrogate c \<and> s \<noteq> [] \<and> isLowSurrogate (hd s) then c # hd s # escapeFrom (tl s)
      else escapePoint c @ escapeFrom s)"

definition serializeString :: "jstr \<Rightarrow> jcs_error + jstr" where
  "serializeString s =
     (if \<not> strIsWellFormed s then Inl JcsUnpairedSurrogate else Inr ([34] @ escapeFrom s @ [34]))"

fun joinComma :: "jstr list \<Rightarrow> jstr" where
  "joinComma [] = []"
| "joinComma [x] = x"
| "joinComma (x # xs) = x @ 44 # joinComma xs"

text \<open>The members of an object in the order \<open>arraySort(objectKeys(obj))\<close> visits them.\<close>

definition sortedMembers :: "(jstr \<times> json) list \<Rightarrow> (jstr \<times> json) list" where
  "sortedMembers m = map (\<lambda>k. (k, the (map_of m k))) (sort (ownNames m))"

lemma sortedMembers_set: "p \<in> set (sortedMembers m) \<Longrightarrow> p \<in> set m"
  by (auto simp: sortedMembers_def dest!: weak_map_of_SomeI intro: map_of_SomeD)

lemma size_sortedMember [termination_simp]:
  "(k, v) \<in> set (sortedMembers m) \<Longrightarrow> size v < Suc (size_list (\<lambda>p. Suc (size (snd p))) m)"
  by (drule sortedMembers_set) (induction m, auto)

fun serialize :: "json \<Rightarrow> nat \<Rightarrow> jcs_error + jstr" where
  "serialize JNull depth = (if depth > JCS_MAX_DEPTH then Inl JcsDepth else Inr (U ''null''))"
| "serialize (JBool b) depth =
     (if depth > JCS_MAX_DEPTH then Inl JcsDepth else Inr (if b then U ''true'' else U ''false''))"
| "serialize (JNum n) depth =
     (if depth > JCS_MAX_DEPTH then Inl JcsDepth
      else if \<not> isSafeInteger n then Inl JcsUnsafeInteger else Inr (numToString n))"
| "serialize (JStr s) depth = (if depth > JCS_MAX_DEPTH then Inl JcsDepth else serializeString s)"
| "serialize (JArr xs) depth =
     (if depth > JCS_MAX_DEPTH then Inl JcsDepth
      else bindS (mapE (\<lambda>x. serialize x (depth + 1)) xs) (\<lambda>ss. Inr ([91] @ joinComma ss @ [93])))"
| "serialize (JObj m) depth =
     (if depth > JCS_MAX_DEPTH then Inl JcsDepth
      else bindS (mapE (\<lambda>(k, v). bindS (serializeString k) (\<lambda>ks.
             bindS (serialize v (depth + 1)) (\<lambda>vs. Inr (ks @ [58] @ vs)))) (sortedMembers m))
        (\<lambda>ss. Inr ([123] @ joinComma ss @ [125])))"

definition canonicalize :: "json \<Rightarrow> jcs_error + jstr" where
  "canonicalize v = serialize v 0"

section \<open>Hash pre-images and signing messages\<close>

datatype hash_error = ChainNotObject | SigNotObject | JcsFailed jcs_error

text \<open>
  The own data properties \<open>copyOwn\<close> copies; a parsed array has its indices and \<open>length\<close>.
\<close>

fun ownProps :: "json \<Rightarrow> (jstr \<times> json) list" where
  "ownProps (JObj m) = map (\<lambda>k. (k, the (map_of m k))) (ownNames m)"
| "ownProps (JArr xs) = zip (map natStr [0..<length xs]) xs @ [(U ''length'', JNum (int (length xs)))]"
| "ownProps _ = []"

definition copyOwn :: "json \<Rightarrow> jstr option \<Rightarrow> (jstr \<times> json) list" where
  "copyOwn source omit = filter (\<lambda>(k, v). Some k \<noteq> omit) (ownProps source)"

definition canonicalOf :: "json \<Rightarrow> hash_error + jstr" where
  "canonicalOf v = (case canonicalize v of Inl e \<Rightarrow> Inl (JcsFailed e) | Inr s \<Rightarrow> Inr s)"

definition receiptHashInput :: "json \<Rightarrow> hash_error + jstr" where
  "receiptHashInput receipt =
     (let out = copyOwn receipt None in
      case jget receipt (U ''chain'') of
        None \<Rightarrow> Inl ChainNotObject
      | Some chain \<Rightarrow>
          if \<not> isObjectType chain then Inl ChainNotObject
          else case jget receipt (U ''sig'') of
            None \<Rightarrow> Inl SigNotObject
          | Some sig \<Rightarrow>
              if \<not> isObjectType sig then Inl SigNotObject
              else canonicalOf (JObj
                (objPut (U ''sig'') (JObj (copyOwn sig (Some (U ''value''))))
                  (objPut (U ''chain'') (JObj (copyOwn chain (Some (U ''hash'')))) out))))"

definition checkpointHashInput :: "json \<Rightarrow> hash_error + jstr" where
  "checkpointHashInput cp =
     (let out = copyOwn cp None in
      case jget cp (U ''sig'') of
        None \<Rightarrow> Inl SigNotObject
      | Some sig \<Rightarrow>
          if \<not> isObjectType sig then Inl SigNotObject
          else canonicalOf (JObj (objPut (U ''sig'') (JObj (copyOwn sig (Some (U ''value'')))) out)))"

text \<open>
  SHA-256 is a parameter \<open>sha\<close> on byte strings.
\<close>

type_synonym sha = "byte list \<Rightarrow> byte list"

definition byteHex :: "byte \<Rightarrow> jstr" where
  "byteHex b = [hexChar (uint b div 16), hexChar (uint b mod 16)]"

definition toHex :: "byte list \<Rightarrow> jstr" where
  "toHex bs = concat (map byteHex bs)"

definition sha256Hex :: "sha \<Rightarrow> jstr \<Rightarrow> jstr" where
  "sha256Hex sha s = toHex (sha (utf8Encode s))"

definition sha256Prefixed :: "sha \<Rightarrow> jstr \<Rightarrow> jstr" where
  "sha256Prefixed sha s = U ''sha256:'' @ sha256Hex sha s"

definition sha256Digest :: "sha \<Rightarrow> jstr \<Rightarrow> byte list" where
  "sha256Digest sha s = sha (utf8Encode s)"

definition RECEIPT_SIG_DOMAIN :: jstr where
  "RECEIPT_SIG_DOMAIN = U ''NOA-Receipt-v0.1-sig''"

definition CHECKPOINT_SIG_DOMAIN :: jstr where
  "CHECKPOINT_SIG_DOMAIN = U ''NOA-Checkpoint-v0.1-sig''"

definition signingMessage :: "sha \<Rightarrow> jstr \<Rightarrow> jstr \<Rightarrow> byte list" where
  "signingMessage sha domain input = utf8Encode (domain @ [58]) @ sha256Digest sha input"

section \<open>The canonical text as a printer\<close>

fun sortJson :: "json \<Rightarrow> json" where
  "sortJson (JArr xs) = JArr (map sortJson xs)"
| "sortJson (JObj m) = JObj (map (\<lambda>(k, v). (k, sortJson v)) (sortedMembers m))"
| "sortJson v = v"

definition quote :: "jstr \<Rightarrow> jstr" where
  "quote s = [34] @ concat (map escapePoint s) @ [34]"

fun printJson :: "json \<Rightarrow> jstr" where
  "printJson JNull = U ''null''"
| "printJson (JBool b) = (if b then U ''true'' else U ''false'')"
| "printJson (JNum n) = numToString n"
| "printJson (JStr s) = quote s"
| "printJson (JArr xs) = [91] @ joinComma (map printJson xs) @ [93]"
| "printJson (JObj m) = [123] @ joinComma (map (\<lambda>(k, v). quote k @ [58] @ printJson v) m) @ [125]"

lemma escapePoint_surrogate: "isHighSurrogate c \<or> isLowSurrogate c \<Longrightarrow> escapePoint c = [c]"
  by (auto simp: escapePoint_def isHighSurrogate_def isLowSurrogate_def)

lemma escapeFrom_concat: "escapeFrom s = concat (map escapePoint s)"
proof (induction s rule: escapeFrom.induct)
  case (2 c s)
  then show ?case by (cases s) (auto simp: escapePoint_surrogate)
qed simp

lemma serializeString_ok: "strIsWellFormed s \<Longrightarrow> serializeString s = Inr (quote s)"
  by (simp add: serializeString_def quote_def escapeFrom_concat)

lemma json_ok_member: "json_ok Q (JObj m) \<Longrightarrow> (k, v) \<in> set m \<Longrightarrow>
    json_ok Q v \<and> strIsWellFormed k \<and> list_all Q k \<and> \<not> isForbiddenKey k"
  by (auto simp: list_all_iff)

lemma serialize_ok:
  "json_ok Q v \<Longrightarrow> depth + jdepth v \<le> JCS_MAX_DEPTH \<Longrightarrow> serialize v depth = Inr (printJson (sortJson v))"
proof (induction v depth rule: serialize.induct)
  case (5 xs depth)
  have "mapE (\<lambda>x. serialize x (depth + 1)) xs = Inr (map (\<lambda>x. printJson (sortJson x)) xs)"
    using 5 jdepth_arr_elem [of _ xs] by (intro mapE_total) (fastforce simp: list_all_iff)
  with "5.prems"(2) show ?case by (simp add: comp_def)
next
  case (6 m depth)
  have "mapE (\<lambda>(k, v). bindS (serializeString k) (\<lambda>ks.
      bindS (serialize v (depth + 1)) (\<lambda>vs. Inr (ks @ [58] @ vs)))) (sortedMembers m)
    = Inr (map (\<lambda>(k, v). quote k @ [58] @ printJson (sortJson v)) (sortedMembers m))"
  proof (intro mapE_total, clarify)
    fix k v assume kv: "(k, v) \<in> set (sortedMembers m)"
    then have m: "(k, v) \<in> set m" by (rule sortedMembers_set)
    have "serialize v (depth + 1) = Inr (printJson (sortJson v))"
      using 6 jdepth_obj_member [OF m] json_ok_member [OF "6.prems"(1) m] kv serializeString_ok [of k]
      by fastforce
    then show "bindS (serializeString k) (\<lambda>ks. bindS (serialize v (depth + 1)) (\<lambda>vs. Inr (ks @ [58] @ vs)))
      = Inr (quote k @ [58] @ printJson (sortJson v))"
      using json_ok_member [OF "6.prems"(1) m] by (simp add: serializeString_ok)
  qed
  with "6.prems"(2) show ?case by (simp add: comp_def split_def)
qed (auto simp: serializeString_ok)

lemma map_fst_sortedMembers: "map fst (sortedMembers m) = sort (ownNames m)"
  by (simp add: sortedMembers_def comp_def)

lemma jdepth_arr_le: "jdepth (JArr xs) \<le> n \<longleftrightarrow> (\<forall>x\<in>set xs. jdepth x < n)"
  by (cases n) (auto simp: less_Suc_eq_le)

lemma jdepth_obj_le: "jdepth (JObj m) \<le> n \<longleftrightarrow> (\<forall>p\<in>set m. jdepth (snd p) < n)"
  by (cases n; cases m) (auto simp: less_Suc_eq_le)

lemma jdepth_sortJson: "jdepth (sortJson v) \<le> jdepth v"
proof (induction v rule: sortJson.induct)
  case (1 xs)
  then show ?case unfolding sortJson.simps jdepth_arr_le using jdepth_arr_elem [of _ xs]
    by (auto intro: le_less_trans simp del: jdepth.simps)
next
  case (2 m)
  then show ?case unfolding sortJson.simps jdepth_obj_le
    using jdepth_obj_member [OF sortedMembers_set [of _ m]] by (fastforce intro: le_less_trans simp del: jdepth.simps)
qed auto

lemma json_ok_sortJson: "json_ok Q v \<Longrightarrow> json_ok Q (sortJson v)"
proof (induction v rule: sortJson.induct)
  case (2 m)
  have "map fst (map (\<lambda>(k, v). (k, sortJson v)) (sortedMembers m)) = sort (ownNames m)"
    by (simp add: map_fst_sortedMembers [symmetric] comp_def case_prod_beta)
  moreover have "distinct (sort (ownNames m))" using 2 distinct_ownNames by simp
  moreover have "json_ok Q (sortJson v) \<and> strIsWellFormed k \<and> list_all Q k \<and> \<not> isForbiddenKey k"
    if "(k, v) \<in> set (sortedMembers m)" for k v
    using 2 that json_ok_member [OF "2.prems" sortedMembers_set [OF that]] by auto
  ultimately show ?case by (auto simp: list_all_iff simp del: map_map)
qed (auto simp: list_all_iff)

section \<open>The parser reads the canonical text back\<close>

text \<open>What may follow a value inside a document: the end, a separator or a closing bracket.\<close>

definition delim :: "jstr \<Rightarrow> bool" where
  "delim r \<longleftrightarrow> r = [] \<or> hd r = 44 \<or> hd r = 93 \<or> hd r = 125"

lemma hexDigit_hexChar: "0 \<le> d \<Longrightarrow> d < 16 \<Longrightarrow> hexDigit (hexChar d) = d \<and> isAnyHex (hexChar d)"
  by (auto simp: hexDigit_def hexChar_def isAnyHex_def)

lemma padded_hex:
  assumes "0 \<le> c" "c < 32"
  obtains h where "padStart0 (hexString c) 4 = h" "length h = 4" "isHex4 h" "parseHex h = c"
proof -
  have d: "0 \<le> c div 16" "c div 16 < 16" "0 \<le> c mod 16" "c mod 16 < 16" using assms by auto
  have e: "padStart0 (hexString c) 4 = [48, 48, hexChar (c div 16), hexChar (c mod 16)]"
    using assms by (auto simp: padStart0_def hexString_def eval_nat_numeral hexChar_def)
  show thesis
    by (rule that [OF e])
      (use hexDigit_hexChar [OF d(1,2)] hexDigit_hexChar [OF d(3,4)] in
        \<open>simp_all add: isHex4_iff parseHex_def isAnyHex_def hexDigit_def\<close>)
qed

lemma parseString_escapePoint:
  assumes "0 \<le> c"
  shows "parseString out (escapePoint c @ r) = parseString (out @ [c]) r"
proof (cases "c \<in> {34, 92, 8, 12, 10, 13, 9}")
  case True
  then show ?thesis by (auto simp: escapePoint_def simpleEscape_def)
next
  case False
  show ?thesis
  proof (cases "c < 32")
    case True
    from padded_hex [OF assms True] obtain h where h: "padStart0 (hexString c) 4 = h" "length h = 4" "isHex4 h" "parseHex h = c" .
    from False True h(1) have "escapePoint c = 92 # 117 # h" by (simp add: escapePoint_def)
    with h show ?thesis by (simp add: simpleEscape_def)
  next
    case False
    with \<open>c \<notin> _\<close> show ?thesis by (simp add: escapePoint_def)
  qed
qed

lemma parseString_quote:
  "list_all isUnit s \<Longrightarrow> strIsWellFormed (out @ s) \<Longrightarrow>
   parseString out (concat (map escapePoint s) @ 34 # rest) = Inr (out @ s, rest)"
proof (induction s arbitrary: out)
  case (Cons c s)
  then show ?case using parseString_escapePoint [of c out "concat (map escapePoint s) @ 34 # rest"]
    by (simp add: isUnit_def)
qed simp

lemma takeWhile_digits:
  "list_all isDigit ds \<Longrightarrow> delim r \<Longrightarrow> takeWhile isDigit (ds @ r) = ds"
  by (induction ds) (cases r; auto simp: delim_def isDigit_def)+

lemma digits10_isDigit: "list_all isDigit (digits10 n)"
  using digits10_digits by (auto simp: list_all_iff isDigit_def)

lemma digits10_zero_hd: "hd (digits10 n) = 48 \<Longrightarrow> digits10 n = [48]"
  using digits10_hd [of n] by (simp add: digits10_induct_step)

lemma delim_not_number: "delim r \<Longrightarrow> \<not> (r \<noteq> [] \<and> (hd r = 46 \<or> hd r = 101 \<or> hd r = 69))"
  by (auto simp: delim_def)

lemma parseNumber_step:
  fixes neg :: bool and r r1 r2 digits :: jstr and num :: int
  assumes "neg \<longleftrightarrow> r \<noteq> [] \<and> hd r = 45" and "r1 = (if neg then tl r else r)"
    and "digits = (if r1 \<noteq> [] \<and> hd r1 = 48 then [48] else takeWhile isDigit r1)"
    and "digits \<noteq> []" "r1 = digits @ r2" "\<not> (r2 \<noteq> [] \<and> (hd r2 = 46 \<or> hd r2 = 101 \<or> hd r2 = 69))"
    and "num = (if neg then - int (digitsValue digits) else int (digitsValue digits))" "isSafeInteger num"
  shows "parseNumber r = Inr (JNum num, r2)"
  unfolding parseNumber_def Let_def assms(1) [symmetric] assms(2) [symmetric] assms(3) [symmetric] assms(7) [symmetric]
  using assms(4,6,8) unfolding assms(5) by simp

lemma parseNumber_print:
  assumes "isSafeInteger n" "delim rest"
  shows "parseNumber (numToString n @ rest) = Inr (JNum n, rest)"
proof (rule parseNumber_step [of "n < 0" _ "digits10 (nat \<bar>n\<bar>) @ rest" "digits10 (nat \<bar>n\<bar>)"])
  have dig: "list_all isDigit (digits10 (nat \<bar>n\<bar>))" by (rule digits10_isDigit)
  then have hd: "hd (digits10 (nat \<bar>n\<bar>)) \<noteq> 45" by (cases "digits10 (nat \<bar>n\<bar>)") (auto simp: isDigit_def)
  show "n < 0 \<longleftrightarrow> numToString n @ rest \<noteq> [] \<and> hd (numToString n @ rest) = 45"
    "digits10 (nat \<bar>n\<bar>) @ rest = (if n < 0 then tl (numToString n @ rest) else numToString n @ rest)"
    using hd by (auto simp: numToString_def)
  show "digits10 (nat \<bar>n\<bar>) = (if digits10 (nat \<bar>n\<bar>) @ rest \<noteq> [] \<and> hd (digits10 (nat \<bar>n\<bar>) @ rest) = 48 then [48]
      else takeWhile isDigit (digits10 (nat \<bar>n\<bar>) @ rest))"
    using digits10_zero_hd [of "nat \<bar>n\<bar>"] takeWhile_digits [OF dig assms(2)] by auto
qed (use assms delim_not_number in auto)

text \<open>The text of a value starts with a character that is no white space and no closing bracket.\<close>

definition startsValue :: "jstr \<Rightarrow> bool" where
  "startsValue s \<longleftrightarrow> s \<noteq> [] \<and> \<not> isWs (hd s) \<and> hd s \<noteq> 93 \<and> hd s \<noteq> 125"

lemma startsValue_append: "startsValue s \<Longrightarrow> startsValue (s @ r)"
  by (auto simp: startsValue_def)

lemma skipWs_startsValue: "startsValue s \<Longrightarrow> skipWs s = s"
  by (cases s) (auto simp: startsValue_def skipWs_def)

lemma skipWs_delim: "delim r \<Longrightarrow> skipWs r = r"
  by (cases r) (auto simp: delim_def skipWs_def isWs_def)

lemma numToString_starts: "numToString n \<noteq> [] \<and> (hd (numToString n) = 45 \<or> isDigit (hd (numToString n)))"
proof (cases "n < 0")
  case False
  then show ?thesis using digits10_isDigit [of "nat n"] by (cases "digits10 (nat n)") (auto simp: numToString_def)
qed (simp add: numToString_def)

lemma startsValue_print: "startsValue (printJson v)"
proof (cases v)
  case (JNum n)
  then show ?thesis using numToString_starts [of n] by (auto simp: startsValue_def isWs_def isDigit_def)
qed (auto simp: startsValue_def quote_def isWs_def U_def)

lemma joinComma_Cons: "xs \<noteq> [] \<Longrightarrow> joinComma (x # xs) = x @ 44 # joinComma xs"
  by (cases xs) auto

lemma parseArray_print:
  assumes elem: "\<And>x f rest. x \<in> set xs \<Longrightarrow> delim rest \<Longrightarrow> 2 * length (printJson x @ rest) < f \<Longrightarrow>
      parseValue f D (Suc d) (printJson x @ rest) = Inr (x, rest)"
  shows "xs \<noteq> [] \<Longrightarrow> Suc (2 * length (joinComma (map printJson xs) @ 93 # rest)) < f \<Longrightarrow>
    parseArray f D d arr (joinComma (map printJson xs) @ 93 # rest) = Inr (JArr (arr @ xs), rest)"
  using elem
proof (induction xs arbitrary: arr f)
  case (Cons x xs)
  from Cons.prems(2) obtain f' where f: "f = Suc f'" by (cases f) auto
  show ?case
  proof (cases "xs = []")
    case True
    have "parseValue f' D (Suc d) (printJson x @ 93 # rest) = Inr (x, 93 # rest)"
      using Cons.prems True f by (intro Cons.prems(3)) (auto simp: delim_def)
    then show ?thesis using True by (simp add: f parseArrayBody_def skipWs_delim delim_def Let_def)
  next
    case False
    let ?r = "joinComma (map printJson xs) @ 93 # rest"
    have j: "joinComma (map printJson (x # xs)) @ 93 # rest = printJson x @ 44 # ?r"
      using False by (simp add: joinComma_Cons)
    have "parseValue f' D (Suc d) (printJson x @ 44 # ?r) = Inr (x, 44 # ?r)"
      using Cons.prems(2) f unfolding j by (intro Cons.prems(3)) (auto simp: delim_def)
    moreover have "parseArray f' D d (arr @ [x]) ?r = Inr (JArr ((arr @ [x]) @ xs), rest)"
      using Cons.prems(2) f unfolding j by (intro Cons.IH False Cons.prems(3)) auto
    ultimately show ?thesis unfolding j
      by (simp add: f parseArrayBody_def skipWs_delim delim_def Let_def)
  qed
qed simp

lemma parseObject_print:
  assumes elem: "\<And>k x f rest. (k, x) \<in> set m \<Longrightarrow> delim rest \<Longrightarrow> 2 * length (printJson x @ rest) < f \<Longrightarrow>
      parseValue f D (Suc d) (printJson x @ rest) = Inr (x, rest)"
    and ok: "json_ok isUnit (JObj (obj @ m))"
  shows "m \<noteq> [] \<Longrightarrow> 2 * length (joinComma (map (\<lambda>(k, v). quote k @ [58] @ printJson v) m) @ 125 # rest) < f \<Longrightarrow>
    parseObject f D d obj (joinComma (map (\<lambda>(k, v). quote k @ [58] @ printJson v) m) @ 125 # rest)
      = Inr (JObj (obj @ m), rest)"
  using assms
proof (induction m arbitrary: obj f)
  case (Cons p m)
  obtain k v where p: "p = (k, v)" by fastforce
  from Cons.prems(2) obtain f' where f: "f = Suc f'" by (cases f) auto
  have k: "\<not> isForbiddenKey k" "strIsWellFormed k" "list_all isUnit k" "k \<notin> fst ` set obj"
    using Cons.prems(4) p by (auto simp: list_all_iff)
  let ?q = "concat (map escapePoint k)"
  have str: "parseString [] (?q @ 34 # t) = Inr (k, t)" for t
    using parseString_quote [of k "[]" t] k by simp
  have ws: "skipWs (34 # t) = 34 # t" "skipWs (58 # t) = 58 # t" "skipWs (44 # t) = 44 # t"
    "skipWs (125 # t) = 125 # t" for t by (auto simp: skipWs_def isWs_def)
  show ?case
  proof (cases "m = []")
    case True
    have "parseValue f' D (Suc d) (printJson v @ 125 # rest) = Inr (v, 125 # rest)"
      using Cons.prems(2) True f p by (intro Cons.prems(3)) (auto simp: delim_def quote_def)
    then show ?thesis using True k p by (simp add: f parseObjectBody_def quote_def str ws Let_def)
  next
    case False
    let ?r = "joinComma (map (\<lambda>(k, v). quote k @ [58] @ printJson v) m) @ 125 # rest"
    have j: "joinComma (map (\<lambda>(k, v). quote k @ [58] @ printJson v) (p # m)) @ 125 # rest
        = 34 # ?q @ 34 # 58 # printJson v @ 44 # ?r"
      using False by (simp add: joinComma_Cons p quote_def)
    have "parseValue f' D (Suc d) (printJson v @ 44 # ?r) = Inr (v, 44 # ?r)"
      using Cons.prems(2) f p unfolding j by (intro Cons.prems(3)) (auto simp: delim_def)
    moreover have "parseObject f' D d (obj @ [(k, v)]) ?r = Inr (JObj ((obj @ [(k, v)]) @ m), rest)"
    proof (rule Cons.IH [OF False])
      show "2 * length ?r < f'" using Cons.prems(2) f unfolding j by simp
      show "json_ok isUnit (JObj ((obj @ [(k, v)]) @ m))" using Cons.prems(4) p by simp
    qed (use Cons.prems(3) in \<open>auto intro: list.set_intros(2)\<close>)
    ultimately show ?thesis unfolding j using k p
      by (simp add: f parseObjectBody_def str ws Let_def)
  qed
qed simp

lemma parseValue_print:
  "json_ok isUnit v \<Longrightarrow> d + jdepth v \<le> D \<Longrightarrow> delim rest \<Longrightarrow> 2 * length (printJson v @ rest) < f \<Longrightarrow>
   parseValue f D d (printJson v @ rest) = Inr (v, rest)"
proof (induction v arbitrary: d rest f)
  case JNull
  then show ?case using skipWs_startsValue [OF startsValue_append [OF startsValue_print [of JNull]]]
    by (cases f) (auto simp: parseValueBody_def parseNull_def hasPrefix_iff U_def)
next
  case (JBool b)
  then show ?case using skipWs_startsValue [OF startsValue_append [OF startsValue_print [of "JBool b"]]]
    by (cases f; cases b) (auto simp: parseValueBody_def parseBool_def hasPrefix_iff U_def)
next
  case (JNum n)
  obtain c t where ct: "numToString n = c # t" "c = 45 \<or> isDigit c"
    using numToString_starts [of n] by (cases "numToString n") auto
  then have "c \<notin> {123, 91, 34, 116, 102, 110}" by (auto simp: isDigit_def)
  with JNum ct show ?case
    using skipWs_startsValue [OF startsValue_append [OF startsValue_print [of "JNum n"]], of rest] parseNumber_print [of n rest]
    by (cases f) (auto simp: parseValueBody_def)
next
  case (JStr s)
  then show ?case
    using skipWs_startsValue [OF startsValue_append [OF startsValue_print [of "JStr s"]], of rest] parseString_quote [of s "[]" rest]
    by (cases f) (auto simp: parseValueBody_def quote_def)
next
  case (JArr xs)
  obtain f' where f: "f = Suc f'" using JArr.prems by (cases f) auto
  note sk = skipWs_startsValue [OF startsValue_append [OF startsValue_print [of "JArr xs"]], of rest]
  show ?case
  proof (cases "xs = []")
    case True
    then show ?thesis using sk JArr.prems by (simp add: f parseValueBody_def skipWs_def isWs_def)
  next
    case False
    let ?r = "joinComma (map printJson xs) @ 93 # rest"
    have "startsValue ?r"
      using False by (cases xs; cases "tl xs") (auto intro: startsValue_append startsValue_print)
    then have sk2: "skipWs ?r = ?r" "?r \<noteq> []" "hd ?r \<noteq> 93" by (simp_all add: skipWs_startsValue startsValue_def)
    have "parseArray f' D d [] ?r = Inr (JArr ([] @ xs), rest)"
    proof (rule parseArray_print [OF _ False])
      fix x f rest assume x: "x \<in> set xs" and *: "delim rest" "2 * length (printJson x @ rest) < f"
      show "parseValue f D (Suc d) (printJson x @ rest) = Inr (x, rest)"
        using JArr.IH [OF x, of "Suc d"] JArr.prems(1,2) x jdepth_arr_elem [OF x] *
        by (auto simp: list_all_iff simp del: jdepth.simps)
    qed (use JArr.prems(4) f in simp)
    then show ?thesis using sk sk2 JArr.prems(2) by (simp add: f parseValueBody_def Let_def)
  qed
next
  case (JObj m)
  obtain f' where f: "f = Suc f'" using JObj.prems by (cases f) auto
  note sk = skipWs_startsValue [OF startsValue_append [OF startsValue_print [of "JObj m"]], of rest]
  show ?case
  proof (cases "m = []")
    case True
    then show ?thesis using sk JObj.prems by (simp add: f parseValueBody_def skipWs_def isWs_def)
  next
    case False
    let ?r = "joinComma (map (\<lambda>(k, v). quote k @ [58] @ printJson v) m) @ 125 # rest"
    have "startsValue ?r"
      using False by (cases m; cases "tl m") (auto simp: startsValue_def quote_def isWs_def)
    then have sk2: "skipWs ?r = ?r" "?r \<noteq> []" "hd ?r \<noteq> 125" by (simp_all add: skipWs_startsValue startsValue_def)
    have "parseObject f' D d [] ?r = Inr (JObj ([] @ m), rest)"
    proof (rule parseObject_print [OF _ _ False])
      fix k x f rest assume x: "(k, x) \<in> set m" and *: "delim rest" "2 * length (printJson x @ rest) < f"
      have "x \<in> Basic_BNFs.snds (k, x)" by simp
      then show "parseValue f D (Suc d) (printJson x @ rest) = Inr (x, rest)"
        using JObj.IH [OF x, of x "Suc d"] JObj.prems(1,2) json_ok_member [OF JObj.prems(1) x] jdepth_obj_member [OF x] *
        by (auto simp del: jdepth.simps)
    qed (use JObj.prems(1,4) f in simp_all)
    then show ?thesis using sk sk2 JObj.prems(2) by (simp add: f parseValueBody_def Let_def)
  qed
qed

lemma canonicalize_ok:
  "json_ok Q v \<Longrightarrow> jdepth v \<le> 64 \<Longrightarrow> canonicalize v = Inr (printJson (sortJson v))"
  using serialize_ok [of Q v 0] by (simp add: canonicalize_def JCS_MAX_DEPTH_def)

lemma parse_canonical:
  assumes ok: "json_ok isUnit v" and d: "jdepth v \<le> 64" and c: "canonicalize v = Inr s" and l: "int (length s) \<le> L"
  shows "safeParseWith 64 L s = Inr (sortJson v)"
proof -
  let ?w = "sortJson v"
  have s: "s = printJson ?w" using canonicalize_ok [OF ok d] c by simp
  have "parseValue (Suc (length s + length s)) 64 0 (printJson ?w @ []) = Inr (?w, [])"
    using json_ok_sortJson [OF ok] jdepth_sortJson [of v] d s by (intro parseValue_print) (auto simp: delim_def)
  then show ?thesis using l s by (simp add: safeParseWith_def skipWs_def)
qed

section \<open>What the canonical text commits to\<close>

definition jcsEncode :: "json \<Rightarrow> jstr option" where
  "jcsEncode v = (if json_ok isUnit v \<and> jdepth v \<le> 64 then (case canonicalize v of Inr s \<Rightarrow> Some s | Inl _ \<Rightarrow> None) else None)"

definition jcsDecode :: "jstr \<Rightarrow> json option" where
  "jcsDecode s = (case safeParseWith 64 (int (length s)) s of Inr v \<Rightarrow> Some v | Inl _ \<Rightarrow> None)"

lemma jcsDecode_encode: "jcsEncode v = Some s \<Longrightarrow> jcsDecode s = Some (sortJson v)"
  using parse_canonical [of v s "int (length s)"]
  by (auto simp: jcsEncode_def jcsDecode_def split: if_splits sum.splits)

interpretation jcs: canonical_codec jcsEncode jcsDecode sortJson
  by unfold_locales (rule jcsDecode_encode)

lemma canonicalize_eq_iff:
  assumes "json_ok isUnit u" "jdepth u \<le> 64" "json_ok isUnit v" "jdepth v \<le> 64"
  shows "canonicalize u = canonicalize v \<longleftrightarrow> sortJson u = sortJson v"
proof
  assume "canonicalize u = canonicalize v"
  then have "jcsEncode u = jcsEncode v" "jcsEncode u \<noteq> None"
    using assms by (auto simp: jcsEncode_def canonicalize_ok)
  then show "sortJson u = sortJson v" using jcs.enc_determines by fastforce
qed (use assms in \<open>simp add: canonicalize_ok\<close>)

lemma map_of_image_snd: "map_of (map (\<lambda>(k, v). (k, f v)) m) k = map_option f (map_of m k)"
  by (induction m) auto

lemma map_of_keyed: "map_of (map (\<lambda>k. (k, the (map_of m k))) ks) k = (if k \<in> set ks then Some (the (map_of m k)) else None)"
  by (induction ks) auto

lemma map_of_keyed_all:
  assumes "set ks = fst ` set m"
  shows "map_of (map (\<lambda>k. (k, the (map_of m k))) ks) k = map_of m k"
  using assms map_of_eq_None_iff [of m k] by (auto simp: map_of_keyed)

lemma map_of_sortedMembers [simp]: "map_of (sortedMembers m) k = map_of m k"
  by (simp add: sortedMembers_def map_of_keyed_all)

lemma sort_ownNames: "sort (ownNames m) = sort (map fst m)"
proof (rule properties_for_sort)
  have "mset (ownNames m) = mset (map fst m)"
    unfolding ownNames_def mset_append mset_sort mset_filter by (rule multiset_partition [symmetric])
  then show "mset (sort (map fst m)) = mset (ownNames m)" by simp
qed simp

lemma sortJson_idem: "sortJson (sortJson v) = sortJson v"
proof (induction v rule: sortJson.induct)
  case (2 m)
  have s: "sort (sort (ownNames m)) = sort (ownNames m)" by (rule sorted_sort_id) simp
  let ?m = "map (\<lambda>(k, v). (k, sortJson v)) (sortedMembers m)"
  have k: "map fst ?m = sort (ownNames m)" using map_fst_sortedMembers [of m] by (simp add: comp_def case_prod_beta)
  have "sortJson (the (map_of ?m k)) = the (map_of ?m k)" if k: "k \<in> fst ` set m" for k
  proof -
    obtain x where x: "map_of m k = Some x" using k map_of_eq_None_iff [of m k] by blast
    then have "(k, x) \<in> set (sortedMembers m)" using map_of_SomeD [of "sortedMembers m" k x] by simp
    from 2 [OF this refl] show ?thesis by (simp add: map_of_image_snd x)
  qed
  then have "map (\<lambda>(k, v). (k, sortJson v)) (sortedMembers ?m) = map (\<lambda>k. (k, the (map_of ?m k))) (sort (ownNames m))"
    unfolding sortedMembers_def [of ?m] sort_ownNames [of ?m] k s by simp
  also have "\<dots> = map (\<lambda>k. (k, sortJson (the (map_of m k)))) (sort (ownNames m))"
    by (intro map_cong refl) (auto simp: map_of_image_snd simp del: map_map dest!: weak_map_of_SomeI)
  also have "\<dots> = ?m" by (simp add: sortedMembers_def)
  finally show ?case by (simp only: sortJson.simps)
qed (simp_all add: comp_def)

lemma jget_sortJson: "jget (sortJson v) k = map_option sortJson (jget v k)"
  by (cases v) (simp_all add: map_of_image_snd)

lemma jget_copyOwn:
  "jget (JObj (copyOwn v omit)) k = (if Some k = omit then None else jget v k)" if "isPlainObject v"
proof -
  from that obtain m where v: "v = JObj m" by (auto simp: isPlainObject_iff)
  have f: "map_of (filter (\<lambda>(k, v). Some k \<noteq> omit) l) k = (if Some k = omit then None else map_of l k)" for l :: "(jstr \<times> json) list"
    by (induction l) auto
  show ?thesis by (simp add: v copyOwn_def f map_of_keyed_all)
qed

lemma ownProps_subset: "p \<in> set (ownProps (JObj m)) \<Longrightarrow> p \<in> set m"
  by (auto dest!: weak_map_of_SomeI intro: map_of_SomeD)

lemma json_ok_copyOwn:
  assumes "isPlainObject v" "json_ok Q v"
  shows "json_ok Q (JObj (copyOwn v omit))" "jdepth (JObj (copyOwn v omit)) \<le> jdepth v"
proof -
  from assms obtain m where v: "v = JObj m" by (auto simp: isPlainObject_iff)
  have sub: "p \<in> set m" if "p \<in> set (copyOwn v omit)" for p
    using that ownProps_subset [of p m] by (simp add: copyOwn_def v)
  have "distinct (map fst (ownProps (JObj m)))" using assms(2) v distinct_ownNames by (simp add: comp_def)
  then have "distinct (map fst (copyOwn v omit))" by (auto simp: copyOwn_def v distinct_map_filter)
  with sub assms(2) v show "json_ok Q (JObj (copyOwn v omit))" by (auto simp: list_all_iff)
  show "jdepth (JObj (copyOwn v omit)) \<le> jdepth v"
    unfolding jdepth_obj_le using sub jdepth_obj_member [of _ _ m] v by (metis prod.collapse)
qed

lemma json_ok_objPut:
  assumes "json_ok Q (JObj m)" "json_ok Q v" "\<not> isForbiddenKey k" "strIsWellFormed k" "list_all Q k"
  shows "json_ok Q (JObj (objPut k v m))"
  using assms by (auto simp: list_all_iff dest!: set_objPut)

lemma jdepth_objPut: "jdepth v < n \<Longrightarrow> jdepth (JObj m) \<le> n \<Longrightarrow> jdepth (JObj (objPut k v m)) \<le> n"
  unfolding jdepth_obj_le by (auto dest!: set_objPut)

subsection \<open>The receipt pre-image\<close>

text \<open>The document the receipt pre-image serialises: no \<open>chain.hash\<close>, no \<open>sig.value\<close>.\<close>

definition unsealed :: "json \<Rightarrow> json \<Rightarrow> json \<Rightarrow> json" where
  "unsealed r chain sig = JObj (objPut (U ''sig'') (JObj (copyOwn sig (Some (U ''value''))))
     (objPut (U ''chain'') (JObj (copyOwn chain (Some (U ''hash'')))) (copyOwn r None)))"

lemma ascii_key: "strIsWellFormed (U ''chain'')" "strIsWellFormed (U ''sig'')" "list_all isUnit (U ''chain'')"
  "list_all isUnit (U ''sig'')" "\<not> isForbiddenKey (U ''chain'')" "\<not> isForbiddenKey (U ''sig'')"
  by (simp_all add: U_def isHighSurrogate_def isLowSurrogate_def isUnit_def isForbiddenKey_def)

lemma unsealed_ok:
  assumes ok: "json_ok isUnit r" "jdepth r \<le> n" and p: "isPlainObject r" "isPlainObject chain" "isPlainObject sig"
    and g: "jget r (U ''chain'') = Some chain" "jget r (U ''sig'') = Some sig"
  shows "json_ok isUnit (unsealed r chain sig)" "jdepth (unsealed r chain sig) \<le> n"
proof -
  obtain m where m: "r = JObj m" using p(1) by (auto simp: isPlainObject_iff)
  have mem: "(U ''chain'', chain) \<in> set m" "(U ''sig'', sig) \<in> set m" using g by (auto simp: m dest: map_of_SomeD)
  note c = json_ok_member [OF ok(1) [unfolded m] mem(1)] json_ok_member [OF ok(1) [unfolded m] mem(2)]
  note d = jdepth_obj_member [OF mem(1)] jdepth_obj_member [OF mem(2)]
  show "json_ok isUnit (unsealed r chain sig)"
    unfolding unsealed_def by (intro json_ok_objPut json_ok_copyOwn p ok ascii_key) (use c in simp_all)
  show "jdepth (unsealed r chain sig) \<le> n"
    unfolding unsealed_def using json_ok_copyOwn(2) [OF p(1) ok(1), of None] ok(2) d m
      json_ok_copyOwn(2) [OF p(2), of isUnit "Some (U ''hash'')"] json_ok_copyOwn(2) [OF p(3), of isUnit "Some (U ''value'')"] c
    by (intro jdepth_objPut) (simp_all del: jdepth.simps)
qed

lemma receiptHashInput_unsealed:
  assumes "isPlainObject chain" "isPlainObject sig" "jget r (U ''chain'') = Some chain" "jget r (U ''sig'') = Some sig"
  shows "receiptHashInput r = canonicalOf (unsealed r chain sig)"
  using assms by (auto simp: receiptHashInput_def unsealed_def Let_def isPlainObject_iff)

lemma canonicalOf_ok: "json_ok isUnit v \<Longrightarrow> jdepth v \<le> 64 \<Longrightarrow> canonicalOf v = Inr (printJson (sortJson v))"
  by (simp add: canonicalOf_def canonicalize_ok)

lemma canonicalOf_eq_iff:
  assumes "json_ok isUnit u" "jdepth u \<le> 64" "json_ok isUnit v" "jdepth v \<le> 64"
  shows "canonicalOf u = canonicalOf v \<longleftrightarrow> sortJson u = sortJson v"
  using canonicalize_eq_iff [OF assms] assms by (simp add: canonicalOf_ok canonicalize_ok)

text \<open>A member of a document up to the order of the members inside it.\<close>

definition field :: "json \<Rightarrow> jstr \<Rightarrow> json option" where
  "field v k = map_option sortJson (jget v k)"

definition subfield :: "json \<Rightarrow> jstr \<Rightarrow> jstr \<Rightarrow> json option" where
  "subfield v k k' = (case jget v k of None \<Rightarrow> None | Some w \<Rightarrow> field w k')"

lemma field_unsealed:
  assumes p: "isPlainObject r" "isPlainObject chain" "isPlainObject sig"
    and g: "jget r (U ''chain'') = Some chain" "jget r (U ''sig'') = Some sig"
  shows "jget (sortJson (unsealed r chain sig)) k =
    (if k = U ''sig'' then Some (sortJson (JObj (copyOwn sig (Some (U ''value'')))))
     else if k = U ''chain'' then Some (sortJson (JObj (copyOwn chain (Some (U ''hash'')))))
     else field r k)"
proof -
  have "map_of (copyOwn r None) k = jget r k" using jget_copyOwn [OF p(1), of None k] by simp
  then show ?thesis unfolding jget_sortJson unsealed_def field_def by simp
qed

lemma sortJson_JObj_eqD: "sortJson (JObj a) = sortJson (JObj b) \<Longrightarrow> map_option sortJson (map_of a k) = map_option sortJson (map_of b k)"
  using jget_sortJson [of "JObj a" k] jget_sortJson [of "JObj b" k] by (simp del: sortJson.simps)

text \<open>The receipts agree on everything but \<open>chain.hash\<close> and \<open>sig.value\<close>.\<close>

definition same_but_seals :: "json \<Rightarrow> json \<Rightarrow> bool" where
  "same_but_seals r r' \<longleftrightarrow>
     (\<forall>k. k \<noteq> U ''chain'' \<and> k \<noteq> U ''sig'' \<longrightarrow> field r k = field r' k) \<and>
     (\<forall>k. k \<noteq> U ''hash'' \<longrightarrow> subfield r (U ''chain'') k = subfield r' (U ''chain'') k) \<and>
     (\<forall>k. k \<noteq> U ''value'' \<longrightarrow> subfield r (U ''sig'') k = subfield r' (U ''sig'') k)"

definition sealed_shape :: "json \<Rightarrow> bool" where
  "sealed_shape r \<longleftrightarrow> isPlainObject r \<and> (\<exists>c. jget r (U ''chain'') = Some c \<and> isPlainObject c) \<and>
     (\<exists>s. jget r (U ''sig'') = Some s \<and> isPlainObject s) \<and> json_ok isUnit r \<and> jdepth r \<le> 64"

lemma receiptHashInput_total: "sealed_shape r \<Longrightarrow> \<exists>s. receiptHashInput r = Inr s"
  using receiptHashInput_unsealed [of _ _ r] unsealed_ok [of r 64] canonicalOf_ok by (fastforce simp: sealed_shape_def)

lemma receiptHashInput_commits:
  assumes r: "sealed_shape r" "sealed_shape r'" and eq: "receiptHashInput r = receiptHashInput r'"
  shows "same_but_seals r r'"
proof -
  from r obtain c s c' s' where
    p: "isPlainObject r" "isPlainObject c" "isPlainObject s" and g: "jget r (U ''chain'') = Some c" "jget r (U ''sig'') = Some s"
    and p': "isPlainObject r'" "isPlainObject c'" "isPlainObject s'"
    and g': "jget r' (U ''chain'') = Some c'" "jget r' (U ''sig'') = Some s'"
    and ok: "json_ok isUnit r" "jdepth r \<le> 64" "json_ok isUnit r'" "jdepth r' \<le> 64"
    by (auto simp: sealed_shape_def)
  have e: "sortJson (unsealed r c s) = sortJson (unsealed r' c' s')"
    using eq canonicalOf_eq_iff unsealed_ok [OF ok(1,2) p g] unsealed_ok [OF ok(3,4) p' g']
    unfolding receiptHashInput_unsealed [OF p(2,3) g] receiptHashInput_unsealed [OF p'(2,3) g'] by blast
  have f: "jget (sortJson (unsealed r c s)) k = jget (sortJson (unsealed r' c' s')) k" for k by (simp only: e)
  have top: "field r k = field r' k" if "k \<noteq> U ''chain''" "k \<noteq> U ''sig''" for k
    using f [of k] that unfolding field_unsealed [OF p g] field_unsealed [OF p' g'] by simp
  have ch: "sortJson (JObj (copyOwn c (Some (U ''hash'')))) = sortJson (JObj (copyOwn c' (Some (U ''hash''))))"
    using f [of "U ''chain''"] unfolding field_unsealed [OF p g] field_unsealed [OF p' g'] by simp
  have sg: "sortJson (JObj (copyOwn s (Some (U ''value'')))) = sortJson (JObj (copyOwn s' (Some (U ''value''))))"
    using f [of "U ''sig''"] unfolding field_unsealed [OF p g] field_unsealed [OF p' g'] by simp
  have "field c k = field c' k" if "k \<noteq> U ''hash''" for k
    using sortJson_JObj_eqD [OF ch, of k] jget_copyOwn [OF p(2), of _ k] jget_copyOwn [OF p'(2), of _ k] that
    by (simp add: field_def)
  moreover have "field s k = field s' k" if "k \<noteq> U ''value''" for k
    using sortJson_JObj_eqD [OF sg, of k] jget_copyOwn [OF p(3), of _ k] jget_copyOwn [OF p'(3), of _ k] that
    by (simp add: field_def)
  ultimately show ?thesis using top g g' by (simp add: same_but_seals_def subfield_def)
qed

subsection \<open>The canonical text is well-formed Unicode\<close>

lemma strIsWellFormed_append: "strIsWellFormed a \<Longrightarrow> strIsWellFormed b \<Longrightarrow> strIsWellFormed (a @ b)"
  by (induction a rule: strIsWellFormed.induct) (auto split: list.splits)

lemma strIsWellFormed_ascii: "(\<And>c. c \<in> set s \<Longrightarrow> c < 0x80) \<Longrightarrow> strIsWellFormed s"
proof (induction s)
  case (Cons c s)
  then have "c < 0x80" "strIsWellFormed s" by simp_all
  then show ?case by (simp add: isHighSurrogate_def isLowSurrogate_def)
qed simp

definition text_ok :: "jstr \<Rightarrow> bool" where
  "text_ok s \<longleftrightarrow> strIsWellFormed s \<and> list_all isUnit s"

lemma text_ok_append [intro]: "text_ok a \<Longrightarrow> text_ok b \<Longrightarrow> text_ok (a @ b)"
  by (simp add: text_ok_def strIsWellFormed_append)

lemma text_ok_ascii: "(\<And>c. c \<in> set s \<Longrightarrow> 0 \<le> c \<and> c < 0x80) \<Longrightarrow> text_ok s"
  by (fastforce simp: text_ok_def list_all_iff isUnit_def intro!: strIsWellFormed_ascii)

lemma text_ok_U: "(\<And>c. c \<in> set s \<Longrightarrow> (of_char c :: int) < 0x80) \<Longrightarrow> text_ok (U s)"
  by (rule text_ok_ascii) (auto simp: U_def of_char_int_bounds)

lemma escapePoint_ascii: "0 \<le> c \<Longrightarrow> escapePoint c = [c] \<or> (\<forall>x\<in>set (escapePoint c). 0 \<le> x \<and> x < 0x80)"
proof (cases "c < 32")
  case True
  assume "0 \<le> c"
  with True have "0 \<le> c div 16" "c div 16 < 16" "0 \<le> c mod 16" "c mod 16 < 16" by auto
  then show ?thesis
    by (auto simp: escapePoint_def padStart0_def hexString_def hexChar_def)
qed (auto simp: escapePoint_def)

lemma text_ok_escapes: "strIsWellFormed s \<Longrightarrow> list_all isUnit s \<Longrightarrow> text_ok (concat (map escapePoint s))"
proof (induction s rule: strIsWellFormed.induct)
  case (2 c s)
  show ?case
  proof (cases "isHighSurrogate c")
    case True
    with "2.prems" obtain d s' where s: "s = d # s'" "isLowSurrogate d" "strIsWellFormed s'" by (auto split: list.splits)
    have "text_ok ([c, d] @ concat (map escapePoint s'))"
    proof (rule text_ok_append)
      show "text_ok [c, d]" using True s "2.prems"(2) by (simp add: text_ok_def)
    qed (use 2 True s in simp)
    with True s show ?thesis by (simp add: escapePoint_surrogate)
  next
    case False
    then have c: "\<not> isLowSurrogate c" "0 \<le> c" "isUnit c" using "2.prems" by (auto simp: isUnit_def)
    have "text_ok (escapePoint c)"
      using escapePoint_ascii [OF c(2)] False c by (auto simp: text_ok_def intro: text_ok_ascii [unfolded text_ok_def, THEN conjunct1]
        text_ok_ascii [unfolded text_ok_def, THEN conjunct2])
    with 2 False show ?thesis by auto
  qed
qed (simp add: text_ok_def)

lemma text_ok_quote: "strIsWellFormed s \<Longrightarrow> list_all isUnit s \<Longrightarrow> text_ok (quote s)"
  unfolding quote_def by (intro text_ok_append text_ok_escapes) (auto intro: text_ok_ascii)

lemma text_ok_join: "(\<And>s. s \<in> set ss \<Longrightarrow> text_ok s) \<Longrightarrow> text_ok (joinComma ss)"
proof (induction ss rule: joinComma.induct)
  case (3 x y zs)
  have "text_ok (x @ [44] @ joinComma (y # zs))"
    using 3 by (intro text_ok_append) (auto intro: text_ok_ascii)
  then show ?case by simp
qed (auto simp: text_ok_def)

lemma text_ok_print: "json_ok isUnit v \<Longrightarrow> text_ok (printJson v)"
proof (induction v)
  case (JNum n)
  have "0 \<le> c \<and> c < 0x80" if "c \<in> set (numToString n)" for c
    using that digits10_digits [of c] by (fastforce simp: numToString_def split: if_splits)
  then show ?case by (simp add: text_ok_ascii)
next
  case (JArr xs)
  then have "text_ok ([91] @ joinComma (map printJson xs) @ [93])"
    by (intro text_ok_append text_ok_join) (auto simp: list_all_iff intro: text_ok_ascii)
  then show ?case by simp
next
  case (JObj m)
  have el: "text_ok (quote k @ [58] @ printJson v)" if "(k, v) \<in> set m" for k v
    using json_ok_member [OF JObj.prems that] JObj.IH [OF that] by (intro text_ok_append text_ok_quote) (auto intro: text_ok_ascii)
  have "text_ok ([123] @ joinComma (map (\<lambda>(k, v). quote k @ [58] @ printJson v) m) @ [125])"
    using el by (intro text_ok_append text_ok_join) (auto intro: text_ok_ascii simp del: append.simps)
  then show ?case by simp
qed (auto simp: text_ok_quote intro!: text_ok_U)

lemma canonicalize_text_ok: "json_ok isUnit v \<Longrightarrow> jdepth v \<le> 64 \<Longrightarrow> canonicalize v = Inr s \<Longrightarrow> text_ok s"
  using canonicalize_ok [of isUnit v] text_ok_print [OF json_ok_sortJson] by auto

subsection \<open>Signing messages\<close>

lemma utf8Units_ascii: "(\<And>c. c \<in> set s \<Longrightarrow> 0 \<le> c \<and> c < 0x80) \<Longrightarrow> utf8Units s = s"
proof (induction s)
  case (Cons c s)
  then have "0 \<le> c" "c < 0x80" "utf8Units s = s" by simp_all
  then show ?case by (simp add: isHighSurrogate_def isLowSurrogate_def encodePoint_def)
qed simp

lemma signingMessage_domains: "signingMessage sha RECEIPT_SIG_DOMAIN x \<noteq> signingMessage sha' CHECKPOINT_SIG_DOMAIN y"
proof -
  have "utf8Encode (RECEIPT_SIG_DOMAIN @ [58]) ! 4 = 82" "length (utf8Encode (RECEIPT_SIG_DOMAIN @ [58])) = 21"
    "utf8Encode (CHECKPOINT_SIG_DOMAIN @ [58]) ! 4 = 67" "length (utf8Encode (CHECKPOINT_SIG_DOMAIN @ [58])) = 24"
    by code_simp+
  then have "signingMessage sha RECEIPT_SIG_DOMAIN x ! 4 = 82" "signingMessage sha' CHECKPOINT_SIG_DOMAIN y ! 4 = 67"
    by (simp_all add: signingMessage_def nth_append)
  moreover have "(82 :: byte) \<noteq> 67" by simp
  ultimately show ?thesis by metis
qed

section \<open>Properties\<close>

text \<open>
  (C11) Canonicalization is total on parsed documents and reversible: every document of the strict
  parser's shape, nested at most 64 deep, has a canonical text, the strict parser reads that text
  back as the same document with the members of every object in sorted order, and canonicalizing
  what was read gives the same text again.
\<close>

theorem canonical_round_trip:
  assumes "json_ok isUnit v" "jdepth v \<le> 64"
  shows "\<exists>s. canonicalize v = Inr s \<and> safeParseWith 64 (int (length s)) s = Inr (sortJson v) \<and> canonicalize (sortJson v) = Inr s"
proof -
  have "canonicalize (sortJson v) = canonicalize v"
    using canonicalize_eq_iff [of "sortJson v" v] json_ok_sortJson [OF assms(1)] jdepth_sortJson [of v] sortJson_idem assms by simp
  then show ?thesis using canonicalize_ok [OF assms] parse_canonical [OF assms] by auto
qed

theorem canonical_round_trip_witness:
  "\<exists>s. canonicalize (JObj [(U ''b'', JNum (-7)), (U ''a'', JStr [10, 233])]) = Inr s \<and>
     safeParseWith 64 (int (length s)) s = Inr (JObj [(U ''a'', JStr [10, 233]), (U ''b'', JNum (-7))]) \<and>
     canonicalize (JObj [(U ''a'', JStr [10, 233]), (U ''b'', JNum (-7))]) = Inr s"
proof -
  let ?v = "JObj [(U ''b'', JNum (-7)), (U ''a'', JStr [10, 233])]"
  have ok: "json_ok isUnit ?v" by code_simp
  have d: "jdepth ?v \<le> 64" by code_simp
  have s: "sortJson ?v = JObj [(U ''a'', JStr [10, 233]), (U ''b'', JNum (-7))]" by code_simp
  show ?thesis using canonical_round_trip [OF ok d] unfolding s .
qed

text \<open>
  (C12) The canonical text is a canonical form: two parsed documents have the same canonical text
  exactly when they are the same up to the order of object members.
\<close>

theorem canonical_text_determines_document:
  assumes "json_ok isUnit u" "jdepth u \<le> 64" "json_ok isUnit v" "jdepth v \<le> 64"
  shows "canonicalize u = canonicalize v \<longleftrightarrow> sortJson u = sortJson v"
  using assms by (rule canonicalize_eq_iff)

theorem canonical_text_determines_document_witness:
  "canonicalize (JArr [JNum 1]) \<noteq> canonicalize (JArr [JStr (U ''1'')])"
proof -
  have ok: "json_ok isUnit (JArr [JNum 1])" "json_ok isUnit (JArr [JStr (U ''1'')])" by code_simp+
  have d: "jdepth (JArr [JNum 1]) \<le> 64" "jdepth (JArr [JStr (U ''1'')]) \<le> 64" by code_simp+
  show ?thesis using canonical_text_determines_document [OF ok(1) d(1) ok(2) d(2)] by simp
qed

text \<open>
  (C13) The receipt pre-image commits to the whole receipt: two receipts with the same hash input agree
  on every member except \<open>chain.hash\<close> and \<open>sig.value\<close>, the signing key identifier \<open>sig.kid\<close> and the
  algorithm included.
\<close>

theorem receipt_preimage_commits:
  assumes "sealed_shape r" "sealed_shape r'" "receiptHashInput r = receiptHashInput r'"
  shows "same_but_seals r r'"
  using assms by (rule receiptHashInput_commits)

theorem receipt_preimage_commits_witness:
  "same_but_seals
     (JObj [(U ''chain'', JObj [(U ''seq'', JNum 0), (U ''hash'', JStr (U ''x''))]), (U ''sig'', JObj [(U ''kid'', JStr (U ''k''))])])
     (JObj [(U ''sig'', JObj [(U ''value'', JNull), (U ''kid'', JStr (U ''k''))]), (U ''chain'', JObj [(U ''seq'', JNum 0)])])"
  (is "same_but_seals ?r ?r'")
proof -
  have ok: "json_ok isUnit ?r" "json_ok isUnit ?r'" "jdepth ?r \<le> 64" "jdepth ?r' \<le> 64" by code_simp+
  have s: "sealed_shape ?r" "sealed_shape ?r'" using ok by (simp_all add: sealed_shape_def)
  have e: "receiptHashInput ?r = receiptHashInput ?r'" by code_simp
  show ?thesis by (rule receipt_preimage_commits [OF s e])
qed

text \<open>
  (C14) Receipt and checkpoint signatures are domain separated: whatever is signed, and whatever the
  digest function, a receipt signing message is never a checkpoint signing message.
\<close>

theorem signing_domains_separate:
  "signingMessage sha RECEIPT_SIG_DOMAIN x \<noteq> signingMessage sha' CHECKPOINT_SIG_DOMAIN y"
  by (rule signingMessage_domains)

end
