(* ===== verification/Schema.thy ===== *)
theory Schema
  imports Jcs
begin

text \<open>
  The strict structural validator of src/src/schema.ts, over parsed documents. The errors it pushes are
  one constructor each, in the order the source pushes them. The lemmas characterise the accepted
  receipts: \<open>wf_receipt\<close> says what an accepted receipt is (closed key sets, typed fields and the four
  coherence rules), independent of the order of the checks.
\<close>

section \<open>The validator\<close>

datatype coherence_rule = R1 | R2 | R3 | R4

datatype schema_error =
    NotAnObject
  | UnknownField jstr jstr
  | MissingField jstr jstr
  | BadField jstr
  | ObjectRequired jstr
  | Incoherent coherence_rule
  | DocumentRefused doc_reason

definition RECEIPT_SPEC :: jstr where
  "RECEIPT_SPEC = U ''noa.receipt/0.1''"

text \<open>\<open>membership\<close> (src/src/inert.ts): a string of the table.\<close>

definition memberOf :: "jstr list \<Rightarrow> json option \<Rightarrow> bool" where
  "memberOf tbl v = (case v of Some (JStr s) \<Rightarrow> s \<in> set tbl | _ \<Rightarrow> False)"

definition isRiskClass :: "json option \<Rightarrow> bool" where
  "isRiskClass = memberOf [U ''LOW'', U ''MEDIUM'', U ''HIGH'', U ''CRITICAL'', U ''IRREVERSIBLE'']"

definition isPrincipal :: "json option \<Rightarrow> bool" where
  "isPrincipal = memberOf [U ''HUMAN'', U ''SERVICE'', U ''POLICY'', U ''SANDBOX_SIM'']"

definition isMode :: "json option \<Rightarrow> bool" where
  "isMode = memberOf [U ''off'', U ''shadow'', U ''approvals_on'', U ''on'']"

definition isVerdict :: "json option \<Rightarrow> bool" where
  "isVerdict = memberOf [U ''ALLOWED'', U ''BLOCKED'', U ''DEFERRED'', U ''EXECUTED'', U ''FAILED'',
     U ''ROLLED_BACK'', U ''SIMULATED'']"

definition hasKey :: "json \<Rightarrow> jstr \<Rightarrow> bool" where
  "hasKey obj k = (jget obj k \<noteq> None)"

definition checkExactKeys :: "json \<Rightarrow> jstr list \<Rightarrow> jstr list \<Rightarrow> jstr \<Rightarrow> schema_error list" where
  "checkExactKeys obj required optional path =
     map (UnknownField path) (filter (\<lambda>k. k \<notin> set (required @ optional)) (objectKeys obj))
     @ map (MissingField path) (filter (\<lambda>k. \<not> hasKey obj k) required)"

text \<open>\<open>str(v)\<close>, and \<open>str(v)\<close> with a further test of the string.\<close>

definition strSat :: "(jstr \<Rightarrow> bool) \<Rightarrow> json option \<Rightarrow> bool" where
  "strSat P v = (case v of Some (JStr s) \<Rightarrow> strIsWellFormed s \<and> P s | _ \<Rightarrow> False)"

definition isStr :: "json option \<Rightarrow> bool" where
  "isStr = strSat (\<lambda>_. True)"

definition nonEmptyStr :: "json option \<Rightarrow> bool" where
  "nonEmptyStr = strSat (\<lambda>s. s \<noteq> [])"

fun isBool :: "json option \<Rightarrow> bool" where
  "isBool (Some (JBool b)) = True"
| "isBool _ = False"

definition orNull :: "(json option \<Rightarrow> bool) \<Rightarrow> json option \<Rightarrow> bool" where
  "orNull P v \<longleftrightarrow> v = Some JNull \<or> P v"

fun strCodePointCount :: "jstr \<Rightarrow> nat" where
  "strCodePointCount [] = 0"
| "strCodePointCount (c # s) =
     (if isHighSurrogate c \<and> s \<noteq> [] \<and> isLowSurrogate (hd s) then Suc (strCodePointCount (tl s))
      else Suc (strCodePointCount s))"

definition pushUnless :: "bool \<Rightarrow> schema_error \<Rightarrow> schema_error list" where
  "pushUnless ok e = (if ok then [] else [e])"

definition objectField :: "json \<Rightarrow> jstr \<Rightarrow> jstr \<Rightarrow> (json \<Rightarrow> schema_error list) \<Rightarrow> schema_error list" where
  "objectField r k path body =
     (case jget r k of
        Some v \<Rightarrow> if isPlainObject v then body v else [ObjectRequired path]
      | None \<Rightarrow> [ObjectRequired path])"

definition checkScope :: "json \<Rightarrow> schema_error list" where
  "checkScope scope =
     checkExactKeys scope [U ''chain''] [U ''tenant''] (U ''receipt.scope'')
     @ pushUnless (nonEmptyStr (jget scope (U ''chain''))) (BadField (U ''receipt.scope.chain''))
     @ pushUnless (\<not> (hasKey scope (U ''tenant'') \<and> \<not> isStr (jget scope (U ''tenant''))))
         (BadField (U ''receipt.scope.tenant''))"

definition checkAgent :: "json \<Rightarrow> schema_error list" where
  "checkAgent agent =
     checkExactKeys agent [U ''id'', U ''principal''] [U ''model''] (U ''receipt.agent'')
     @ pushUnless (nonEmptyStr (jget agent (U ''id''))) (BadField (U ''receipt.agent.id''))
     @ pushUnless (isPrincipal (jget agent (U ''principal''))) (BadField (U ''receipt.agent.principal''))
     @ pushUnless (\<not> (hasKey agent (U ''model'') \<and> \<not> orNull isStr (jget agent (U ''model''))))
         (BadField (U ''receipt.agent.model''))"

definition checkAction :: "json \<Rightarrow> schema_error list" where
  "checkAction action =
     checkExactKeys action [U ''id'', U ''canonical'', U ''riskClass'', U ''paramsHash'', U ''reversible'']
       [U ''rollbackRef''] (U ''receipt.action'')
     @ pushUnless (nonEmptyStr (jget action (U ''id''))) (BadField (U ''receipt.action.id''))
     @ pushUnless (nonEmptyStr (jget action (U ''canonical''))) (BadField (U ''receipt.action.canonical''))
     @ pushUnless (isRiskClass (jget action (U ''riskClass''))) (BadField (U ''receipt.action.riskClass''))
     @ pushUnless (strSat isParamsHash (jget action (U ''paramsHash''))) (BadField (U ''receipt.action.paramsHash''))
     @ pushUnless (isBool (jget action (U ''reversible''))) (BadField (U ''receipt.action.reversible''))
     @ pushUnless (\<not> (hasKey action (U ''rollbackRef'') \<and> \<not> orNull isStr (jget action (U ''rollbackRef''))))
         (BadField (U ''receipt.action.rollbackRef''))"

definition checkApproval :: "json \<Rightarrow> schema_error list" where
  "checkApproval a =
     (if isPlainObject a then
        checkExactKeys a [U ''by'', U ''at''] [] (U ''receipt.governance.approval'')
        @ pushUnless (isStr (jget a (U ''by''))) (BadField (U ''receipt.governance.approval.by''))
        @ pushUnless (strSat isRfc3339Instant (jget a (U ''at''))) (BadField (U ''receipt.governance.approval.at''))
      else [ObjectRequired (U ''receipt.governance.approval'')])"

definition checkComplianceField :: "json \<Rightarrow> schema_error list" where
  "checkComplianceField c =
     (if isPlainObject c then
        checkExactKeys c [U ''policyHash'', U ''readSetHash'', U ''inputsHash''] [U ''verdict'']
          (U ''receipt.governance.compliance'')
        @ concat (map (\<lambda>k. pushUnless (strSat isSha256Hash (jget c k))
            (BadField (U ''receipt.governance.compliance.'' @ k))) [U ''policyHash'', U ''readSetHash'', U ''inputsHash''])
        @ pushUnless (\<not> (hasKey c (U ''verdict'') \<and> \<not> memberOf [U ''ALLOW'', U ''DENY''] (jget c (U ''verdict''))))
            (BadField (U ''receipt.governance.compliance.verdict''))
      else [ObjectRequired (U ''receipt.governance.compliance'')])"

text \<open>\<open>if (has(o, k) && o[k] !== null) body(o[k])\<close>.\<close>

definition ifPresent :: "json \<Rightarrow> jstr \<Rightarrow> (json \<Rightarrow> schema_error list) \<Rightarrow> schema_error list" where
  "ifPresent obj k body = (case jget obj k of None \<Rightarrow> [] | Some v \<Rightarrow> if v = JNull then [] else body v)"

definition checkGovernance :: "json \<Rightarrow> schema_error list" where
  "checkGovernance g =
     checkExactKeys g [U ''mode'', U ''verdict'', U ''sandboxed''] [U ''ruleId'', U ''approval'', U ''compliance'']
       (U ''receipt.governance'')
     @ pushUnless (isMode (jget g (U ''mode''))) (BadField (U ''receipt.governance.mode''))
     @ pushUnless (isVerdict (jget g (U ''verdict''))) (BadField (U ''receipt.governance.verdict''))
     @ pushUnless (isBool (jget g (U ''sandboxed''))) (BadField (U ''receipt.governance.sandboxed''))
     @ pushUnless (\<not> (hasKey g (U ''ruleId'') \<and> \<not> orNull isStr (jget g (U ''ruleId''))))
         (BadField (U ''receipt.governance.ruleId''))
     @ ifPresent g (U ''approval'') checkApproval
     @ ifPresent g (U ''compliance'') checkComplianceField"

text \<open>The cross-field coherence rules, applied when the three objects are present.\<close>

definition isText :: "jstr \<Rightarrow> json option \<Rightarrow> bool" where
  "isText s v \<longleftrightarrow> v = Some (JStr s)"

definition rollbackRefPresent :: "json \<Rightarrow> bool" where
  "rollbackRefPresent action \<longleftrightarrow> hasKey action (U ''rollbackRef'') \<and> jget action (U ''rollbackRef'') \<noteq> Some JNull"

definition checkCoherence :: "json option \<Rightarrow> json option \<Rightarrow> json option \<Rightarrow> schema_error list" where
  "checkCoherence agent action governance =
     (case (agent, action, governance) of
        (Some ag, Some ac, Some g) \<Rightarrow>
          if isPlainObject ag \<and> isPlainObject ac \<and> isPlainObject g then
            (let principal = jget ag (U ''principal''); verdict = jget g (U ''verdict'');
                 sandboxed = jget g (U ''sandboxed''); reversible = jget ac (U ''reversible'') in
             pushUnless (\<not> (isText (U ''SANDBOX_SIM'') principal \<and> sandboxed = Some (JBool False))) (Incoherent R1)
             @ pushUnless (\<not> (isText (U ''SIMULATED'') verdict \<and> sandboxed = Some (JBool False))) (Incoherent R2)
             @ pushUnless (\<not> (reversible = Some (JBool False) \<and> rollbackRefPresent ac)) (Incoherent R3)
             @ pushUnless (\<not> (isText (U ''ROLLED_BACK'') verdict \<and> reversible = Some (JBool False))) (Incoherent R4))
          else []
      | _ \<Rightarrow> [])"

definition isSeq :: "json option \<Rightarrow> bool" where
  "isSeq v = (case v of Some (JNum n) \<Rightarrow> isSafeInteger n \<and> \<not> n < 0 | _ \<Rightarrow> False)"

definition checkChain :: "json \<Rightarrow> schema_error list" where
  "checkChain c =
     checkExactKeys c [U ''seq'', U ''prevHash'', U ''hash''] [] (U ''receipt.chain'')
     @ pushUnless (isSeq (jget c (U ''seq''))) (BadField (U ''receipt.chain.seq''))
     @ pushUnless (orNull (strSat isSha256Hash) (jget c (U ''prevHash''))) (BadField (U ''receipt.chain.prevHash''))
     @ pushUnless (strSat isSha256Hash (jget c (U ''hash''))) (BadField (U ''receipt.chain.hash''))"

definition checkSig :: "json \<Rightarrow> schema_error list" where
  "checkSig s =
     checkExactKeys s [U ''alg'', U ''kid'', U ''value''] [] (U ''receipt.sig'')
     @ pushUnless (isText (U ''ed25519'') (jget s (U ''alg''))) (BadField (U ''receipt.sig.alg''))
     @ pushUnless (nonEmptyStr (jget s (U ''kid''))) (BadField (U ''receipt.sig.kid''))
     @ pushUnless (nonEmptyStr (jget s (U ''value''))) (BadField (U ''receipt.sig.value''))"

text \<open>\<open>validateReceiptShapeParsed\<close>: the list of errors; the receipt is accepted when it is empty.\<close>

definition validateReceiptShapeParsed :: "json \<Rightarrow> schema_error list" where
  "validateReceiptShapeParsed r =
     (if \<not> isPlainObject r then [NotAnObject]
      else
        checkExactKeys r [U ''spec'', U ''id'', U ''ts'', U ''scope'', U ''agent'', U ''action'', U ''governance'',
          U ''chain'', U ''sig''] [] (U ''receipt'')
        @ pushUnless (isText RECEIPT_SPEC (jget r (U ''spec''))) (BadField (U ''receipt.spec''))
        @ pushUnless (strSat (\<lambda>s. s \<noteq> [] \<and> \<not> strCodePointCount s > 128) (jget r (U ''id'')))
            (BadField (U ''receipt.id''))
        @ pushUnless (strSat isRfc3339Instant (jget r (U ''ts''))) (BadField (U ''receipt.ts''))
        @ objectField r (U ''scope'') (U ''receipt.scope'') checkScope
        @ objectField r (U ''agent'') (U ''receipt.agent'') checkAgent
        @ objectField r (U ''action'') (U ''receipt.action'') checkAction
        @ objectField r (U ''governance'') (U ''receipt.governance'') checkGovernance
        @ checkCoherence (jget r (U ''agent'')) (jget r (U ''action'')) (jget r (U ''governance''))
        @ objectField r (U ''chain'') (U ''receipt.chain'') checkChain
        @ objectField r (U ''sig'') (U ''receipt.sig'') checkSig)"

definition validateReceiptShape :: "input \<Rightarrow> schema_error list" where
  "validateReceiptShape receipt =
     (case parseDocument receipt of Inl reason \<Rightarrow> [DocumentRefused reason] | Inr v \<Rightarrow> validateReceiptShapeParsed v)"

section \<open>What an accepted receipt is\<close>

text \<open>A closed object: all required members, and no member outside the two lists.\<close>

definition closed_object :: "json \<Rightarrow> jstr list \<Rightarrow> jstr list \<Rightarrow> bool" where
  "closed_object v req opt \<longleftrightarrow>
     (\<exists>m. v = JObj m \<and> fst ` set m \<subseteq> set req \<union> set opt \<and> set req \<subseteq> fst ` set m)"

definition optional_member :: "json \<Rightarrow> jstr \<Rightarrow> (json \<Rightarrow> bool) \<Rightarrow> bool" where
  "optional_member v k P \<longleftrightarrow> (\<forall>w. jget v k = Some w \<longrightarrow> P w)"

definition string_or_null :: "json \<Rightarrow> bool" where
  "string_or_null w \<longleftrightarrow> w = JNull \<or> isStr (Some w)"

definition wf_scope :: "json \<Rightarrow> bool" where
  "wf_scope s \<longleftrightarrow> closed_object s [U ''chain''] [U ''tenant''] \<and> nonEmptyStr (jget s (U ''chain'')) \<and>
     optional_member s (U ''tenant'') (\<lambda>w. isStr (Some w))"

definition wf_agent :: "json \<Rightarrow> bool" where
  "wf_agent a \<longleftrightarrow> closed_object a [U ''id'', U ''principal''] [U ''model''] \<and> nonEmptyStr (jget a (U ''id'')) \<and>
     isPrincipal (jget a (U ''principal'')) \<and> optional_member a (U ''model'') string_or_null"

definition wf_action :: "json \<Rightarrow> bool" where
  "wf_action a \<longleftrightarrow>
     closed_object a [U ''id'', U ''canonical'', U ''riskClass'', U ''paramsHash'', U ''reversible''] [U ''rollbackRef''] \<and>
     nonEmptyStr (jget a (U ''id'')) \<and> nonEmptyStr (jget a (U ''canonical'')) \<and> isRiskClass (jget a (U ''riskClass'')) \<and>
     strSat isParamsHash (jget a (U ''paramsHash'')) \<and> (\<exists>b. jget a (U ''reversible'') = Some (JBool b)) \<and>
     optional_member a (U ''rollbackRef'') string_or_null"

definition wf_approval :: "json \<Rightarrow> bool" where
  "wf_approval a \<longleftrightarrow> closed_object a [U ''by'', U ''at''] [] \<and> isStr (jget a (U ''by'')) \<and>
     strSat isRfc3339Instant (jget a (U ''at''))"

definition wf_compliance :: "json \<Rightarrow> bool" where
  "wf_compliance c \<longleftrightarrow> closed_object c [U ''policyHash'', U ''readSetHash'', U ''inputsHash''] [U ''verdict''] \<and>
     strSat isSha256Hash (jget c (U ''policyHash'')) \<and> strSat isSha256Hash (jget c (U ''readSetHash'')) \<and>
     strSat isSha256Hash (jget c (U ''inputsHash'')) \<and>
     optional_member c (U ''verdict'') (\<lambda>w. w = JStr (U ''ALLOW'') \<or> w = JStr (U ''DENY''))"

definition wf_governance :: "json \<Rightarrow> bool" where
  "wf_governance g \<longleftrightarrow>
     closed_object g [U ''mode'', U ''verdict'', U ''sandboxed''] [U ''ruleId'', U ''approval'', U ''compliance''] \<and>
     isMode (jget g (U ''mode'')) \<and> isVerdict (jget g (U ''verdict'')) \<and> (\<exists>b. jget g (U ''sandboxed'') = Some (JBool b)) \<and>
     optional_member g (U ''ruleId'') string_or_null \<and>
     optional_member g (U ''approval'') (\<lambda>w. w = JNull \<or> wf_approval w) \<and>
     optional_member g (U ''compliance'') (\<lambda>w. w = JNull \<or> wf_compliance w)"

definition wf_chain :: "json \<Rightarrow> bool" where
  "wf_chain c \<longleftrightarrow> closed_object c [U ''seq'', U ''prevHash'', U ''hash''] [] \<and>
     (\<exists>n. jget c (U ''seq'') = Some (JNum n) \<and> 0 \<le> n \<and> n \<le> MAX_SAFE_INTEGER) \<and>
     (jget c (U ''prevHash'') = Some JNull \<or> strSat isSha256Hash (jget c (U ''prevHash''))) \<and>
     strSat isSha256Hash (jget c (U ''hash''))"

definition wf_sig :: "json \<Rightarrow> bool" where
  "wf_sig s \<longleftrightarrow> closed_object s [U ''alg'', U ''kid'', U ''value''] [] \<and> jget s (U ''alg'') = Some (JStr (U ''ed25519'')) \<and>
     nonEmptyStr (jget s (U ''kid'')) \<and> nonEmptyStr (jget s (U ''value''))"

text \<open>
  The coherence rules, stated positively: a simulated actor or outcome is marked as sandboxed, and an
  irreversible action carries no rollback reference and was not rolled back.
\<close>

definition coherent :: "json \<Rightarrow> json \<Rightarrow> json \<Rightarrow> bool" where
  "coherent agent action g \<longleftrightarrow>
     (jget agent (U ''principal'') = Some (JStr (U ''SANDBOX_SIM'')) \<or> jget g (U ''verdict'') = Some (JStr (U ''SIMULATED''))
        \<longrightarrow> jget g (U ''sandboxed'') = Some (JBool True)) \<and>
     (jget action (U ''reversible'') = Some (JBool False) \<longrightarrow>
        optional_member action (U ''rollbackRef'') (\<lambda>w. w = JNull) \<and> jget g (U ''verdict'') \<noteq> Some (JStr (U ''ROLLED_BACK'')))"

definition wf_receipt :: "json \<Rightarrow> bool" where
  "wf_receipt r \<longleftrightarrow>
     closed_object r [U ''spec'', U ''id'', U ''ts'', U ''scope'', U ''agent'', U ''action'', U ''governance'',
       U ''chain'', U ''sig''] [] \<and>
     jget r (U ''spec'') = Some (JStr RECEIPT_SPEC) \<and>
     strSat (\<lambda>s. s \<noteq> [] \<and> strCodePointCount s \<le> 128) (jget r (U ''id'')) \<and> strSat isRfc3339Instant (jget r (U ''ts'')) \<and>
     (\<exists>scope agent action g chain sig.
        jget r (U ''scope'') = Some scope \<and> wf_scope scope \<and> jget r (U ''agent'') = Some agent \<and> wf_agent agent \<and>
        jget r (U ''action'') = Some action \<and> wf_action action \<and> jget r (U ''governance'') = Some g \<and> wf_governance g \<and>
        jget r (U ''chain'') = Some chain \<and> wf_chain chain \<and> jget r (U ''sig'') = Some sig \<and> wf_sig sig \<and>
        coherent agent action g)"

lemma pushUnless_Nil [simp]: "pushUnless b e = [] \<longleftrightarrow> b"
  by (simp add: pushUnless_def)

lemma objectField_Nil:
  "objectField r k p body = [] \<longleftrightarrow> (\<exists>v. jget r k = Some v \<and> isPlainObject v \<and> body v = [])"
  by (auto simp: objectField_def split: option.splits)

lemma ifPresent_Nil: "ifPresent v k body = [] \<longleftrightarrow> optional_member v k (\<lambda>w. w = JNull \<or> body w = [])"
  by (auto simp: ifPresent_def optional_member_def split: option.splits)

lemma hasKey_JObj: "hasKey (JObj m) k \<longleftrightarrow> k \<in> fst ` set m"
  using map_of_eq_None_iff [of m k] by (auto simp: hasKey_def)

lemma closed_object_check: "closed_object v req opt \<longleftrightarrow> isPlainObject v \<and> checkExactKeys v req opt p = []"
proof (cases v)
  case (JObj m)
  have "(filter (\<lambda>k. k \<notin> set (req @ opt)) (ownNames m) = []) \<longleftrightarrow> fst ` set m \<subseteq> set req \<union> set opt"
    unfolding filter_empty_conv set_ownNames by auto
  moreover have "(filter (\<lambda>k. \<not> hasKey v k) req = []) \<longleftrightarrow> set req \<subseteq> fst ` set m"
    unfolding filter_empty_conv JObj hasKey_JObj by auto
  ultimately show ?thesis by (simp add: JObj closed_object_def checkExactKeys_def)
qed (auto simp: closed_object_def)

lemma present_implies: "(hasKey v k \<longrightarrow> P (jget v k)) \<longleftrightarrow> optional_member v k (\<lambda>w. P (Some w))"
  by (cases "jget v k") (auto simp: hasKey_def optional_member_def)

lemma orNull_isStr: "orNull isStr (Some w) \<longleftrightarrow> string_or_null w"
  by (simp add: orNull_def string_or_null_def)

lemma isBool_iff: "isBool v \<longleftrightarrow> (\<exists>b. v = Some (JBool b))"
  by (cases v rule: isBool.cases) auto

lemma isSeq_iff: "isSeq v \<longleftrightarrow> (\<exists>n. v = Some (JNum n) \<and> 0 \<le> n \<and> n \<le> MAX_SAFE_INTEGER)"
  by (auto simp: isSeq_def isSafeInteger_def MAX_SAFE_INTEGER_def split: option.splits json.splits)

lemma memberOf_Some: "memberOf t (Some w) \<longleftrightarrow> (\<exists>s\<in>set t. w = JStr s)"
  by (auto simp: memberOf_def split: json.splits)

lemma checkExactKeys_Nil: "isPlainObject v \<Longrightarrow> checkExactKeys v req opt p = [] \<longleftrightarrow> closed_object v req opt"
  using closed_object_check [of v req opt p] by simp

lemmas check_Nil = present_implies [where P = isStr] present_implies [where P = "orNull isStr"]
  present_implies [where P = "memberOf t" for t] orNull_isStr isBool_iff isSeq_iff memberOf_Some ifPresent_Nil
  checkExactKeys_Nil append_is_Nil_conv pushUnless_Nil

lemma closed_object_plain: "closed_object v req opt \<Longrightarrow> isPlainObject v"
  by (auto simp: closed_object_def)

lemma checkScope_Nil: "isPlainObject s \<Longrightarrow> checkScope s = [] \<longleftrightarrow> wf_scope s"
  unfolding checkScope_def wf_scope_def by (simp add: check_Nil)

lemma checkAgent_Nil: "isPlainObject s \<Longrightarrow> checkAgent s = [] \<longleftrightarrow> wf_agent s"
  unfolding checkAgent_def wf_agent_def by (simp add: check_Nil)

lemma checkAction_Nil: "isPlainObject s \<Longrightarrow> checkAction s = [] \<longleftrightarrow> wf_action s"
  unfolding checkAction_def wf_action_def by (simp add: check_Nil)

lemma checkApproval_Nil: "checkApproval a = [] \<longleftrightarrow> wf_approval a"
  unfolding checkApproval_def wf_approval_def using closed_object_plain [of a] by (auto simp: check_Nil)

lemma checkCompliance_Nil: "checkComplianceField c = [] \<longleftrightarrow> wf_compliance c"
  unfolding checkComplianceField_def wf_compliance_def using closed_object_plain [of c] by (auto simp: check_Nil)

lemma checkGovernance_Nil: "isPlainObject g \<Longrightarrow> checkGovernance g = [] \<longleftrightarrow> wf_governance g"
  unfolding checkGovernance_def wf_governance_def by (simp add: check_Nil checkApproval_Nil checkCompliance_Nil)

lemma checkChain_Nil: "isPlainObject c \<Longrightarrow> checkChain c = [] \<longleftrightarrow> wf_chain c"
  unfolding checkChain_def wf_chain_def by (simp add: check_Nil orNull_def)

lemma checkSig_Nil: "isPlainObject s \<Longrightarrow> checkSig s = [] \<longleftrightarrow> wf_sig s"
  unfolding checkSig_def wf_sig_def by (simp add: check_Nil isText_def)

lemma checkCoherence_Nil:
  assumes "wf_agent ag" "wf_action ac" "wf_governance g"
  shows "checkCoherence (Some ag) (Some ac) (Some g) = [] \<longleftrightarrow> coherent ag ac g"
proof -
  have p: "isPlainObject ag" "isPlainObject ac" "isPlainObject g"
    using assms closed_object_plain unfolding wf_agent_def wf_action_def wf_governance_def by blast+
  from assms(3) obtain b where b: "jget g (U ''sandboxed'') = Some (JBool b)" by (auto simp: wf_governance_def)
  from assms(2) obtain b' where b': "jget ac (U ''reversible'') = Some (JBool b')" by (auto simp: wf_action_def)
  have r: "rollbackRefPresent ac \<longleftrightarrow> \<not> optional_member ac (U ''rollbackRef'') (\<lambda>w. w = JNull)"
    by (auto simp: rollbackRefPresent_def hasKey_def optional_member_def)
  show ?thesis unfolding checkCoherence_def coherent_def Let_def
    by (simp add: p b b' isText_def r) blast
qed

lemma objectField_wf:
  assumes "\<And>v. isPlainObject v \<Longrightarrow> body v = [] \<longleftrightarrow> P v" "\<And>v. P v \<Longrightarrow> isPlainObject v"
  shows "objectField r k p body = [] \<longleftrightarrow> (\<exists>v. jget r k = Some v \<and> P v)"
  using assms by (auto simp: objectField_Nil)

lemma wf_parts_plain:
  "wf_scope v \<Longrightarrow> isPlainObject v" "wf_agent v \<Longrightarrow> isPlainObject v" "wf_action v \<Longrightarrow> isPlainObject v"
  "wf_governance v \<Longrightarrow> isPlainObject v" "wf_chain v \<Longrightarrow> isPlainObject v" "wf_sig v \<Longrightarrow> isPlainObject v"
  unfolding wf_scope_def wf_agent_def wf_action_def wf_governance_def wf_chain_def wf_sig_def
  using closed_object_plain by blast+

lemmas objectField_parts =
  objectField_wf [of checkScope wf_scope, OF checkScope_Nil wf_parts_plain(1)]
  objectField_wf [of checkAgent wf_agent, OF checkAgent_Nil wf_parts_plain(2)]
  objectField_wf [of checkAction wf_action, OF checkAction_Nil wf_parts_plain(3)]
  objectField_wf [of checkGovernance wf_governance, OF checkGovernance_Nil wf_parts_plain(4)]
  objectField_wf [of checkChain wf_chain, OF checkChain_Nil wf_parts_plain(5)]
  objectField_wf [of checkSig wf_sig, OF checkSig_Nil wf_parts_plain(6)]

lemma validate_Nil: "validateReceiptShapeParsed r = [] \<longleftrightarrow> wf_receipt r"
proof (cases "isPlainObject r")
  case True
  then show ?thesis
    unfolding validateReceiptShapeParsed_def wf_receipt_def
    by (simp only: not_True_eq_False if_False append_is_Nil_conv objectField_parts pushUnless_Nil
        checkExactKeys_Nil [OF True] isText_def not_less) (use checkCoherence_Nil in auto)
next
  case False
  then show ?thesis using closed_object_plain by (auto simp: validateReceiptShapeParsed_def wf_receipt_def)
qed

text \<open>The facts of an accepted receipt the verifier relies on.\<close>

lemma wf_receipt_parts:
  assumes "wf_receipt r"
  shows "isPlainObject r" "\<exists>c. jget r (U ''chain'') = Some c \<and> isPlainObject c" "\<exists>s. jget r (U ''sig'') = Some s \<and> isPlainObject s"
  using assms wf_parts_plain closed_object_plain unfolding wf_receipt_def by blast+

lemma wf_receipt_sealed_shape: "wf_receipt r \<Longrightarrow> json_ok isUnit r \<Longrightarrow> jdepth r \<le> 64 \<Longrightarrow> sealed_shape r"
  using wf_receipt_parts by (simp add: sealed_shape_def)

section \<open>Properties\<close>

text \<open>
  (C15) The validator accepts exactly the well-formed receipts: closed key sets at every level, every
  field of its type and format, and no receipt that contradicts itself (a simulation is marked as
  sandboxed, an irreversible action has no rollback reference and was not rolled back).
\<close>

theorem schema_accepts_exactly_wf: "validateReceiptShapeParsed r = [] \<longleftrightarrow> wf_receipt r"
  by (rule validate_Nil)

end
