(* ===== verification/Keys.thy ===== *)
theory Keys
  imports Jcs
begin

text \<open>
  Ed25519 key handling of src/src/keys.ts: the strict public-key and signature rules over BigInt field
  arithmetic, the remembered subgroup results, and \<open>verifyEd25519\<close>. What the code takes from the
  platform (SHA-256, base64 decoding, DER import and export, the signature equation, NFC, \<open>Date.parse\<close>)
  is the record \<open>host\<close>. The lemmas show that modular exponentiation is exponentiation, that a decoded
  point lies on the curve and has exactly one accepted encoding, that the remembered results never
  change an answer, and what an accepted signature satisfies.
\<close>

section \<open>The platform\<close>

record host =
  sha256 :: "byte list \<Rightarrow> byte list"
  fromBase64 :: "jstr \<Rightarrow> byte list"                       \<comment> \<open>\<open>Buffer.from(s, "base64")\<close>, lenient\<close>
  importSpki :: "byte list \<Rightarrow> (jstr \<times> byte list) option"   \<comment> \<open>key type and exported SPKI DER, or a throw\<close>
  importPkcs8 :: "byte list \<Rightarrow> (jstr \<times> byte list) option"
  edVerify :: "byte list \<Rightarrow> byte list \<Rightarrow> byte list \<Rightarrow> bool"  \<comment> \<open>message, key DER, signature\<close>
  edSign :: "byte list \<Rightarrow> byte list \<Rightarrow> byte list"            \<comment> \<open>message, private key\<close>
  normalizeNfc :: "jstr \<Rightarrow> jstr"
  dateParse :: "jstr \<Rightarrow> int option"                        \<comment> \<open>\<^const>\<open>None\<close> for \<open>NaN\<close>\<close>

section \<open>Base64\<close>

definition base64Char :: "int \<Rightarrow> int" where
  "base64Char v = (if v < 26 then 65 + v else if v < 52 then 71 + v else if v < 62 then v - 4
     else if v = 62 then 43 else 47)"

text \<open>\<open>buf.toString("base64")\<close>.\<close>

fun toBase64 :: "byte list \<Rightarrow> jstr" where
  "toBase64 [] = []"
| "toBase64 [a] = [base64Char (uint a div 4), base64Char (uint a mod 4 * 16), 61, 61]"
| "toBase64 [a, b] = [base64Char (uint a div 4), base64Char (uint a mod 4 * 16 + uint b div 16),
     base64Char (uint b mod 16 * 4), 61]"
| "toBase64 (a # b # c # bs) = base64Char (uint a div 4) # base64Char (uint a mod 4 * 16 + uint b div 16)
     # base64Char (uint b mod 16 * 4 + uint c div 64) # base64Char (uint c mod 64) # toBase64 bs"

section \<open>Field arithmetic\<close>

text \<open>BigInt \<open>%\<close> truncates towards zero.\<close>

definition bigRem :: "int \<Rightarrow> int \<Rightarrow> int" where
  "bigRem a b = (if a < 0 then - ((- a) mod b) else a mod b)"

definition P25519 :: int where
  "P25519 = 2 ^ 255 - 19"

definition D25519 :: int where
  "D25519 = 37095705934669439343138083508754565189542113879843219016388785533085940283555"

definition SQRT_M1_25519 :: int where
  "SQRT_M1_25519 = 19681161376707505956807079304988542015446066515923890162744021073123829784752"

definition L25519 :: int where
  "L25519 = 2 ^ 252 + 27742317777372353535851937790883648493"

definition fieldMod :: "int \<Rightarrow> int" where
  "fieldMod a = (let r = bigRem a P25519 in if r < 0 then r + P25519 else r)"

function modPowLoop :: "int \<Rightarrow> int \<Rightarrow> int \<Rightarrow> int \<Rightarrow> int" where
  "modPowLoop m result b e =
     (if e > 0
      then modPowLoop m (if e mod 2 = 1 then bigRem (result * b) m else result) (bigRem (b * b) m) (e div 2)
      else result)"
  by pat_completeness auto
termination by (relation "measure (\<lambda>(m, result, b, e). nat e)") auto

declare modPowLoop.simps [simp del]

definition modPow :: "int \<Rightarrow> int \<Rightarrow> int \<Rightarrow> int" where
  "modPow base exp m = modPowLoop m 1 (bigRem base m) exp"

section \<open>Strict point decoding\<close>

text \<open>\<open>y = (y << 8n) | byte\<close> from the last byte to the first.\<close>

definition littleEndian :: "byte list \<Rightarrow> int" where
  "littleEndian bs = foldr (\<lambda>b y. y * 256 + uint b) bs 0"

definition clearTopBit :: "byte list \<Rightarrow> byte list" where
  "clearTopBit raw = raw[31 := word_of_int (uint (raw ! 31) mod 128)]"

definition decodeStrictEd25519Point :: "byte list \<Rightarrow> (int \<times> int) option" where
  "decodeStrictEd25519Point raw =
     (if length raw \<noteq> 32 then None
      else
        (let xSign = (uint (raw ! 31) \<ge> 128);
             y = littleEndian (clearTopBit raw) in
         if y \<ge> P25519 then None
         else
           (let y2 = bigRem (y * y) P25519;
                u = fieldMod (y2 - 1);
                v = bigRem (D25519 * y2 + 1) P25519;
                v3 = bigRem (bigRem (v * v) P25519 * v) P25519;
                v7 = bigRem (bigRem (v3 * v3) P25519 * v) P25519;
                x = bigRem (bigRem (u * v3) P25519
                      * modPow (bigRem (u * v7) P25519) ((P25519 - 5) div 8) P25519) P25519;
                vx2 = bigRem (v * bigRem (x * x) P25519) P25519 in
            if vx2 \<noteq> u \<and> vx2 \<noteq> fieldMod (- u) then None
            else
              (let x' = (if vx2 \<noteq> u then bigRem (x * SQRT_M1_25519) P25519 else x) in
               if x' = 0 \<and> xSign then None
               else Some (if (x' mod 2 = 1) \<noteq> xSign then P25519 - x' else x', y)))))"

section \<open>The prime-order subgroup\<close>

type_synonym epoint = "int \<times> int \<times> int \<times> int"

definition extendedAdd :: "epoint \<Rightarrow> epoint \<Rightarrow> epoint" where
  "extendedAdd = (\<lambda>(p0, p1, p2, p3) (q0, q1, q2, q3).
     (let a = bigRem ((p1 - p0) * (q1 - q0)) P25519;
          b = bigRem ((p1 + p0) * (q1 + q0)) P25519;
          c = bigRem (bigRem (2 * p3) P25519 * bigRem (q3 * D25519) P25519) P25519;
          d = bigRem (bigRem (2 * p2) P25519 * q2) P25519;
          e = b - a; f = d - c; g = d + c; h = b + a in
      (bigRem (e * f) P25519, bigRem (g * h) P25519, bigRem (f * g) P25519, bigRem (e * h) P25519)))"

text \<open>The loop from bit 252 of \<open>L\<close> down to bit 0.\<close>

definition ladderStep :: "epoint \<Rightarrow> epoint \<Rightarrow> nat \<Rightarrow> epoint" where
  "ladderStep base acc i =
     (let acc' = extendedAdd acc acc in
      if (L25519 div 2 ^ i) mod 2 = 1 then extendedAdd acc' base else acc')"

definition isInPrimeOrderSubgroup :: "int \<times> int \<Rightarrow> bool" where
  "isInPrimeOrderSubgroup point =
     (let (px, py) = point;
          base = (px, py, 1, bigRem (px * py) P25519);
          (a0, a1, a2, a3) = foldl (ladderStep base) (0, 1, 1, 0) (rev [0..<253]) in
      fieldMod a0 = 0 \<and> fieldMod (a1 - a2) = 0)"

definition smallOrderPubkeys :: "jstr list" where
  "smallOrderPubkeys =
     [U ''0100000000000000000000000000000000000000000000000000000000000000'',
      U ''ecffffffffffffffffffffffffffffffffffffffffffffffffffffffffffff7f'',
      U ''0000000000000000000000000000000000000000000000000000000000000000'',
      U ''0000000000000000000000000000000000000000000000000000000000000080'',
      U ''26e8958fc2b227b045c3f489f2ef98f0d5dfac05d3c63339b13802886d53fc05'',
      U ''26e8958fc2b227b045c3f489f2ef98f0d5dfac05d3c63339b13802886d53fc85'',
      U ''c7176a703d4dd84fba3c0b760d10670f2a2053fa2c39ccc64ec7fd7792ac037a'',
      U ''c7176a703d4dd84fba3c0b760d10670f2a2053fa2c39ccc64ec7fd7792ac03fa'']"

definition isSmallOrderPubkey :: "jstr \<Rightarrow> bool" where
  "isSmallOrderPubkey hex \<longleftrightarrow> hex \<in> set smallOrderPubkeys"

text \<open>
  The rule without the remembered results, and the code's rule with the cache passed as state: an
  association of key hex to result, replaced by an empty one when it holds 4096 entries.
\<close>

definition isStrictEd25519PublicKeyBytes :: "byte list \<Rightarrow> bool" where
  "isStrictEd25519PublicKeyBytes raw =
     (case decodeStrictEd25519Point raw of
        None \<Rightarrow> False
      | Some point \<Rightarrow> if isSmallOrderPubkey (toHex raw) then False else isInPrimeOrderSubgroup point)"

type_synonym subgroup_cache = "(jstr \<times> bool) list"

definition isStrictEd25519PublicKeyBytesCached :: "subgroup_cache \<Rightarrow> byte list \<Rightarrow> bool \<times> subgroup_cache" where
  "isStrictEd25519PublicKeyBytesCached cache raw =
     (case decodeStrictEd25519Point raw of
        None \<Rightarrow> (False, cache)
      | Some point \<Rightarrow>
          (let hex = toHex raw in
           if isSmallOrderPubkey hex then (False, cache)
           else case map_of cache hex of
             Some known \<Rightarrow> (known, cache)
           | None \<Rightarrow>
               (let result = isInPrimeOrderSubgroup point;
                    cache' = (if length cache \<ge> 4096 then [] else cache) in
                (result, cache' @ [(hex, result)]))))"

definition isStrictEd25519SignatureRBytes :: "byte list \<Rightarrow> bool" where
  "isStrictEd25519SignatureRBytes raw =
     (if decodeStrictEd25519Point raw = None then False else \<not> isSmallOrderPubkey (toHex raw))"

section \<open>Signing and verifying\<close>

datatype sign_error = KeyImportFailed | NotEd25519

definition signEd25519 :: "host \<Rightarrow> jstr \<Rightarrow> byte list \<Rightarrow> sign_error + jstr" where
  "signEd25519 H privateKeyB64 message =
     (case importPkcs8 H (fromBase64 H privateKeyB64) of
        None \<Rightarrow> Inl KeyImportFailed
      | Some (kty, key) \<Rightarrow>
          if kty \<noteq> U ''ed25519'' then Inl NotEd25519 else Inr (toBase64 (edSign H message key)))"

definition verifyEd25519 :: "host \<Rightarrow> jstr \<Rightarrow> byte list \<Rightarrow> jstr \<Rightarrow> bool" where
  "verifyEd25519 H publicKeyB64 message signatureB64 =
     (let der = fromBase64 H publicKeyB64 in
      if toBase64 der \<noteq> publicKeyB64 then False
      else case importSpki H der of
        None \<Rightarrow> False
      | Some (kty, canonical) \<Rightarrow>
          if kty \<noteq> U ''ed25519'' then False
          else if canonical \<noteq> der then False
          else if \<not> isStrictEd25519PublicKeyBytes (drop 12 canonical) then False
          else
            (let sigBytes = fromBase64 H signatureB64 in
             if length sigBytes \<noteq> 64 \<or> toBase64 sigBytes \<noteq> signatureB64 then False
             else if \<not> isStrictEd25519SignatureRBytes (take 32 sigBytes) then False
             else if littleEndian (drop 32 sigBytes) \<ge> L25519 then False
             else edVerify H message canonical sigBytes))"

text \<open>A keyring maps a key id to its base64 public key; an identity manifest maps an agent to its keys.\<close>

type_synonym keyring = "(jstr \<times> jstr) list"

section \<open>Arithmetic modulo the field prime\<close>

lemma bigRem_nonneg: "0 \<le> a \<Longrightarrow> bigRem a m = a mod m"
  by (simp add: bigRem_def)

lemma P25519_pos [simp]: "0 < P25519"
  by (simp add: P25519_def)

lemma fieldMod_mod: "fieldMod a = a mod P25519"
proof (cases "a < 0")
  case True
  then have "bigRem a P25519 = - ((- a) mod P25519)" by (simp add: bigRem_def)
  moreover have "0 < (- a) mod P25519" if "(- a) mod P25519 \<noteq> 0"
    using that pos_mod_sign [OF P25519_pos, of "- a"] by linarith
  moreover have "a mod P25519 = (if (- a) mod P25519 = 0 then 0 else P25519 - (- a) mod P25519)"
    using zmod_zminus1_eq_if [of "- a" P25519] by simp
  ultimately show ?thesis unfolding fieldMod_def Let_def by (cases "(- a) mod P25519 = 0") simp_all
next
  case False
  have "\<not> a mod P25519 < 0" by (simp add: not_less)
  with False show ?thesis by (simp add: fieldMod_def bigRem_def Let_def)
qed

lemma modPowLoop_power:
  assumes "1 < m"
  shows "0 \<le> r \<Longrightarrow> r < m \<Longrightarrow> 0 \<le> b \<Longrightarrow> modPowLoop m r b e = r * b ^ nat e mod m"
proof (induction m r b e rule: modPowLoop.induct)
  case (1 m r b e)
  show ?case
  proof (cases "e > 0")
    case True
    let ?r = "if e mod 2 = 1 then bigRem (r * b) m else r"
    have m: "0 < m" using "1.prems" by simp
    have r: "0 \<le> ?r" "?r < m" using "1.prems" m by (simp_all add: bigRem_nonneg)
    have b: "0 \<le> bigRem (b * b) m" "bigRem (b * b) m = b * b mod m" using "1.prems" m by (simp_all add: bigRem_nonneg)
    have "modPowLoop m r b e = modPowLoop m ?r (bigRem (b * b) m) (e div 2)"
      using True by (subst modPowLoop.simps) simp
    also have "\<dots> = ?r * (b * b mod m) ^ nat (e div 2) mod m"
      using "1.IH" [OF True r b(1)] b(2) by simp
    also have "\<dots> = ?r * (b * b) ^ nat (e div 2) mod m" by (metis mod_mult_right_eq power_mod)
    also have "\<dots> = (if e mod 2 = 1 then r * b else r) * (b * b) ^ nat (e div 2) mod m"
      using "1.prems" by (simp add: bigRem_nonneg mod_mult_left_eq)
    also have "(if e mod 2 = 1 then r * b else r) * (b * b) ^ nat (e div 2) = r * b ^ nat e"
    proof -
      have "nat e = nat (e mod 2 + 2 * (e div 2))" by simp
      also have "\<dots> = nat (e mod 2) + 2 * nat (e div 2)" using True by (subst nat_add_distrib) (simp_all add: nat_mult_distrib)
      finally have "b ^ nat e = b ^ nat (e mod 2) * (b * b) ^ nat (e div 2)"
        by (simp add: power_add power_mult power2_eq_square)
      moreover have "e mod 2 = 0 \<or> e mod 2 = 1" by auto
      ultimately show ?thesis by (auto simp: mult.assoc)
    qed
    finally show ?thesis .
  next
    case False
    with "1.prems" show ?thesis by (subst modPowLoop.simps) simp
  qed
qed

lemma modPow_power: "1 < m \<Longrightarrow> 0 \<le> base \<Longrightarrow> modPow base e m = base ^ nat e mod m"
  using modPowLoop_power [of m 1 "base mod m" e] by (simp add: modPow_def bigRem_nonneg power_mod)

section \<open>Strict decoding\<close>

lemma littleEndian_Cons: "littleEndian (b # bs) = littleEndian bs * 256 + uint b"
  by (simp add: littleEndian_def)

lemma littleEndian_Nil [simp]: "littleEndian [] = 0"
  by (simp add: littleEndian_def)

lemma littleEndian_nonneg: "0 \<le> littleEndian bs"
  by (induction bs) (simp_all add: littleEndian_Cons)

lemma littleEndian_inject: "length as = length bs \<Longrightarrow> littleEndian as = littleEndian bs \<Longrightarrow> as = bs"
proof (induction as bs rule: list_induct2)
  case (Cons a as b bs)
  have r: "0 \<le> uint a" "uint a < 256" "0 \<le> uint b" "uint b < 256"
    using uint_lt2p [of a] uint_lt2p [of b] by simp_all
  have "littleEndian as = littleEndian bs \<and> uint a = uint b"
    using Cons.prems mult_lex_order(2) [OF r(3,4) r(1,2), of "littleEndian as" "littleEndian bs"]
    by (simp add: littleEndian_Cons)
  with Cons.IH show ?case by (auto intro: word_uint_eqI)
qed simp

lemma point_bytes_inject:
  assumes "length a = 32" "length b = 32" "littleEndian (clearTopBit a) = littleEndian (clearTopBit b)"
    and sign: "uint (a ! 31) \<ge> 128 \<longleftrightarrow> uint (b ! 31) \<ge> 128"
  shows "a = b"
proof -
  have eq: "clearTopBit a = clearTopBit b"
    by (rule littleEndian_inject [OF _ assms(3)]) (simp add: clearTopBit_def assms(1,2))
  have low: "a ! i = b ! i" if "i < 31" for i
    using arg_cong [OF eq, of "\<lambda>l. l ! i"] that by (simp add: clearTopBit_def)
  have "(word_of_int (uint (a ! 31) mod 128) :: byte) = word_of_int (uint (b ! 31) mod 128)"
    using arg_cong [OF eq, of "\<lambda>l. l ! 31"] assms(1,2) by (simp add: clearTopBit_def)
  then have "uint (word_of_int (uint (a ! 31) mod 128) :: byte) = uint (word_of_int (uint (b ! 31) mod 128) :: byte)"
    by simp
  moreover have "0 \<le> uint x mod 128 \<and> uint x mod 128 < 256" for x :: byte
    using pos_mod_bound [of 128 "uint x"] by simp
  ultimately have m: "uint (a ! 31) mod 128 = uint (b ! 31) mod 128"
    by (simp add: uint_word_of_int)
  have top: "uint x = uint x mod 128 + (if uint x \<ge> 128 then 128 else 0)" for x :: byte
  proof -
    have "0 \<le> uint x" "uint x < 256" using uint_lt2p [of x] by simp_all
    moreover have "uint x mod 128 = uint x - 128" if "uint x \<ge> 128"
      using that \<open>uint x < 256\<close> minus_mod_self2 [of "uint x" 128] mod_pos_pos_trivial [of "uint x - 128" 128] by linarith
    ultimately show ?thesis by (cases "uint x \<ge> 128") simp_all
  qed
  have "uint (a ! 31) = uint (a ! 31) mod 128 + (if uint (a ! 31) \<ge> 128 then 128 else 0)" by (rule top)
  also have "\<dots> = uint (b ! 31) mod 128 + (if uint (b ! 31) \<ge> 128 then 128 else 0)" by (simp only: m sign)
  also have "\<dots> = uint (b ! 31)" by (rule top [symmetric])
  finally have "a ! 31 = b ! 31" by (rule word_uint_eqI)
  with low have "a ! i = b ! i" if "i < 32" for i using that by (cases "i = 31") auto
  with assms(1,2) show ?thesis by (auto intro: nth_equalityI)
qed

lemma SQRT_M1_square: "SQRT_M1_25519 * SQRT_M1_25519 mod P25519 = (- 1) mod P25519"
  by (simp add: SQRT_M1_25519_def P25519_def)

text \<open>Both ways of recovering \<open>x\<close> solve \<open>v * x ^ 2 = u\<close>.\<close>

lemma sqrt_adjust:
  fixes p v x u s :: int
  assumes "v * (x * x) mod p = (- u) mod p" "s * s mod p = (- 1) mod p"
  shows "v * ((x * s mod p) * (x * s mod p)) mod p = u mod p"
proof -
  have "v * ((x * s mod p) * (x * s mod p)) mod p = v * ((x * s mod p) * (x * s mod p) mod p) mod p"
    by (rule mod_mult_right_eq [symmetric])
  also have "\<dots> = v * ((x * s) * (x * s) mod p) mod p" by (simp only: mod_mult_eq)
  also have "\<dots> = v * ((x * s) * (x * s)) mod p" by (rule mod_mult_right_eq)
  also have "v * ((x * s) * (x * s)) = (v * (x * x)) * (s * s)" by (simp only: mult_ac)
  also have "(v * (x * x)) * (s * s) mod p = (v * (x * x) mod p) * (s * s mod p) mod p"
    by (rule mod_mult_eq [symmetric])
  also have "\<dots> = ((- u) mod p) * ((- 1) mod p) mod p" by (simp only: assms)
  also have "\<dots> = (- u) * (- 1) mod p" by (rule mod_mult_eq)
  finally show ?thesis by simp
qed

lemma P25519_odd: "P25519 mod 2 = 1" "1 < P25519"
  by (simp_all add: P25519_def)

lemma bigRem_range: "0 \<le> a \<Longrightarrow> 0 \<le> bigRem a P25519 \<and> bigRem a P25519 < P25519"
  by (simp add: bigRem_nonneg)

lemma modPow_nonneg: "0 \<le> base \<Longrightarrow> 0 \<le> modPow base e P25519"
  by (simp add: modPow_power P25519_odd)

lemma D25519_nonneg: "0 \<le> D25519"
  by (simp add: D25519_def)

lemma SQRT_nonneg: "0 \<le> SQRT_M1_25519"
  by (simp add: SQRT_M1_25519_def)

text \<open>The candidate root the code computes, before the sign adjustment.\<close>

definition rootCandidate :: "int \<Rightarrow> int" where
  "rootCandidate y =
     (let y2 = bigRem (y * y) P25519; u = fieldMod (y2 - 1); v = bigRem (D25519 * y2 + 1) P25519;
          v3 = bigRem (bigRem (v * v) P25519 * v) P25519; v7 = bigRem (bigRem (v3 * v3) P25519 * v) P25519 in
      bigRem (bigRem (u * v3) P25519 * modPow (bigRem (u * v7) P25519) ((P25519 - 5) div 8) P25519) P25519)"

lemma rootCandidate_range: "0 \<le> rootCandidate y \<and> rootCandidate y < P25519"
proof -
  have sq: "0 \<le> bigRem (y * y) P25519" by (simp add: bigRem_range)
  define v where "v = bigRem (D25519 * bigRem (y * y) P25519 + 1) P25519"
  have v: "0 \<le> v" unfolding v_def using sq D25519_nonneg by (simp add: bigRem_range)
  define u where "u = fieldMod (bigRem (y * y) P25519 - 1)"
  have u: "0 \<le> u" by (simp add: u_def fieldMod_mod)
  have v3: "0 \<le> bigRem (bigRem (v * v) P25519 * v) P25519" (is "0 \<le> ?v3") using v by (simp add: bigRem_range)
  have v7: "0 \<le> bigRem (bigRem (?v3 * ?v3) P25519 * v) P25519" (is "0 \<le> ?v7") using v v3 by (simp add: bigRem_range)
  show ?thesis
    unfolding rootCandidate_def Let_def v_def [symmetric] u_def [symmetric]
    by (intro bigRem_range mult_nonneg_nonneg modPow_nonneg bigRem_range [THEN conjunct1] u v v3 v7)
qed

lemma decode_unfold:
  "decodeStrictEd25519Point raw =
     (if length raw \<noteq> 32 then None
      else let y = littleEndian (clearTopBit raw); xSign = (uint (raw ! 31) \<ge> 128) in
        if y \<ge> P25519 then None
        else let u = (y * y - 1) mod P25519; x = rootCandidate y;
               vx2 = (D25519 * (y * y) + 1) * (x * x) mod P25519 in
          if vx2 \<noteq> u \<and> vx2 \<noteq> (- u) mod P25519 then None
          else let x' = (if vx2 \<noteq> u then x * SQRT_M1_25519 mod P25519 else x) in
            if x' = 0 \<and> xSign then None
            else Some (if (x' mod 2 = 1) \<noteq> xSign then P25519 - x' else x', y))"
proof -
  define y where "y = littleEndian (clearTopBit raw)"
  have y: "0 \<le> y * y" by simp
  have y2: "bigRem (y * y) P25519 = y * y mod P25519" by (simp add: bigRem_nonneg)
  have u: "fieldMod (y * y mod P25519 - 1) = (y * y - 1) mod P25519" by (simp add: fieldMod_mod mod_diff_left_eq)
  have v: "bigRem (D25519 * (y * y mod P25519) + 1) P25519 = (D25519 * (y * y) + 1) mod P25519"
    using D25519_nonneg by (simp add: bigRem_nonneg) (metis mod_add_left_eq mod_mult_right_eq)
  have x: "0 \<le> rootCandidate y" using rootCandidate_range by blast
  have vx: "bigRem ((D25519 * (y * y) + 1) mod P25519 * bigRem (rootCandidate y * rootCandidate y) P25519) P25519
      = (D25519 * (y * y) + 1) * (rootCandidate y * rootCandidate y) mod P25519"
    using x by (simp add: bigRem_nonneg mod_mult_eq)
  have m: "fieldMod (- ((y * y - 1) mod P25519)) = (- ((y * y - 1) mod P25519)) mod P25519" by (rule fieldMod_mod)
  have sq: "bigRem (rootCandidate y * SQRT_M1_25519) P25519 = rootCandidate y * SQRT_M1_25519 mod P25519"
    using x SQRT_nonneg by (simp add: bigRem_nonneg)
  show ?thesis
    unfolding decodeStrictEd25519Point_def Let_def y_def [symmetric]
    unfolding rootCandidate_def [of y, unfolded Let_def, symmetric]
    unfolding y2 u v vx m sq ..
qed

text \<open>The square root chosen by the sign adjustment solves the curve equation.\<close>

lemma decode_Some:
  assumes "decodeStrictEd25519Point raw = Some (px, y)"
  obtains x where "length raw = 32" "y = littleEndian (clearTopBit raw)" "y < P25519" "0 \<le> x" "x < P25519"
    "(D25519 * (y * y) + 1) * (x * x) mod P25519 = (y * y - 1) mod P25519"
    "\<not> (x = 0 \<and> uint (raw ! 31) \<ge> 128)"
    "px = (if (x mod 2 = 1) \<noteq> (uint (raw ! 31) \<ge> 128) then P25519 - x else x)"
proof -
  define u where "u = (y * y - 1) mod P25519"
  define x where "x = rootCandidate y"
  define vx2 where "vx2 = (D25519 * (y * y) + 1) * (x * x) mod P25519"
  define x' where "x' = (if vx2 \<noteq> u then x * SQRT_M1_25519 mod P25519 else x)"
  have f: "length raw = 32" "y = littleEndian (clearTopBit raw)" "y < P25519" "vx2 = u \<or> vx2 = (- u) mod P25519"
    "\<not> (x' = 0 \<and> uint (raw ! 31) \<ge> 128)"
    "px = (if (x' mod 2 = 1) \<noteq> (uint (raw ! 31) \<ge> 128) then P25519 - x' else x')"
    using assms unfolding decode_unfold x'_def vx2_def x_def u_def Let_def by (auto split: if_splits)
  have r: "0 \<le> x'" "x' < P25519" using rootCandidate_range [of y] by (auto simp: x'_def x_def)
  have "(D25519 * (y * y) + 1) * (x' * x') mod P25519 = u"
  proof (cases "vx2 = u")
    case True
    then show ?thesis by (simp add: x'_def vx2_def)
  next
    case False
    with f(4) have "(D25519 * (y * y) + 1) * (x * x) mod P25519 = (- u) mod P25519" by (simp add: vx2_def)
    from sqrt_adjust [OF this SQRT_M1_square] False show ?thesis by (simp add: x'_def u_def)
  qed
  with f r show thesis by (intro that) (auto simp: u_def)
qed

lemma decode_parity:
  assumes "decodeStrictEd25519Point raw = Some (px, y)"
  shows "(px mod 2 = 1) = (uint (raw ! 31) \<ge> 128)"
proof -
  obtain x where x: "0 \<le> x" "x < P25519" "\<not> (x = 0 \<and> uint (raw ! 31) \<ge> 128)"
    "px = (if (x mod 2 = 1) \<noteq> (uint (raw ! 31) \<ge> 128) then P25519 - x else x)"
    using decode_Some [OF assms] by metis
  have "(P25519 - x) mod 2 = (1 - x mod 2) mod 2" using P25519_odd(1) by (metis mod_diff_eq mod_mod_trivial)
  moreover have "x mod 2 = 0 \<or> x mod 2 = 1" by auto
  ultimately show ?thesis using x(4) by (auto split: if_splits)
qed

lemma decode_inject:
  assumes "decodeStrictEd25519Point a = Some p" "decodeStrictEd25519Point b = Some p"
  shows "a = b"
proof -
  obtain px y where p: "p = (px, y)" by fastforce
  note a = assms(1) [unfolded p] and b = assms(2) [unfolded p]
  have "length a = 32" "y = littleEndian (clearTopBit a)" using decode_Some [OF a] by metis+
  moreover have "length b = 32" "y = littleEndian (clearTopBit b)" using decode_Some [OF b] by metis+
  moreover have "uint (a ! 31) \<ge> 128 \<longleftrightarrow> uint (b ! 31) \<ge> 128" using decode_parity [OF a] decode_parity [OF b] by simp
  ultimately show ?thesis by (intro point_bytes_inject) auto
qed

lemma decode_reduced:
  assumes "decodeStrictEd25519Point raw = Some (px, y)"
  shows "0 \<le> px" "px < P25519" "0 \<le> y" "y < P25519"
proof -
  obtain x where x: "y = littleEndian (clearTopBit raw)" "y < P25519" "0 \<le> x" "x < P25519" "\<not> (x = 0 \<and> uint (raw ! 31) \<ge> 128)"
    "px = (if (x mod 2 = 1) \<noteq> (uint (raw ! 31) \<ge> 128) then P25519 - x else x)"
    using decode_Some [OF assms] by metis
  show "0 \<le> y" "y < P25519" using x(1,2) littleEndian_nonneg by simp_all
  show "0 \<le> px" using x(4,3,6) by (auto split: if_splits)
  show "px < P25519" using x(3-6) by (cases "x = 0") (auto split: if_splits)
qed

lemma decode_on_curve:
  assumes "decodeStrictEd25519Point raw = Some (px, y)"
  shows "(y * y - px * px) mod P25519 = (1 + D25519 * (px * px) * (y * y)) mod P25519"
proof -
  obtain x where x: "(D25519 * (y * y) + 1) * (x * x) mod P25519 = (y * y - 1) mod P25519"
    "px = (if (x mod 2 = 1) \<noteq> (uint (raw ! 31) \<ge> 128) then P25519 - x else x)"
    using decode_Some [OF assms] by metis
  have "(P25519 - x) * (P25519 - x) = x * x + P25519 * (P25519 - 2 * x)" by (simp add: algebra_simps)
  then have "px * px mod P25519 = x * x mod P25519" using x(2) by (auto simp del: mult_minus_left)
  then have "(D25519 * (y * y) + 1) * (px * px) mod P25519 = (y * y - 1) mod P25519" using x(1) by (metis mod_mult_right_eq)
  then have "P25519 dvd ((D25519 * (y * y) + 1) * (px * px) - (y * y - 1))" by (simp add: mod_eq_dvd_iff)
  then have "P25519 dvd - ((y * y - px * px) - (1 + D25519 * (px * px) * (y * y)))" by (simp add: algebra_simps)
  then show ?thesis by (simp add: mod_eq_dvd_iff del: minus_diff_eq)
qed

section \<open>The remembered subgroup results\<close>

lemma hexChar_inject: "0 \<le> a \<Longrightarrow> a < 16 \<Longrightarrow> 0 \<le> b \<Longrightarrow> b < 16 \<Longrightarrow> hexChar a = hexChar b \<Longrightarrow> a = b"
  by (auto simp: hexChar_def split: if_splits)

lemma byte_nibbles: "0 \<le> uint x div 16" "uint x div 16 < 16" for x :: byte
proof -
  have "0 \<le> uint x" "uint x < 16 * 16" using uint_lt2p [of x] by simp_all
  then show "0 \<le> uint x div 16" "uint x div 16 < 16"
    using zdiv_mono1 [of "uint x" 255 16] pos_imp_zdiv_nonneg_iff [of 16 "uint x"] by simp_all
qed

lemma byteHex_inject: "byteHex a = byteHex b \<Longrightarrow> a = b"
proof -
  assume e: "byteHex a = byteHex b"
  have m: "0 \<le> uint x mod 16" "uint x mod 16 < 16" for x :: byte by simp_all
  have "hexChar (uint a div 16) = hexChar (uint b div 16)" "hexChar (uint a mod 16) = hexChar (uint b mod 16)"
    using e by (simp_all only: byteHex_def list.inject)
  then have "uint a div 16 = uint b div 16" "uint a mod 16 = uint b mod 16"
    using hexChar_inject [OF byte_nibbles(1,2) byte_nibbles(1,2), of a b] hexChar_inject [OF m m, of a b] by blast+
  then have "uint a = uint b" by (metis div_mult_mod_eq)
  then show ?thesis by (rule word_uint_eqI)
qed

lemma toHex_inject: "toHex a = toHex b \<Longrightarrow> a = b"
proof (induction a arbitrary: b)
  case Nil
  then show ?case by (cases b) (auto simp: toHex_def byteHex_def)
next
  case (Cons x a)
  then obtain y b' where b: "b = y # b'" by (cases b) (auto simp: toHex_def byteHex_def)
  from Cons.prems have "byteHex x @ toHex a = byteHex y @ toHex b'" by (simp add: b toHex_def)
  moreover have "length (byteHex x) = length (byteHex y)" by (simp add: byteHex_def)
  ultimately show ?case using Cons.IH byteHex_inject by (simp add: b)
qed

text \<open>Every remembered result is the result for the key it is filed under, and the bound holds.\<close>

definition cache_ok :: "subgroup_cache \<Rightarrow> bool" where
  "cache_ok c \<longleftrightarrow> length c \<le> 4096 \<and> (\<forall>raw pt b. map_of c (toHex raw) = Some b \<longrightarrow>
     decodeStrictEd25519Point raw = Some pt \<longrightarrow> b = isInPrimeOrderSubgroup pt)"

lemma cache_ok_Nil: "cache_ok []"
  by (simp add: cache_ok_def)

lemma cached_step:
  assumes "cache_ok c" and step: "isStrictEd25519PublicKeyBytesCached c raw = (b, c')"
  shows "b = isStrictEd25519PublicKeyBytes raw" "cache_ok c'"
proof -
  have "b = isStrictEd25519PublicKeyBytes raw \<and> cache_ok c'"
  proof (cases "decodeStrictEd25519Point raw")
    case None
    with step assms show ?thesis
      by (auto simp: isStrictEd25519PublicKeyBytesCached_def isStrictEd25519PublicKeyBytes_def)
  next
    case (Some pt)
    show ?thesis
    proof (cases "isSmallOrderPubkey (toHex raw) \<or> map_of c (toHex raw) \<noteq> None")
      case True
      with step Some assms(1) show ?thesis
        unfolding isStrictEd25519PublicKeyBytesCached_def isStrictEd25519PublicKeyBytes_def Let_def cache_ok_def
        by (cases pt) (auto split: option.splits if_splits)
    next
      case False
      let ?c = "if length c \<ge> 4096 then [] else c"
      have e: "b = isInPrimeOrderSubgroup pt" "c' = ?c @ [(toHex raw, isInPrimeOrderSubgroup pt)]"
        using step Some False by (auto simp: isStrictEd25519PublicKeyBytesCached_def Let_def)
      have "map_of c' (toHex raw') = Some x \<Longrightarrow> decodeStrictEd25519Point raw' = Some p \<Longrightarrow> x = isInPrimeOrderSubgroup p"
        for raw' x p
        using assms(1) Some toHex_inject [of raw' raw]
        by (cases p) (auto simp: e(2) cache_ok_def map_add_def split: option.splits if_splits)
      moreover have "length c' \<le> 4096" using assms(1) by (simp add: e(2) cache_ok_def)
      ultimately show ?thesis using Some False e(1) by (simp add: cache_ok_def isStrictEd25519PublicKeyBytes_def)
    qed
  qed
  then show "b = isStrictEd25519PublicKeyBytes raw" "cache_ok c'" by simp_all
qed

text \<open>The cache after a sequence of calls, from the empty one the module starts with.\<close>

definition cacheAfter :: "byte list list \<Rightarrow> subgroup_cache" where
  "cacheAfter calls = foldl (\<lambda>c raw. snd (isStrictEd25519PublicKeyBytesCached c raw)) [] calls"

lemma cacheAfter_ok: "cache_ok (cacheAfter calls)"
proof (induction calls rule: rev_induct)
  case Nil
  then show ?case by (simp add: cacheAfter_def cache_ok_Nil)
next
  case (snoc raw calls)
  then show ?case using cached_step(2) [of "cacheAfter calls" raw] by (simp add: cacheAfter_def) (metis prod.collapse)
qed

section \<open>Accepted signatures\<close>

lemma verifyEd25519_True:
  assumes "verifyEd25519 H pk msg sg"
  obtains der bytes where "pk = toBase64 der" "importSpki H der = Some (U ''ed25519'', der)"
    "isStrictEd25519PublicKeyBytes (drop 12 der)" "bytes = fromBase64 H sg" "sg = toBase64 bytes" "length bytes = 64"
    "isStrictEd25519SignatureRBytes (take 32 bytes)" "littleEndian (drop 32 bytes) < L25519" "edVerify H msg der bytes"
proof (rule that [OF _ _ _ refl])
  show "pk = toBase64 (fromBase64 H pk)" "importSpki H (fromBase64 H pk) = Some (U ''ed25519'', fromBase64 H pk)"
    "isStrictEd25519PublicKeyBytes (drop 12 (fromBase64 H pk))" "sg = toBase64 (fromBase64 H sg)"
    "length (fromBase64 H sg) = 64" "isStrictEd25519SignatureRBytes (take 32 (fromBase64 H sg))"
    "littleEndian (drop 32 (fromBase64 H sg)) < L25519" "edVerify H msg (fromBase64 H pk) (fromBase64 H sg)"
    using assms unfolding verifyEd25519_def Let_def by (auto split: if_splits option.splits prod.splits)
qed

section \<open>Properties\<close>

text \<open>
  (C18) Square-and-multiply is exponentiation: for a modulus above 1 and a non-negative base,
  \<open>modPow\<close> returns the power reduced by the modulus. The loop terminates for every exponent.
\<close>

theorem modPow_is_power: "1 < m \<Longrightarrow> 0 \<le> base \<Longrightarrow> modPow base e m = base ^ nat e mod m"
  by (rule modPow_power)

theorem modPow_is_power_witness: "modPow 7 13 (2 ^ 20) = 7 ^ 13 mod 2 ^ 20 \<and> modPow 7 13 (2 ^ 20) = 588007"
  using modPow_is_power [of "2 ^ 20" 7 13] by simp

text \<open>
  (C16) Strict point decoding is canonical and sound: every accepted 32-byte string decodes to a point on
  the Edwards curve, and no two different strings decode to the same point of the curve, that is to
  coordinates that are equal modulo the field prime.
\<close>

theorem strict_decoding_canonical:
  assumes "decodeStrictEd25519Point a = Some (x, y)"
  shows "(y * y - x * x) mod P25519 = (1 + D25519 * (x * x) * (y * y)) mod P25519 \<and>
    (\<forall>b x' y'. decodeStrictEd25519Point b = Some (x', y') \<longrightarrow> x' mod P25519 = x mod P25519 \<longrightarrow> y' mod P25519 = y mod P25519 \<longrightarrow> b = a)"
proof (intro conjI allI impI)
  show "(y * y - x * x) mod P25519 = (1 + D25519 * (x * x) * (y * y)) mod P25519" by (rule decode_on_curve [OF assms])
  fix b x' y'
  assume b: "decodeStrictEd25519Point b = Some (x', y')" and e: "x' mod P25519 = x mod P25519" "y' mod P25519 = y mod P25519"
  have "x' = x" "y' = y" using e decode_reduced [OF b] decode_reduced [OF assms] by simp_all
  then show "b = a" using decode_inject [OF b] assms by simp
qed

theorem strict_decoding_canonical_witness:
  "decodeStrictEd25519Point (1 # replicate 31 0) = Some (0, 1) \<and>
   {b. \<exists>x y. decodeStrictEd25519Point b = Some (x, y) \<and> x mod P25519 = 0 \<and> y mod P25519 = 1} =
     {1 # replicate 31 0}"
proof -
  have n: "(1 # replicate 31 0 :: byte list) ! 31 = 0" by (simp add: nth_Cons')
  have z: "littleEndian (replicate k 0) = 0" for k by (induction k) (simp_all add: littleEndian_def)
  have y: "littleEndian (clearTopBit (1 # replicate 31 0)) = 1"
  proof -
    have "clearTopBit (1 # replicate 31 0) = 1 # replicate 31 0"
      unfolding clearTopBit_def n using list_update_id [of "1 # replicate 31 (0 :: byte)" 31] unfolding n
      by (simp only: unsigned_0 mod_0 of_int_0)
    moreover have "littleEndian (1 # replicate 31 0) = littleEndian (replicate 31 0) * 256 + 1"
      by (simp only: littleEndian_def foldr.simps comp_apply uint_1_eq)
    ultimately show ?thesis by (simp only: z mult_zero_left add_0)
  qed
  have u: "fieldMod (bigRem (1 * 1) P25519 - 1) = 0" by (simp add: fieldMod_mod bigRem_nonneg P25519_odd)
  have r: "bigRem 0 P25519 = 0" by (simp add: bigRem_def)
  have x: "rootCandidate 1 = 0"
    unfolding rootCandidate_def Let_def by (simp only: u r mult_zero_left)
  have p: "\<not> P25519 \<le> 1" by (simp add: P25519_def)
  have d: "decodeStrictEd25519Point (1 # replicate 31 0) = Some (0, 1)"
    by (simp add: decode_unfold y x n p Let_def)
  have m: "0 mod P25519 = 0" "1 mod P25519 = 1" by (simp_all add: P25519_def)
  have only: "b = 1 # replicate 31 0"
    if "decodeStrictEd25519Point b = Some (x, y)" "x mod P25519 = 0" "y mod P25519 = 1" for b x y
    by (rule conjunct2 [OF strict_decoding_canonical [OF d], rule_format, OF that(1)]) (simp_all add: m that)
  show ?thesis using d m by (auto dest: only)
qed

text \<open>
  (C17) The remembered subgroup results are invisible: after any sequence of earlier calls, the cached
  rule answers as the rule computed from scratch, and the cache never holds more than 4096 results.
\<close>

theorem subgroup_cache_transparent:
  "fst (isStrictEd25519PublicKeyBytesCached (cacheAfter calls) raw) = isStrictEd25519PublicKeyBytes raw \<and>
   length (cacheAfter calls) \<le> 4096"
  using cacheAfter_ok [of calls] cached_step(1) [of "cacheAfter calls" raw]
  by (cases "isStrictEd25519PublicKeyBytesCached (cacheAfter calls) raw") (simp add: cache_ok_def)

end
