(* ===== verification/Keyring.thy ===== *)
theory Keyring
  imports Keys "HOL-Library.AList"
begin

text \<open>
  The trust root of src/src/verification-keyring.ts: a static map from key identifier to public key, or
  the lifecycle document with activation and retirement instants. A null-prototype object used as a map
  is an association list written with \<^const>\<open>AList.update\<close> (an existing name keeps its place, a new one
  goes last). The lemmas show what an accepted trust root satisfies and that a retired key never
  resolves.
\<close>

section \<open>Definitions\<close>

definition SIGNING_KEY_LIFECYCLE_SPEC :: jstr where
  "SIGNING_KEY_LIFECYCLE_SPEC = U ''noa.signing-key-lifecycle/0.1''"

record parsed_keyring =
  pk_keyring :: keyring
  pk_retiredKids :: "(jstr \<times> bool) list"
  pk_validFromByKid :: "(jstr \<times> jstr option) list"
  pk_retiredAtByKid :: "(jstr \<times> jstr option) list"
  pk_lifecycle :: bool

datatype keyring_error =
    KeyringDocument doc_reason
  | KeyringNotObject
  | StaticKeyNotString jstr
  | LifecycleMalformed
  | LifecycleKeysNotObject
  | LifecycleNoKeys
  | EntryNotObject jstr
  | EntryFields jstr
  | EntryPublicKey jstr
  | EntryValidFrom jstr
  | EntryRetiredAt jstr
  | EntryInterval jstr

text \<open>The second loop of the source pads the fraction to nine digits.\<close>

definition lifecycleInstantNanos :: "host \<Rightarrow> jstr \<Rightarrow> int option" where
  "lifecycleInstantNanos H v =
     (if \<not> isRfc3339Instant v then None
      else case dateParse H v of
        None \<Rightarrow> None
      | Some epochMilliseconds \<Rightarrow>
          (let fractionalNanoseconds =
             (if charCodeAt v 19 = 46
              then (let ds = digitsFrom v 20 in foldl (\<lambda>a code. a * 10 + code - 48) 0 ds * 10 ^ (9 - length ds))
              else 0) in
           Some (epochMilliseconds * 1000000 + fractionalNanoseconds mod 1000000)))"

definition staticStep :: "json \<Rightarrow> keyring \<Rightarrow> jstr \<Rightarrow> keyring_error + keyring" where
  "staticStep doc ring kid =
     (case jget doc kid of
        Some (JStr publicKey) \<Rightarrow>
          if publicKey = [] then Inl (StaticKeyNotString kid) else Inr (AList.update kid publicKey ring)
      | _ \<Rightarrow> Inl (StaticKeyNotString kid))"

text \<open>A bound of an entry: absent or null, or a string that is a parseable instant.\<close>

definition lifecycleBound :: "host \<Rightarrow> keyring_error \<Rightarrow> json option \<Rightarrow> keyring_error + jstr option" where
  "lifecycleBound H err v =
     (case v of
        Some JNull \<Rightarrow> Inr None
      | Some (JStr s) \<Rightarrow> if lifecycleInstantNanos H s = None then Inl err else Inr (Some s)
      | _ \<Rightarrow> Inl err)"

definition lifecycleFieldsOk :: "jstr list \<Rightarrow> bool" where
  "lifecycleFieldsOk names \<longleftrightarrow>
     (length names = 2 \<or> length names = 3) \<and> U ''publicKey'' \<in> set names \<and> U ''retiredAt'' \<in> set names \<and>
     (length names = 3 \<longrightarrow> U ''validFrom'' \<in> set names)"

definition intervalOk :: "host \<Rightarrow> jstr option \<Rightarrow> jstr option \<Rightarrow> bool" where
  "intervalOk H validFrom retiredAt \<longleftrightarrow>
     (case (validFrom, retiredAt) of
        (Some f, Some r) \<Rightarrow> \<not> the (lifecycleInstantNanos H f) \<ge> the (lifecycleInstantNanos H r)
      | _ \<Rightarrow> True)"

definition lifecycleStep :: "host \<Rightarrow> json \<Rightarrow> parsed_keyring \<Rightarrow> jstr \<Rightarrow> keyring_error + parsed_keyring" where
  "lifecycleStep H entries acc kid =
     (case jget entries kid of
        None \<Rightarrow> Inl (EntryNotObject kid)
      | Some entry \<Rightarrow>
          if \<not> isPlainObject entry then Inl (EntryNotObject kid)
          else
            (let names = objectKeys entry in
             if \<not> lifecycleFieldsOk names then Inl (EntryFields kid)
             else case jget entry (U ''publicKey'') of
               Some (JStr publicKey) \<Rightarrow>
                 if publicKey = [] then Inl (EntryPublicKey kid)
                 else
                   bindS (lifecycleBound H (EntryValidFrom kid)
                       (if length names = 3 then jget entry (U ''validFrom'') else Some JNull)) (\<lambda>validFrom.
                   bindS (lifecycleBound H (EntryRetiredAt kid) (jget entry (U ''retiredAt''))) (\<lambda>retiredAt.
                   if \<not> intervalOk H validFrom retiredAt then Inl (EntryInterval kid)
                   else Inr (acc\<lparr>
                     pk_keyring := AList.update kid publicKey (pk_keyring acc),
                     pk_validFromByKid := AList.update kid validFrom (pk_validFromByKid acc),
                     pk_retiredAtByKid := AList.update kid retiredAt (pk_retiredAtByKid acc),
                     pk_retiredKids :=
                       (if retiredAt \<noteq> None then AList.update kid True (pk_retiredKids acc)
                        else pk_retiredKids acc)\<rparr>)))
             | _ \<Rightarrow> Inl (EntryPublicKey kid)))"

definition emptyKeyring :: "bool \<Rightarrow> parsed_keyring" where
  "emptyKeyring lifecycle = \<lparr>pk_keyring = [], pk_retiredKids = [], pk_validFromByKid = [], pk_retiredAtByKid = [],
     pk_lifecycle = lifecycle\<rparr>"

definition looksLikeLifecycle :: "json \<Rightarrow> bool" where
  "looksLikeLifecycle doc \<longleftrightarrow>
     (let topNames = objectKeys doc in
      (U ''spec'' \<in> set topNames \<and> jget doc (U ''spec'') = Some (JStr SIGNING_KEY_LIFECYCLE_SPEC)) \<or>
      (U ''keys'' \<in> set topNames \<and> (case jget doc (U ''keys'') of Some (JStr _) \<Rightarrow> False | _ \<Rightarrow> True)))"

definition parseLifecycle :: "host \<Rightarrow> json \<Rightarrow> keyring_error + parsed_keyring" where
  "parseLifecycle H doc =
     (let topNames = objectKeys doc in
      if jget doc (U ''spec'') \<noteq> Some (JStr SIGNING_KEY_LIFECYCLE_SPEC) \<or> length topNames \<noteq> 2
         \<or> U ''spec'' \<notin> set topNames \<or> U ''keys'' \<notin> set topNames
      then Inl LifecycleMalformed
      else case jget doc (U ''keys'') of
        None \<Rightarrow> Inl LifecycleKeysNotObject
      | Some entries \<Rightarrow>
          if \<not> isPlainObject entries then Inl LifecycleKeysNotObject
          else if objectKeys entries = [] then Inl LifecycleNoKeys
          else foldE (lifecycleStep H entries) (emptyKeyring True) (objectKeys entries))"

definition parseVerificationKeyring :: "host \<Rightarrow> input \<Rightarrow> keyring_error + parsed_keyring" where
  "parseVerificationKeyring H document =
     (case parseDocument document of
        Inl reason \<Rightarrow> Inl (KeyringDocument reason)
      | Inr doc \<Rightarrow>
          if \<not> isPlainObject doc then Inl KeyringNotObject
          else if \<not> looksLikeLifecycle doc
          then bindS (foldE (staticStep doc) [] (objectKeys doc))
                 (\<lambda>ring. Inr ((emptyKeyring False)\<lparr>pk_keyring := ring\<rparr>))
          else parseLifecycle H doc)"

datatype resolve_error = ResolveKeyring keyring_error | InvalidSignature jstr | KeyIsRetired jstr | KeyNotInKeyring jstr

text \<open>
  The optional arguments are options. With one of them missing the platform's signature check has no
  string to decode and answers false, so an absent message or signature never authenticates.
\<close>

definition resolveVerificationKey ::
  "host \<Rightarrow> input \<Rightarrow> jstr \<Rightarrow> byte list option \<Rightarrow> jstr option \<Rightarrow> resolve_error + jstr \<times> bool" where
  "resolveVerificationKey H document kid message signature =
     (case parseVerificationKeyring H document of
        Inl e \<Rightarrow> Inl (ResolveKeyring e)
      | Inr parsed \<Rightarrow>
          (let publicKey = map_of (pk_keyring parsed) kid in
           if map_of (pk_retiredKids parsed) kid = Some True then
             (if (message \<noteq> None \<or> signature \<noteq> None) \<and>
                 \<not> (case (publicKey, message, signature) of
                      (Some pub, Some m, Some s) \<Rightarrow> verifyEd25519 H pub m s | _ \<Rightarrow> False)
              then Inl (InvalidSignature kid) else Inl (KeyIsRetired kid))
           else case publicKey of
             None \<Rightarrow> Inl (KeyNotInKeyring kid)
           | Some pub \<Rightarrow> if pub = [] then Inl (KeyNotInKeyring kid) else Inr (pub, pk_lifecycle parsed)))"

section \<open>What an accepted trust root satisfies\<close>

definition keyring_ok :: "host \<Rightarrow> parsed_keyring \<Rightarrow> bool" where
  "keyring_ok H pk \<longleftrightarrow>
     (\<forall>kid. map_of (pk_keyring pk) kid \<noteq> Some []) \<and>
     (\<forall>kid. map_of (pk_retiredKids pk) kid = Some True \<longleftrightarrow> (\<exists>r. map_of (pk_retiredAtByKid pk) kid = Some (Some r))) \<and>
     dom (map_of (pk_validFromByKid pk)) = dom (map_of (pk_retiredAtByKid pk)) \<and>
     dom (map_of (pk_retiredAtByKid pk)) = (if pk_lifecycle pk then dom (map_of (pk_keyring pk)) else {}) \<and>
     (\<forall>kid s. map_of (pk_validFromByKid pk) kid = Some (Some s) \<longrightarrow> lifecycleInstantNanos H s \<noteq> None) \<and>
     (\<forall>kid s. map_of (pk_retiredAtByKid pk) kid = Some (Some s) \<longrightarrow> lifecycleInstantNanos H s \<noteq> None) \<and>
     (\<forall>kid f r. map_of (pk_validFromByKid pk) kid = Some (Some f) \<longrightarrow> map_of (pk_retiredAtByKid pk) kid = Some (Some r) \<longrightarrow>
        the (lifecycleInstantNanos H f) < the (lifecycleInstantNanos H r))"

lemma keyring_ok_empty: "keyring_ok H (emptyKeyring b)"
  by (simp add: keyring_ok_def emptyKeyring_def)

lemma lifecycleBound_Inr [ok_iff]:
  "lifecycleBound H e v = Inr b \<longleftrightarrow>
     (v = Some JNull \<and> b = None) \<or> (\<exists>s. v = Some (JStr s) \<and> b = Some s \<and> lifecycleInstantNanos H s \<noteq> None)"
  by (auto simp: lifecycleBound_def split: option.splits json.splits if_splits)

text \<open>The record a lifecycle entry adds, and the facts its checks leave.\<close>

definition addKey :: "jstr \<Rightarrow> jstr \<Rightarrow> jstr option \<Rightarrow> jstr option \<Rightarrow> parsed_keyring \<Rightarrow> parsed_keyring" where
  "addKey kid pub f r acc = acc\<lparr>
     pk_keyring := AList.update kid pub (pk_keyring acc),
     pk_validFromByKid := AList.update kid f (pk_validFromByKid acc),
     pk_retiredAtByKid := AList.update kid r (pk_retiredAtByKid acc),
     pk_retiredKids := (if r \<noteq> None then AList.update kid True (pk_retiredKids acc) else pk_retiredKids acc)\<rparr>"

definition bounds_ok :: "host \<Rightarrow> jstr option \<Rightarrow> jstr option \<Rightarrow> bool" where
  "bounds_ok H f r \<longleftrightarrow> (\<forall>s. f = Some s \<or> r = Some s \<longrightarrow> lifecycleInstantNanos H s \<noteq> None) \<and>
     (\<forall>a b. f = Some a \<longrightarrow> r = Some b \<longrightarrow> the (lifecycleInstantNanos H a) < the (lifecycleInstantNanos H b))"

lemma lifecycleStep_Inr:
  assumes "lifecycleStep H entries acc kid = Inr acc'"
  obtains entry pub f r where "jget entries kid = Some entry" "jget entry (U ''publicKey'') = Some (JStr pub)" "pub \<noteq> []"
    "bounds_ok H f r" "acc' = addKey kid pub f r acc"
proof -
  from assms obtain entry where e: "jget entries kid = Some entry"
    by (auto simp: lifecycleStep_def split: option.splits)
  with assms obtain pub where p: "jget entry (U ''publicKey'') = Some (JStr pub)" "pub \<noteq> []"
    by (auto simp: lifecycleStep_def Let_def split: option.splits json.splits if_splits)
  from assms e p obtain f r where b: "lifecycleBound H (EntryValidFrom kid)
        (if length (objectKeys entry) = 3 then jget entry (U ''validFrom'') else Some JNull) = Inr f"
      "lifecycleBound H (EntryRetiredAt kid) (jget entry (U ''retiredAt'')) = Inr r"
      "intervalOk H f r" "acc' = addKey kid pub f r acc"
    by (auto simp: lifecycleStep_def Let_def bindS_Inr addKey_def split: if_splits)
  from b(1-3) have "bounds_ok H f r"
    by (auto simp: ok_iff bounds_ok_def intervalOk_def split: if_splits)
  note b(4) this
  with e p that show thesis by blast
qed

lemma addKey_ok:
  assumes "keyring_ok H acc" "pk_lifecycle acc" "kid \<notin> dom (map_of (pk_keyring acc))" "pub \<noteq> []" "bounds_ok H f r"
  shows "keyring_ok H (addKey kid pub f r acc)"
proof -
  have "dom (map_of (pk_retiredAtByKid acc)) = dom (map_of (pk_keyring acc))"
    using assms(1,2) by (simp add: keyring_ok_def)
  then have fresh: "map_of (pk_retiredAtByKid acc) kid = None" using assms(3) by (metis domIff)
  then have fresh': "map_of (pk_retiredKids acc) kid \<noteq> Some True" using assms(1) by (simp add: keyring_ok_def)
  show ?thesis
    using assms fresh fresh' unfolding keyring_ok_def addKey_def bounds_ok_def
    by (simp add: update_conv')
qed

text \<open>The loop over the entries keeps the invariant; the names visited so far are the keys so far.\<close>

definition lifecycle_inv :: "host \<Rightarrow> jstr list \<Rightarrow> parsed_keyring \<Rightarrow> bool" where
  "lifecycle_inv H kids pk \<longleftrightarrow>
     (distinct kids \<longrightarrow> keyring_ok H pk) \<and> pk_lifecycle pk \<and> dom (map_of (pk_keyring pk)) = set kids"

interpretation lifecycle_loop: loop_invariant "lifecycleStep H entries" "lifecycle_inv H" for H entries
proof
  fix kids s kid s'
  assume inv: "lifecycle_inv H kids s" and step: "lifecycleStep H entries s kid = Inr s'"
  from step obtain entry pub f r where a: "pub \<noteq> []" "bounds_ok H f r" "s' = addKey kid pub f r s"
    by (rule lifecycleStep_Inr)
  have "pk_lifecycle s'" "dom (map_of (pk_keyring s')) = set (kids @ [kid])"
    using inv by (auto simp: a(3) addKey_def lifecycle_inv_def update_conv')
  moreover have "distinct (kids @ [kid]) \<Longrightarrow> keyring_ok H s'"
    unfolding a(3) using inv a(1,2) by (intro addKey_ok) (auto simp: lifecycle_inv_def)
  ultimately show "lifecycle_inv H (kids @ [kid]) s'" by (simp add: lifecycle_inv_def)
qed

definition static_inv :: "jstr list \<Rightarrow> keyring \<Rightarrow> bool" where
  "static_inv kids ring \<longleftrightarrow> (\<forall>kid. map_of ring kid \<noteq> Some []) \<and> (\<forall>kid. map_of ring kid \<noteq> None \<longleftrightarrow> kid \<in> set kids)"

interpretation static_loop: loop_invariant "staticStep doc" static_inv for doc
  by unfold_locales
    (auto simp: static_inv_def staticStep_def update_conv' split: option.splits json.splits if_splits)

lemma parseLifecycle_ok:
  assumes "parseLifecycle H doc = Inr pk" "\<And>m. jget doc (U ''keys'') = Some (JObj m) \<Longrightarrow> distinct (map fst m)"
  shows "keyring_ok H pk \<and> pk_lifecycle pk"
proof -
  from assms(1) obtain m where m: "jget doc (U ''keys'') = Some (JObj m)"
    and f: "foldE (lifecycleStep H (JObj m)) (emptyKeyring True) (ownNames m) = Inr pk"
    by (auto simp: parseLifecycle_def Let_def isPlainObject_iff split: option.splits if_splits)
  have "lifecycle_inv H [] (emptyKeyring True)"
    by (simp add: lifecycle_inv_def keyring_ok_empty) (simp add: emptyKeyring_def)
  from lifecycle_loop.foldE_inv [OF this f] distinct_ownNames [OF assms(2) [OF m]]
  show ?thesis by (simp add: lifecycle_inv_def)
qed

lemma parseDocument_safe:
  assumes "parseDocument v = Inr j"
  shows "json_ok (\<lambda>_. True) j" "jdepth j \<le> 64"
proof -
  from assms obtain t where "safeParseWith 64 MAX_INPUT_BYTES t = Inr j"
    by (auto simp: parseDocument_def ok_iff)
  from safeParse_Inr [OF _ _ this, of "\<lambda>_. True"]
  show "json_ok (\<lambda>_. True) j" "jdepth j \<le> 64" by (simp_all add: list_all_iff)
qed

lemma json_ok_jget: "json_ok Q v \<Longrightarrow> jget v k = Some w \<Longrightarrow> json_ok Q w"
  by (cases v) (auto simp: list_all_iff dest!: map_of_SomeD)

lemma parseVerificationKeyring_ok:
  assumes "parseVerificationKeyring H d = Inr pk"
  shows "keyring_ok H pk"
proof -
  from assms obtain doc where doc: "parseDocument d = Inr doc" "isPlainObject doc"
    by (auto simp: parseVerificationKeyring_def split: sum.splits if_splits)
  note ok = parseDocument_safe(1) [OF doc(1)]
  show ?thesis
  proof (cases "looksLikeLifecycle doc")
    case True
    then have "parseLifecycle H doc = Inr pk" using assms doc by (simp add: parseVerificationKeyring_def)
    then show ?thesis using parseLifecycle_ok json_ok_jget [OF ok] by (metis json_ok.simps(4))
  next
    case False
    then obtain ring where r: "foldE (staticStep doc) [] (objectKeys doc) = Inr ring"
      "pk = (emptyKeyring False)\<lparr>pk_keyring := ring\<rparr>"
      using assms doc by (auto simp: parseVerificationKeyring_def bindS_Inr)
    have "static_inv ([] @ objectKeys doc) ring"
      by (rule static_loop.foldE_inv [OF _ r(1)]) (simp add: static_inv_def)
    then show ?thesis by (simp add: r(2) keyring_ok_def emptyKeyring_def static_inv_def)
  qed
qed

lemma keyring_ok_retired:
  "keyring_ok H pk \<Longrightarrow> map_of (pk_retiredKids pk) kid = Some True \<longleftrightarrow> (\<exists>r. map_of (pk_retiredAtByKid pk) kid = Some (Some r))"
  by (simp add: keyring_ok_def)

section \<open>Properties\<close>

text \<open>A platform for examples: \<open>Date.parse\<close> computed from the calendar, no key and no signature.\<close>

definition exampleHost :: host where
  "exampleHost = \<lparr>sha256 = (\<lambda>bs. take 32 (bs @ replicate 32 0)), fromBase64 = (\<lambda>s. []), importSpki = (\<lambda>_. None),
     importPkcs8 = (\<lambda>_. None), edVerify = (\<lambda>_ _ _. False), edSign = (\<lambda>_ _. []), normalizeNfc = (\<lambda>s. s),
     dateParse = (\<lambda>s. Some (instantNanos s div 1000000))\<rparr>"

definition exampleLifecycle :: jstr where
  \<open>exampleLifecycle = U ''{"spec":"noa.signing-key-lifecycle/0.1","keys":{"k":{"publicKey":"AA","validFrom":"2026-01-01T00:00:00Z","retiredAt":"2026-01-01T00:00:00.5Z"}}}''\<close>

definition exampleKeyring :: parsed_keyring where
  "exampleKeyring = \<lparr>pk_keyring = [(U ''k'', U ''AA'')], pk_retiredKids = [(U ''k'', True)],
     pk_validFromByKid = [(U ''k'', Some (U ''2026-01-01T00:00:00Z''))],
     pk_retiredAtByKid = [(U ''k'', Some (U ''2026-01-01T00:00:00.5Z''))], pk_lifecycle = True\<rparr>"

lemma exampleLifecycle_parsed: "parseVerificationKeyring exampleHost (Text exampleLifecycle) = Inr exampleKeyring"
  unfolding exampleKeyring_def by code_simp

text \<open>
  (C7) Every accepted trust root is coherent: no public key is empty, the retired projection is exactly
  the keys with a retirement instant, the activation and retirement tables cover exactly the lifecycle
  keys, every bound is a parseable instant, and activation is strictly before retirement.
\<close>

theorem trust_root_invariant: "parseVerificationKeyring H d = Inr pk \<Longrightarrow> keyring_ok H pk"
  by (rule parseVerificationKeyring_ok)

theorem trust_root_invariant_witness: "keyring_ok exampleHost exampleKeyring"
  by (rule trust_root_invariant [OF exampleLifecycle_parsed])

text \<open>
  (C8) A retired key never resolves: whatever message and signature are presented, the answer is a
  refusal, and with both presented it names the retirement exactly when the signature is authentic under
  the retained public key, so that a forgery is never reported as a retirement.
\<close>

theorem retired_key_never_resolves:
  assumes "parseVerificationKeyring H d = Inr pk" "map_of (pk_retiredAtByKid pk) kid = Some (Some r)"
    "map_of (pk_keyring pk) kid = Some pub"
  shows "resolveVerificationKey H d kid m s \<in> {Inl (InvalidSignature kid), Inl (KeyIsRetired kid)} \<and>
    (resolveVerificationKey H d kid (Some msg) (Some sg) = Inl (KeyIsRetired kid) \<longleftrightarrow> verifyEd25519 H pub msg sg)"
proof -
  have "map_of (pk_retiredKids pk) kid = Some True"
    using keyring_ok_retired [OF parseVerificationKeyring_ok [OF assms(1)]] assms(2) by blast
  then show ?thesis using assms(1,3) by (auto simp: resolveVerificationKey_def Let_def split: option.splits)
qed

theorem retired_key_never_resolves_witness:
  "resolveVerificationKey exampleHost (Text exampleLifecycle) (U ''k'') None None \<in> {Inl (InvalidSignature (U ''k'')), Inl (KeyIsRetired (U ''k''))}"
  by (rule conjunct1, rule retired_key_never_resolves [OF exampleLifecycle_parsed]) (simp_all add: exampleKeyring_def)

end
