(* ===== verification/Nfc.thy ===== *)
theory Nfc
  imports Keys
begin

text \<open>
  The Unicode NFC scan of src/src/nfc.ts. \<open>String.prototype.normalize\<close> is a member of the platform record.
  The lemmas show that the scan is empty exactly on the values all of whose strings and member names pass
  \<open>isNFC\<close>, that the report is capped, and that the ASCII shortcut agrees with normalization.
\<close>

section \<open>Definitions\<close>

definition isNFC :: "host \<Rightarrow> jstr \<Rightarrow> bool" where
  "isNFC H s = (if list_ex (\<lambda>c. c > 0x7F) s then normalizeNfc H s = s else True)"

lemma size_member_read [termination_simp]:
  "(k, w) \<in> set m \<Longrightarrow> size (the (map_of m k)) < Suc (size_list (\<lambda>p. Suc (size (snd p))) m)"
proof -
  assume "(k, w) \<in> set m"
  then obtain v where "map_of m k = Some v" by (auto dest!: weak_map_of_SomeI)
  then show ?thesis by (induction m) (auto split: if_splits)
qed

lemma size_elem [termination_simp]: "(i, x) \<in> set (enumerate n xs) \<Longrightarrow> size x < Suc (size_list size xs)"
  by (auto simp: enumerate_eq_zip dest!: set_zip_rightD intro: size_arr_elem)

text \<open>
  The inner \<open>walk\<close>, with the array it pushes to as the last argument and result. A pass of a loop that
  finds the cap reached leaves the array as it is.
\<close>

fun nfcWalk :: "host \<Rightarrow> nat \<Rightarrow> json \<Rightarrow> jstr \<Rightarrow> jstr list \<Rightarrow> jstr list" where
  "nfcWalk H limit (JStr s) path out =
     (if length out \<ge> limit then out else if isNFC H s then out else out @ [path])"
| "nfcWalk H limit (JArr xs) path out =
     (if length out \<ge> limit then out
      else foldl (\<lambda>out (i, x). nfcWalk H limit x (path @ [91] @ natStr i @ [93]) out) out (enumerate 0 xs))"
| "nfcWalk H limit (JObj m) path out =
     (if length out \<ge> limit then out
      else foldl (\<lambda>out (k, v).
             if length out \<ge> limit then out
             else (let child = (if path = [] then k else path @ [46] @ k) in
                   nfcWalk H limit v child (if isNFC H k then out else out @ [child @ U '' (member name)''])))
             out (map (\<lambda>k. (k, the (map_of m k))) (ownNames m)))"
| "nfcWalk H limit v path out = out"

definition nonNfcPaths :: "host \<Rightarrow> json \<Rightarrow> jstr list" where
  "nonNfcPaths H v = nfcWalk H 16 v [] []"

section \<open>The scan finds every string\<close>

fun all_nfc :: "host \<Rightarrow> json \<Rightarrow> bool" where
  "all_nfc H (JStr s) = isNFC H s"
| "all_nfc H (JArr xs) = list_all (all_nfc H) xs"
| "all_nfc H (JObj m) = list_all (\<lambda>(k, v). isNFC H k \<and> all_nfc H v) m"
| "all_nfc H _ = True"

text \<open>A pass that only appends, stops changing at the cap, and below it appends nothing exactly when \<open>a\<close> holds.\<close>

definition grows :: "nat \<Rightarrow> bool \<Rightarrow> ('a list \<Rightarrow> 'a list) \<Rightarrow> bool" where
  "grows limit a f \<longleftrightarrow> (\<forall>out. length out \<le> limit \<longrightarrow>
     (\<exists>ys. f out = out @ ys) \<and> length (f out) \<le> limit \<and> (length out < limit \<longrightarrow> (f out = out \<longleftrightarrow> a)))"

lemma growsD:
  assumes "grows limit a f" "length out \<le> limit"
  shows "\<exists>ys. f out = out @ ys" "length (f out) \<le> limit" "length out < limit \<Longrightarrow> f out = out \<longleftrightarrow> a"
  using assms by (simp_all add: grows_def)

lemma grows_id: "grows limit True (\<lambda>out. out)"
  by (simp add: grows_def)

lemma grows_comp:
  assumes f: "grows limit a f" and g: "grows limit b g"
  shows "grows limit (a \<and> b) (\<lambda>out. g (f out))"
  unfolding grows_def
proof (intro allI impI conjI)
  fix out :: "'a list" assume l: "length out \<le> limit"
  obtain ys where ys: "f out = out @ ys" using growsD(1) [OF f l] by blast
  obtain zs where zs: "g (f out) = f out @ zs" using growsD(1) [OF g growsD(2) [OF f l]] by blast
  show "\<exists>ys. g (f out) = out @ ys" "length (g (f out)) \<le> limit"
    using ys zs growsD(2) [OF g growsD(2) [OF f l]] by simp_all
  assume l': "length out < limit"
  show "g (f out) = out \<longleftrightarrow> a \<and> b"
    using growsD(3) [OF f l l'] growsD(3) [OF g l l'] ys zs by auto
qed

lemma grows_foldl:
  assumes "\<And>x. x \<in> set xs \<Longrightarrow> grows limit (a x) (\<lambda>out. f out x)"
  shows "grows limit (\<forall>x\<in>set xs. a x) (\<lambda>out. foldl f out xs)"
  using assms
proof (induction xs)
  case Nil
  then show ?case by (simp add: grows_id)
next
  case (Cons x xs)
  then show ?case using grows_comp [of limit "a x" "\<lambda>out. f out x" "\<forall>x\<in>set xs. a x" "\<lambda>out. foldl f out xs"] by simp
qed

lemma grows_capped: "grows limit a f \<Longrightarrow> grows limit a (\<lambda>out. if length out \<ge> limit then out else f out)"
  by (auto simp: grows_def)

lemma grows_push: "grows limit a (\<lambda>out. if length out \<ge> limit then out else if a then out else out @ [x])"
  by (auto simp: grows_def)

lemma grows_capped_id: "grows limit a f \<Longrightarrow> length out \<le> limit \<Longrightarrow> limit \<le> length out \<Longrightarrow> f out = out"
  by (fastforce simp: grows_def)

lemma grows_cong: "grows limit a f \<Longrightarrow> a = b \<Longrightarrow> (\<And>out. length out \<le> limit \<Longrightarrow> f out = g out) \<Longrightarrow> grows limit b g"
  by (simp add: grows_def)

text \<open>One member: its name, then its value.\<close>

lemma grows_member:
  assumes "\<And>path. grows limit (all_nfc H v) (nfcWalk H limit v path)"
  shows "grows limit (isNFC H k \<and> all_nfc H v) (\<lambda>out. if length out \<ge> limit then out else
    (let child = (if path = [] then k else path @ [46] @ k) in
     nfcWalk H limit v child (if isNFC H k then out else out @ [child @ U '' (member name)''])))"
proof -
  define child where "child = (if path = [] then k else path @ [46] @ k)"
  show ?thesis unfolding Let_def child_def [symmetric]
    by (rule grows_cong [OF grows_comp [OF grows_push [of _ _ "child @ U '' (member name)''"] assms [of child]] refl])
      (use grows_capped_id [OF assms] in \<open>auto split: if_splits\<close>)
qed

lemma nfcWalk_grows: "json_ok Q v \<Longrightarrow> grows limit (all_nfc H v) (nfcWalk H limit v path)"
proof (induction v arbitrary: path)
  case (JStr s)
  then show ?case by (rule_tac grows_cong [OF grows_push [of limit "isNFC H s" path]]) simp_all
next
  case (JArr xs)
  have A: "grows limit (\<forall>p\<in>set (enumerate 0 xs). all_nfc H (snd p))
     (\<lambda>out. foldl (\<lambda>out (i, x). nfcWalk H limit x (path @ [91] @ natStr i @ [93]) out) out (enumerate 0 xs))"
    using JArr by (intro grows_foldl) (auto simp: enumerate_eq_zip list_all_iff dest!: set_zip_rightD)
  have B: "(\<forall>p\<in>set (enumerate 0 xs). all_nfc H (snd p)) \<longleftrightarrow> all_nfc H (JArr xs)"
    by (metis all_nfc.simps(2) in_set_enumerate_eq list_all_length enumerate_eq_zip in_set_conv_nth
        length_enumerate nth_enumerate_eq snd_conv)
  show ?case by (rule grows_cong [OF grows_capped [OF A] B]) (simp only: nfcWalk.simps)
next
  case (JObj m)
  then have d: "distinct (map fst m)" by simp
  let ?ps = "map (\<lambda>k. (k, the (map_of m k))) (ownNames m)"
  have ps: "set ?ps = set m" using d by (auto simp: image_iff) (metis map_of_eq_Some_iff option.sel fst_conv)+
  have A: "grows limit (\<forall>p\<in>set ?ps. isNFC H (fst p) \<and> all_nfc H (snd p)) (\<lambda>out. foldl (\<lambda>out (k, v).
      if length out \<ge> limit then out else (let child = (if path = [] then k else path @ [46] @ k) in
      nfcWalk H limit v child (if isNFC H k then out else out @ [child @ U '' (member name)'']))) out ?ps)"
  proof (rule grows_foldl)
    fix p assume "p \<in> set ?ps"
    then obtain k v where p: "p = (k, v)" "(k, v) \<in> set m" unfolding ps by (metis surj_pair)
    have "grows limit (all_nfc H v) (nfcWalk H limit v path)" for path
      using JObj p(2) by (fastforce simp: list_all_iff)
    from grows_member [OF this, of k path]
    show "grows limit (isNFC H (fst p) \<and> all_nfc H (snd p)) (\<lambda>out. case p of (k, v) \<Rightarrow>
      if length out \<ge> limit then out else (let child = (if path = [] then k else path @ [46] @ k) in
      nfcWalk H limit v child (if isNFC H k then out else out @ [child @ U '' (member name)''])))"
      by (simp add: p(1))
  qed
  have B: "(\<forall>p\<in>set ?ps. isNFC H (fst p) \<and> all_nfc H (snd p)) \<longleftrightarrow> all_nfc H (JObj m)"
    unfolding ps by (auto simp: list_all_iff)
  show ?case by (rule grows_cong [OF grows_capped [OF A] B]) (simp only: nfcWalk.simps)
qed (simp_all add: grows_def)

lemma nonNfcPaths_spec:
  assumes "json_ok Q v"
  shows "nonNfcPaths H v = [] \<longleftrightarrow> all_nfc H v" "length (nonNfcPaths H v) \<le> 16"
  using growsD [OF nfcWalk_grows [OF assms], of "[]" 16] by (simp_all add: nonNfcPaths_def)

lemma isNFC_normalize:
  "(\<And>t. (\<forall>c\<in>set t. c \<le> 0x7F) \<Longrightarrow> normalizeNfc H t = t) \<Longrightarrow> isNFC H s \<longleftrightarrow> normalizeNfc H s = s"
  by (auto simp: isNFC_def list_ex_iff not_less)

text \<open>Every string and every member name is its own normal form.\<close>

fun strings_normal :: "host \<Rightarrow> json \<Rightarrow> bool" where
  "strings_normal H (JStr s) = (normalizeNfc H s = s)"
| "strings_normal H (JArr xs) = list_all (strings_normal H) xs"
| "strings_normal H (JObj m) = list_all (\<lambda>(k, v). normalizeNfc H k = k \<and> strings_normal H v) m"
| "strings_normal H _ = True"

lemma all_nfc_normal:
  assumes "\<And>t. (\<forall>c\<in>set t. c \<le> 0x7F) \<Longrightarrow> normalizeNfc H t = t"
  shows "all_nfc H v \<longleftrightarrow> strings_normal H v"
  by (induction v) (auto simp: isNFC_normalize [OF assms] list_all_iff)

text \<open>A platform for an example, which composes an accented letter.\<close>

definition nfcHost :: host where
  "nfcHost = \<lparr>sha256 = (\<lambda>bs. bs), fromBase64 = (\<lambda>s. []), importSpki = (\<lambda>_. None), importPkcs8 = (\<lambda>_. None),
     edVerify = (\<lambda>_ _ _. False), edSign = (\<lambda>_ _. []), normalizeNfc = (\<lambda>s. if s = [101, 769] then [233] else s),
     dateParse = (\<lambda>_. None)\<rparr>"

section \<open>Properties\<close>

text \<open>
  (C10) The NFC scan is complete and its report bounded: on a parsed value it is empty exactly when every
  string and every member name is its own normal form, and it never lists more than 16 paths. The ASCII
  shortcut of \<open>isNFC\<close> is right because normalization leaves ASCII strings as they are.
\<close>

theorem nfc_scan_complete:
  assumes "json_ok (\<lambda>_. True) v" "\<And>t. (\<forall>c\<in>set t. c \<le> 0x7F) \<Longrightarrow> normalizeNfc H t = t"
  shows "(nonNfcPaths H v = [] \<longleftrightarrow> strings_normal H v) \<and> length (nonNfcPaths H v) \<le> 16"
  using nonNfcPaths_spec [OF assms(1), of H] all_nfc_normal [OF assms(2), of v] by simp

theorem nfc_scan_complete_witness:
  "nonNfcPaths nfcHost (JObj [([101, 769], JArr [JStr [101, 769], JNum 1])]) = [[101, 769] @ U '' (member name)'', [101, 769] @ U ''[0]''] \<and>
   (nonNfcPaths nfcHost (JObj [([101, 769], JArr [JStr [101, 769], JNum 1])]) = [] \<longleftrightarrow>
     strings_normal nfcHost (JObj [([101, 769], JArr [JStr [101, 769], JNum 1])]))"
proof -
  have "json_ok (\<lambda>_. True) (JObj [([101, 769], JArr [JStr [101, 769], JNum 1])])" by code_simp
  moreover have "normalizeNfc nfcHost t = t" if "\<forall>c\<in>set t. c \<le> 0x7F" for t using that by (auto simp: nfcHost_def)
  ultimately have "nonNfcPaths nfcHost (JObj [([101, 769], JArr [JStr [101, 769], JNum 1])]) = [] \<longleftrightarrow>
     strings_normal nfcHost (JObj [([101, 769], JArr [JStr [101, 769], JNum 1])])"
    using nfc_scan_complete by blast
  moreover have "nonNfcPaths nfcHost (JObj [([101, 769], JArr [JStr [101, 769], JNum 1])]) =
     [[101, 769] @ U '' (member name)'', [101, 769] @ U ''[0]'']" by code_simp
  ultimately show ?thesis by blast
qed

end
