(* ===== verification/Opts.thy ===== *)
theory Opts
  imports Bytes "HOL-Library.AList"
begin

text \<open>
  The options boundary of src/src/opts.ts: the one place a caller's object is read. A JavaScript value is
  modelled by what the boundary can observe of it without running caller code: whether it is a proxy, its
  type, its prototype, and its own properties with their descriptors. The result is the record of admitted
  members. The lemmas show that whatever is admitted conforms to the schema and comes from a plain data
  object with known members only.
\<close>

section \<open>JavaScript values\<close>

datatype proto = ObjectPrototype | NullPrototype | ExoticPrototype

datatype prop_key = StrKey jstr | SymKey

text \<open>
  \<open>NonInteger\<close> is a number that is no safe integer; a typed array is an object of exotic prototype.
  \<open>OtherPrimitive\<close> is a symbol or a BigInt.
\<close>

datatype jsval =
    Undefined
  | Null
  | Bool bool
  | SafeInt int
  | NonInteger
  | StringVal jstr
  | Bytes "byte list"
  | OtherPrimitive
  | FunctionVal
  | ProxyVal
  | ArrayVal
  | ObjectVal proto "(prop_key \<times> descriptor) list"
and descriptor = Accessor | Data jsval

section \<open>Schemas\<close>

datatype option_field =
    BooleanField
  | CountField "int option"
  | DocumentField
  | EnumField "jstr list option"
  | NestedField "(jstr \<times> option_field) list option"

type_synonym option_schema = "(jstr \<times> option_field) list"

datatype inert = IBool bool | INum int | IText jstr | IRecord "(jstr \<times> inert) list"

datatype option_error =
    ProxyNotAccepted
  | NeverAFunction
  | NotPlainObject
  | NeverAnArray
  | ExoticProto
  | SymbolKeyed
  | UnknownOption jstr
  | AccessorOption jstr
  | MustBeBoolean jstr
  | MustBeCount jstr
  | ExceedsCeiling jstr
  | NestedWithoutSchema jstr
  | NestsDeeper jstr
  | InsideOption jstr option_error
  | EnumWithoutValues jstr
  | MustBeOneOf jstr
  | BadDocument jstr doc_reason

section \<open>The boundary\<close>

definition closedSetHas :: "jstr list \<Rightarrow> jstr \<Rightarrow> bool" where
  "closedSetHas values v = list_ex (\<lambda>w. w = v) values"

text \<open>What \<open>decodeDocument\<close> sees of a value.\<close>

fun asInput :: "jsval \<Rightarrow> input" where
  "asInput (StringVal s) = Text s"
| "asInput (Bytes bs) = ByteArray bs"
| "asInput _ = OtherValue"

text \<open>
  One member with a known field. \<open>inner\<close> is the call for a nested object, and \<^const>\<open>None\<close> where the depth
  is used up.
\<close>

definition admitField ::
  "(option_schema \<Rightarrow> jsval \<Rightarrow> option_error + (jstr \<times> inert) list) option \<Rightarrow> jstr \<Rightarrow> option_field \<Rightarrow> jsval \<Rightarrow> option_error + inert" where
  "admitField inner key field raw =
     (case field of
        BooleanField \<Rightarrow> (case raw of Bool b \<Rightarrow> Inr (IBool b) | _ \<Rightarrow> Inl (MustBeBoolean key))
      | CountField ceiling \<Rightarrow>
          (case raw of
             SafeInt n \<Rightarrow>
               if n < 0 then Inl (MustBeCount key)
               else (case ceiling of
                       None \<Rightarrow> Inl (ExceedsCeiling key)
                     | Some m \<Rightarrow> if n > m then Inl (ExceedsCeiling key) else Inr (INum n))
           | _ \<Rightarrow> Inl (MustBeCount key))
      | NestedField schema \<Rightarrow>
          (case schema of
             None \<Rightarrow> Inl (NestedWithoutSchema key)
           | Some sch \<Rightarrow>
               (case inner of
                  None \<Rightarrow> Inl (NestsDeeper key)
                | Some admitInner \<Rightarrow>
                    (case admitInner sch raw of Inl e \<Rightarrow> Inl (InsideOption key e) | Inr r \<Rightarrow> Inr (IRecord r))))
      | EnumField values \<Rightarrow>
          (case values of
             None \<Rightarrow> Inl (EnumWithoutValues key)
           | Some vs \<Rightarrow>
               (case raw of
                  StringVal s \<Rightarrow> if closedSetHas vs s then Inr (IText s) else Inl (MustBeOneOf key)
                | _ \<Rightarrow> Inl (MustBeOneOf key)))
      | DocumentField \<Rightarrow>
          (case decodeDocument (asInput raw) of Inl e \<Rightarrow> Inl (BadDocument key e) | Inr t \<Rightarrow> Inr (IText t)))"

definition admitStep ::
  "(option_schema \<Rightarrow> jsval \<Rightarrow> option_error + (jstr \<times> inert) list) option \<Rightarrow> option_schema \<Rightarrow>
     (jstr \<times> inert) list \<Rightarrow> prop_key \<times> descriptor \<Rightarrow> option_error + (jstr \<times> inert) list" where
  "admitStep inner schema out p =
     (case p of
        (SymKey, _) \<Rightarrow> Inl SymbolKeyed
      | (StrKey key, desc) \<Rightarrow>
          (case map_of schema key of
             None \<Rightarrow> Inl (UnknownOption key)
           | Some field \<Rightarrow>
               (case desc of
                  Accessor \<Rightarrow> Inl (AccessorOption key)
                | Data raw \<Rightarrow>
                    if raw = Undefined then Inr out
                    else bindS (admitField inner key field raw) (\<lambda>v. Inr (AList.update key v out)))))"

definition admitBody ::
  "(option_schema \<Rightarrow> jsval \<Rightarrow> option_error + (jstr \<times> inert) list) option \<Rightarrow> option_schema \<Rightarrow> jsval \<Rightarrow>
     option_error + (jstr \<times> inert) list" where
  "admitBody inner schema v =
     (case v of
        Undefined \<Rightarrow> Inr []
      | Null \<Rightarrow> Inr []
      | ProxyVal \<Rightarrow> Inl ProxyNotAccepted
      | FunctionVal \<Rightarrow> Inl NeverAFunction
      | ArrayVal \<Rightarrow> Inl NeverAnArray
      | Bytes _ \<Rightarrow> Inl ExoticProto
      | ObjectVal pr props \<Rightarrow>
          if pr = ExoticPrototype then Inl ExoticProto else foldE (admitStep inner schema) [] props
      | _ \<Rightarrow> Inl NotPlainObject)"

text \<open>\<open>depth\<close> of the source is \<open>MAX_OPTION_DEPTH\<close> minus the levels that are left.\<close>

definition MAX_OPTION_DEPTH :: nat where
  "MAX_OPTION_DEPTH = 1"

primrec admit :: "nat \<Rightarrow> option_schema \<Rightarrow> jsval \<Rightarrow> option_error + (jstr \<times> inert) list" where
  "admit 0 = admitBody None"
| "admit (Suc left) = admitBody (Some (admit left))"

definition inertOptions :: "option_schema \<Rightarrow> jsval \<Rightarrow> option_error + (jstr \<times> inert) list" where
  "inertOptions schema v = admit MAX_OPTION_DEPTH schema v"

section \<open>What is admitted\<close>

fun members :: "jsval \<Rightarrow> (prop_key \<times> descriptor) list" where
  "members (ObjectVal pr props) = props"
| "members _ = []"

text \<open>A plain data object: string keys the schema knows, none of them an accessor.\<close>

definition plain_data :: "option_schema \<Rightarrow> jsval \<Rightarrow> bool" where
  "plain_data sch v \<longleftrightarrow>
     (v = Undefined \<or> v = Null \<or> (\<exists>pr props. v = ObjectVal pr props \<and> pr \<noteq> ExoticPrototype)) \<and>
     (\<forall>p \<in> set (members v). \<exists>key raw. p = (StrKey key, Data raw) \<and> map_of sch key \<noteq> None)"

text \<open>An admitted member is the caller's value, of the type and within the bound its field declares.\<close>

inductive field_conforms :: "(option_schema \<Rightarrow> jsval \<Rightarrow> (jstr \<times> inert) list \<Rightarrow> bool) \<Rightarrow> option_field \<Rightarrow> jsval \<Rightarrow> inert \<Rightarrow> bool"
  for sub where
  "field_conforms sub BooleanField (Bool b) (IBool b)"
| "0 \<le> n \<Longrightarrow> n \<le> m \<Longrightarrow> field_conforms sub (CountField (Some m)) (SafeInt n) (INum n)"
| "s \<in> set vs \<Longrightarrow> field_conforms sub (EnumField (Some vs)) (StringVal s) (IText s)"
| "decodeDocument (asInput raw) = Inr t \<Longrightarrow> field_conforms sub DocumentField raw (IText t)"
| "sub sch raw r \<Longrightarrow> field_conforms sub (NestedField (Some sch)) raw (IRecord r)"

text \<open>The record holds exactly the supplied members, each conforming to its field.\<close>

definition record_body ::
  "(option_schema \<Rightarrow> jsval \<Rightarrow> (jstr \<times> inert) list \<Rightarrow> bool) \<Rightarrow> option_schema \<Rightarrow> jsval \<Rightarrow> (jstr \<times> inert) list \<Rightarrow> bool" where
  "record_body sub sch v r \<longleftrightarrow> plain_data sch v \<and>
     (\<forall>k x. map_of r k = Some x \<longrightarrow> (\<exists>f raw. (StrKey k, Data raw) \<in> set (members v) \<and> map_of sch k = Some f \<and> field_conforms sub f raw x)) \<and>
     (\<forall>k raw. (StrKey k, Data raw) \<in> set (members v) \<longrightarrow> raw = Undefined \<or> map_of r k \<noteq> None)"

primrec record_conforms :: "nat \<Rightarrow> option_schema \<Rightarrow> jsval \<Rightarrow> (jstr \<times> inert) list \<Rightarrow> bool" where
  "record_conforms 0 = record_body (\<lambda>_ _ _. False)"
| "record_conforms (Suc d) = record_body (record_conforms d)"

definition inner_conforms :: "(option_schema \<Rightarrow> jsval \<Rightarrow> option_error + (jstr \<times> inert) list) option \<Rightarrow>
    (option_schema \<Rightarrow> jsval \<Rightarrow> (jstr \<times> inert) list \<Rightarrow> bool) \<Rightarrow> bool" where
  "inner_conforms inner sub \<longleftrightarrow> (\<forall>f sch raw r. inner = Some f \<longrightarrow> f sch raw = Inr r \<longrightarrow> sub sch raw r)"

lemma admitField_conforms:
  assumes "inner_conforms inner sub" "admitField inner key f raw = Inr x"
  shows "field_conforms sub f raw x"
  using assms
  by (auto simp: admitField_def inner_conforms_def closedSetHas_def list_ex_iff not_less intro: field_conforms.intros
      split: option_field.splits jsval.splits option.splits if_splits sum.splits)

text \<open>The loop over the own properties: what was visited is plain data, and the record covers it.\<close>

definition admit_inv :: "(option_schema \<Rightarrow> jsval \<Rightarrow> (jstr \<times> inert) list \<Rightarrow> bool) \<Rightarrow> option_schema \<Rightarrow>
    (prop_key \<times> descriptor) list \<Rightarrow> (jstr \<times> inert) list \<Rightarrow> bool" where
  "admit_inv sub sch props r \<longleftrightarrow> record_body sub sch (ObjectVal NullPrototype props) r"

lemma admitStep_inv:
  assumes "inner_conforms inner sub" "admit_inv sub sch props out" "admitStep inner sch out p = Inr out'"
  shows "admit_inv sub sch (props @ [p]) out'"
proof -
  from assms(3) obtain key f raw where p: "p = (StrKey key, Data raw)" "map_of sch key = Some f"
    and u: "raw = Undefined \<and> out' = out \<or> (\<exists>x. raw \<noteq> Undefined \<and> admitField inner key f raw = Inr x \<and> out' = AList.update key x out)"
    by (auto simp: admitStep_def ok_iff split: prod.splits prop_key.splits option.splits descriptor.splits if_splits)
  have pd: "plain_data sch (ObjectVal NullPrototype (props @ [p]))"
    using assms(2) p by (auto simp: admit_inv_def record_body_def plain_data_def)
  from u show ?thesis
  proof (elim disjE exE conjE)
    fix x assume "admitField inner key f raw = Inr x" "out' = AList.update key x out"
    moreover from this(1) have "field_conforms sub f raw x" by (rule admitField_conforms [OF assms(1)])
    ultimately show ?thesis using pd p assms(2)
      unfolding admit_inv_def record_body_def by (simp add: update_conv') blast
  next
    assume "raw = Undefined" "out' = out"
    then show ?thesis using pd p assms(2) unfolding admit_inv_def record_body_def by simp blast
  qed
qed

lemma admitBody_conforms:
  assumes "inner_conforms inner sub" "admitBody inner sch v = Inr r"
  shows "record_body sub sch v r"
proof (cases "v = Undefined \<or> v = Null")
  case True
  with assms(2) show ?thesis by (auto simp: admitBody_def record_body_def plain_data_def)
next
  case False
  with assms(2) obtain pr props where v: "v = ObjectVal pr props" "pr \<noteq> ExoticPrototype"
    and f: "foldE (admitStep inner sch) [] props = Inr r"
    by (auto simp: admitBody_def split: jsval.splits if_splits)
  have inv: "loop_invariant (admitStep inner sch) (admit_inv sub sch)"
    by unfold_locales (rule admitStep_inv [OF assms(1)])
  have "admit_inv sub sch ([] @ props) r"
    by (rule loop_invariant.foldE_inv [OF inv _ f]) (simp add: admit_inv_def record_body_def plain_data_def)
  then show ?thesis by (auto simp: v admit_inv_def record_body_def plain_data_def)
qed

lemma admit_conforms: "admit d sch v = Inr r \<Longrightarrow> record_conforms d sch v r"
proof (induction d arbitrary: sch v r)
  case 0
  then show ?case by (auto intro: admitBody_conforms simp: inner_conforms_def)
next
  case (Suc d)
  then have "inner_conforms (Some (admit d)) (record_conforms d)" by (simp add: inner_conforms_def)
  with Suc.prems show ?case by (auto intro: admitBody_conforms)
qed

section \<open>Properties\<close>

text \<open>
  (C9) Whatever options are admitted come from a plain data object (no proxy, accessor, symbol key, exotic
  prototype or unknown member) and form a record that holds exactly the members supplied, each of the type
  its schema field declares, each count within its ceiling, each document decoded once from the caller's
  bytes or text, and nested at most one level.
\<close>

theorem options_admitted_conform: "inertOptions sch v = Inr r \<Longrightarrow> record_conforms 1 sch v r"
  unfolding inertOptions_def MAX_OPTION_DEPTH_def by (rule admit_conforms)

theorem options_admitted_conform_witness:
  "record_conforms 1 [(U ''max'', CountField (Some 10)), (U ''keys'', DocumentField), (U ''in'', NestedField (Some [(U ''on'', BooleanField)]))]
     (ObjectVal ObjectPrototype [(StrKey (U ''max''), Data (SafeInt 3)), (StrKey (U ''keys''), Data (Bytes [123, 125])),
        (StrKey (U ''in''), Data (ObjectVal NullPrototype [(StrKey (U ''on''), Data (Bool True))]))])
     [(U ''max'', INum 3), (U ''keys'', IText (U ''{}'')), (U ''in'', IRecord [(U ''on'', IBool True)])]"
  by (rule options_admitted_conform) code_simp

end
