(* ===== verification/Verify.thy ===== *)
theory Verify
  imports Schema Keyring Nfc Opts "HOL-Library.Multiset"
begin

text \<open>
  The chain verifier of src/src/verify.ts: the boundary (\<open>verifyChain\<close>, the strict-bytes profile), the
  verifier over parsed data with its six steps, and the checkpoint verifier. A result is a record with the
  status, the flags and the warnings; the texts of reasons and warnings are one constructor each, with the
  values the text prints. An early return of the source is \<open>Inl\<close> of the result.
\<close>

section \<open>Results\<close>

datatype verify_status = VALID | UNVERIFIED | UNTRUSTED | TAMPERED | MALFORMED | KEY_RETIRED

datatype key_subject = ReceiptKey | CheckpointKey

datatype checkpoint_verdict =
    CpOk | CpUnverified | CpRetired | CpBadSpec | CpMalformed | CpBadSignature

text \<open>A tenant drift message: a sequence number and tenant, and the later ones.\<close>

datatype drift = Drift int "jstr option" int "jstr option"

datatype verify_reason =
    OptionsRefused option_error
  | DocumentReason jstr doc_reason
  | NonCanonicalNoSerialization
  | NonCanonicalBytes
  | NotAnArray
  | EmptyArray
  | TooManyReceipts int
  | ManifestNotObject
  | ManifestEntry jstr
  | ReceiptShape nat "schema_error list"
  | MultiplePartitions
  | DuplicateSeq int
  | SeqGap int
  | TenantDrift drift
  | KeyringReason keyring_error
  | NonCanonicalizable
  | HashMismatch
  | NonNfcStrings int "jstr list"
  | KeySwap jstr jstr jstr
  | UnknownKey jstr
  | BadSignature jstr
  | NotAuthorized jstr jstr
  | GenesisPrevHash
  | BrokenLinkage int
  | CheckpointNotObject
  | CheckpointInvalid checkpoint_verdict
  | CheckpointNotAuthenticated checkpoint_verdict
  | CheckpointChainMismatch
  | HeadMismatch
  | CheckpointNotAuthorized jstr jstr
  | RetiredKey key_subject jstr

datatype verify_warning =
    TenantDriftWarning drift
  | NonNfcWarning int jstr
  | TsBackwards int
  | TsNotComparable int
  | DuplicateId int
  | OpenerScoped
  | CheckpointUnauthenticated
  | CheckpointKidLevel bool
  | NoCheckpoint
  | KeyRetiredWarning key_subject jstr int
  | ForkNotDetectable
  | NoKeyring
  | NoManifest bool
  | ManifestWithoutKeyring

record verify_result =
  vr_status :: verify_status
  vr_chain :: "jstr option"
  vr_count :: int
  vr_signaturesVerified :: bool
  vr_tailChecked :: bool
  vr_badSeq :: "int option"
  vr_reason :: "verify_reason option"
  vr_warnings :: "verify_warning list"

definition fail :: "verify_status \<Rightarrow> verify_reason \<Rightarrow> jstr option \<Rightarrow> int \<Rightarrow> int option \<Rightarrow> verify_result" where
  "fail status reason chain cnt badSeq =
     \<lparr>vr_status = status, vr_chain = chain, vr_count = cnt, vr_signaturesVerified = False, vr_tailChecked = False,
      vr_badSeq = badSeq, vr_reason = Some reason, vr_warnings = []\<rparr>"

definition keyRetired :: "key_subject \<Rightarrow> jstr \<Rightarrow> jstr \<Rightarrow> int \<Rightarrow> int \<Rightarrow> verify_warning list \<Rightarrow> verify_result" where
  "keyRetired subj kid chain cnt seq warnings =
     (fail KEY_RETIRED (RetiredKey subj kid) (Some chain) cnt (Some seq))\<lparr>vr_warnings := warnings\<rparr>"

section \<open>Reading a receipt\<close>

text \<open>
  \<open>list = receiptsSnap as Receipt[]\<close>: after validation the members exist with these types.
\<close>

definition memberAt :: "json \<Rightarrow> jstr \<Rightarrow> jstr \<Rightarrow> json option" where
  "memberAt r a b = (case jget r a of None \<Rightarrow> None | Some v \<Rightarrow> jget v b)"

definition textOf :: "json option \<Rightarrow> jstr" where
  "textOf v = (case v of Some (JStr s) \<Rightarrow> s | _ \<Rightarrow> [])"

definition optText :: "json option \<Rightarrow> jstr option" where
  "optText v = (case v of Some (JStr s) \<Rightarrow> Some s | _ \<Rightarrow> None)"

definition numOf :: "json option \<Rightarrow> int" where
  "numOf v = (case v of Some (JNum n) \<Rightarrow> n | _ \<Rightarrow> 0)"

definition rId :: "json \<Rightarrow> jstr" where "rId r = textOf (jget r (U ''id''))"
definition rTs :: "json \<Rightarrow> jstr" where "rTs r = textOf (jget r (U ''ts''))"
definition rChain :: "json \<Rightarrow> jstr" where "rChain r = textOf (memberAt r (U ''scope'') (U ''chain''))"
definition rTenant :: "json \<Rightarrow> jstr option" where "rTenant r = optText (memberAt r (U ''scope'') (U ''tenant''))"
definition rAgent :: "json \<Rightarrow> jstr" where "rAgent r = textOf (memberAt r (U ''agent'') (U ''id''))"
definition rSeq :: "json \<Rightarrow> int" where "rSeq r = numOf (memberAt r (U ''chain'') (U ''seq''))"
definition rPrevHash :: "json \<Rightarrow> jstr option" where "rPrevHash r = optText (memberAt r (U ''chain'') (U ''prevHash''))"
definition rHash :: "json \<Rightarrow> jstr" where "rHash r = textOf (memberAt r (U ''chain'') (U ''hash''))"
definition rKid :: "json \<Rightarrow> jstr" where "rKid r = textOf (memberAt r (U ''sig'') (U ''kid''))"
definition rSigValue :: "json \<Rightarrow> jstr" where "rSigValue r = textOf (memberAt r (U ''sig'') (U ''value''))"

section \<open>Options\<close>

record verify_options =
  vo_keyring :: "jstr option"
  vo_checkpoint :: "jstr option"
  vo_identityManifest :: "jstr option"
  vo_maxReceipts :: "int option"
  vo_requireTenantConsistency :: "bool option"
  vo_requireNFC :: "bool option"
  vo_profile :: "jstr option"

definition DEFAULT_MAX_RECEIPTS :: int where
  "DEFAULT_MAX_RECEIPTS = 1000000"

definition VERIFY_PROFILES :: "jstr list" where
  "VERIFY_PROFILES = [U ''native'', U ''strict-bytes'']"

definition VERIFY_OPTION_SCHEMA :: option_schema where
  "VERIFY_OPTION_SCHEMA =
     [(U ''keyring'', DocumentField), (U ''checkpoint'', DocumentField), (U ''identityManifest'', DocumentField),
      (U ''maxReceipts'', CountField (Some DEFAULT_MAX_RECEIPTS)), (U ''requireTenantConsistency'', BooleanField),
      (U ''requireNFC'', BooleanField), (U ''profile'', EnumField (Some VERIFY_PROFILES))]"

definition optionText :: "(jstr \<times> inert) list \<Rightarrow> jstr \<Rightarrow> jstr option" where
  "optionText r k = (case map_of r k of Some (IText s) \<Rightarrow> Some s | _ \<Rightarrow> None)"

definition optionNum :: "(jstr \<times> inert) list \<Rightarrow> jstr \<Rightarrow> int option" where
  "optionNum r k = (case map_of r k of Some (INum n) \<Rightarrow> Some n | _ \<Rightarrow> None)"

definition optionBool :: "(jstr \<times> inert) list \<Rightarrow> jstr \<Rightarrow> bool option" where
  "optionBool r k = (case map_of r k of Some (IBool b) \<Rightarrow> Some b | _ \<Rightarrow> None)"

text \<open>The interface \<open>InertVerifyOptions\<close> over the admitted record.\<close>

definition inertVerifyOptions :: "(jstr \<times> inert) list \<Rightarrow> verify_options" where
  "inertVerifyOptions r =
     \<lparr>vo_keyring = optionText r (U ''keyring''), vo_checkpoint = optionText r (U ''checkpoint''),
      vo_identityManifest = optionText r (U ''identityManifest''), vo_maxReceipts = optionNum r (U ''maxReceipts''),
      vo_requireTenantConsistency = optionBool r (U ''requireTenantConsistency''),
      vo_requireNFC = optionBool r (U ''requireNFC''), vo_profile = optionText r (U ''profile'')\<rparr>"

section \<open>The checkpoint verifier\<close>

definition CHECKPOINT_KEYS :: "jstr list" where
  "CHECKPOINT_KEYS = [U ''spec'', U ''chain'', U ''highestSeq'', U ''headHash'', U ''ts'', U ''sig'']"

definition checkpointFieldsOk :: "json \<Rightarrow> bool" where
  "checkpointFieldsOk c \<longleftrightarrow>
     (case jget c (U ''chain'') of Some (JStr s) \<Rightarrow> s \<noteq> [] | _ \<Rightarrow> False) \<and>
     (case jget c (U ''highestSeq'') of Some (JNum n) \<Rightarrow> isSafeInteger n \<and> \<not> n < 0 | _ \<Rightarrow> False) \<and>
     (case jget c (U ''headHash'') of Some (JStr s) \<Rightarrow> isSha256Hash s | _ \<Rightarrow> False) \<and>
     (case jget c (U ''ts'') of Some (JStr s) \<Rightarrow> isRfc3339Instant s | _ \<Rightarrow> False)"

definition checkpointSigOk :: "json \<Rightarrow> bool" where
  "checkpointSigOk c \<longleftrightarrow>
     (case jget c (U ''sig'') of
        None \<Rightarrow> False
      | Some sig \<Rightarrow>
          isPlainObject sig \<and> list_all (\<lambda>k. k \<in> set [U ''alg'', U ''kid'', U ''value'']) (objectKeys sig) \<and>
          jget sig (U ''alg'') = Some (JStr (U ''ed25519'')) \<and>
          (case jget sig (U ''kid'') of Some (JStr s) \<Rightarrow> s \<noteq> [] | _ \<Rightarrow> False) \<and>
          (case jget sig (U ''value'') of Some (JStr s) \<Rightarrow> s \<noteq> [] | _ \<Rightarrow> False))"

definition verifyCheckpointParsed :: "host \<Rightarrow> json \<Rightarrow> parsed_keyring option \<Rightarrow> checkpoint_verdict" where
  "verifyCheckpointParsed H c verification =
     (if \<not> isPlainObject c then CpMalformed
      else if \<not> list_all (\<lambda>k. k \<in> set CHECKPOINT_KEYS) (objectKeys c) then CpMalformed
      else if jget c (U ''spec'') \<noteq> Some (JStr (U ''noa.checkpoint/0.1'')) then CpBadSpec
      else if \<not> checkpointFieldsOk c then CpMalformed
      else if \<not> checkpointSigOk c then CpMalformed
      else
        (let kid = rKid c in
         case verification of
           None \<Rightarrow> CpUnverified
         | Some v \<Rightarrow>
             (case map_of (pk_keyring v) kid of
                None \<Rightarrow> CpUnverified
              | Some pub \<Rightarrow>
                  if pub = [] then CpUnverified
                  else
                    (case checkpointHashInput c of
                       Inl _ \<Rightarrow> CpMalformed
                     | Inr hashInput \<Rightarrow>
                         if \<not> verifyEd25519 H pub (signingMessage (sha256 H) CHECKPOINT_SIG_DOMAIN hashInput) (rSigValue c)
                         then CpBadSignature
                         else if map_of (pk_retiredKids v) kid = Some True then CpRetired else CpOk))))"

definition verifyCheckpoint :: "host \<Rightarrow> input \<Rightarrow> input option \<Rightarrow> checkpoint_verdict" where
  "verifyCheckpoint H cp ring =
     (case parseDocument cp of
        Inl _ \<Rightarrow> CpMalformed
      | Inr c \<Rightarrow>
          (case ring of
             None \<Rightarrow> verifyCheckpointParsed H c None
           | Some r \<Rightarrow>
               (case parseVerificationKeyring H r of
                  Inl _ \<Rightarrow> CpMalformed
                | Inr v \<Rightarrow> verifyCheckpointParsed H c (Some v))))"

section \<open>Validation and ordering\<close>

type_synonym manifest = "(jstr \<times> jstr list) list"

definition manifestKids :: "json option \<Rightarrow> jstr list option" where
  "manifestKids v =
     (case v of
        Some (JArr ks) \<Rightarrow>
          if list_all (\<lambda>k. case k of JStr _ \<Rightarrow> True | _ \<Rightarrow> False) ks then Some (map (\<lambda>k. textOf (Some k)) ks) else None
      | _ \<Rightarrow> None)"

definition manifestStep :: "json \<Rightarrow> manifest \<Rightarrow> jstr \<Rightarrow> verify_result + manifest" where
  "manifestStep live m aid =
     (case manifestKids (jget live aid) of
        None \<Rightarrow> Inl (fail MALFORMED (ManifestEntry aid) None 0 None)
      | Some kids \<Rightarrow> Inr (AList.update aid kids m))"

definition parseManifest :: "int \<Rightarrow> jstr option \<Rightarrow> verify_result + manifest option" where
  "parseManifest n doc =
     (case doc of
        None \<Rightarrow> Inr None
      | Some text \<Rightarrow>
          (case parseDocument (Text text) of
             Inl e \<Rightarrow> Inl (fail MALFORMED (DocumentReason (U ''identityManifest'') e) None n None)
           | Inr live \<Rightarrow>
               if \<not> isPlainObject live then Inl (fail MALFORMED ManifestNotObject None 0 None)
               else bindS (foldE (manifestStep live) [] (objectKeys live)) (\<lambda>m. Inr (Some m))))"

text \<open>Step 1: every element has the shape of a receipt.\<close>

definition checkShapes :: "json list \<Rightarrow> verify_result + unit" where
  "checkShapes rs =
     foldE (\<lambda>_ (idx, r).
       (let errors = validateReceiptShapeParsed r in
        if errors = [] then Inr ()
        else Inl (fail MALFORMED (ReceiptShape idx errors) None (int (length rs)) (Some (int idx)))))
       () (enumerate 0 rs)"

text \<open>Step 2: one partition.\<close>

definition checkPartition :: "json list \<Rightarrow> verify_result + jstr" where
  "checkPartition rs =
     (let chainId = rChain (hd rs) in
      bindS (foldE (\<lambda>_ r. if rChain r \<noteq> chainId
                then Inl (fail TAMPERED MultiplePartitions (Some chainId) (int (length rs)) None) else Inr ()) () rs)
        (\<lambda>_. Inr chainId))"

text \<open>Step 3: by sequence number, contiguous from 0 and unique.\<close>

definition bySeqStep :: "jstr \<Rightarrow> int \<Rightarrow> (int \<times> json) list \<Rightarrow> json \<Rightarrow> verify_result + (int \<times> json) list" where
  "bySeqStep chainId n bySeq r =
     (if map_of bySeq (rSeq r) \<noteq> None
      then Inl (fail TAMPERED (DuplicateSeq (rSeq r)) (Some chainId) n (Some (rSeq r)))
      else Inr (AList.update (rSeq r) r bySeq))"

definition takeSeq :: "jstr \<Rightarrow> int \<Rightarrow> (int \<times> json) list \<Rightarrow> nat \<Rightarrow> verify_result + json" where
  "takeSeq chainId n bySeq s =
     (case map_of bySeq (int s) of
        None \<Rightarrow> Inl (fail TAMPERED (SeqGap (int s)) (Some chainId) n (Some (int s)))
      | Some r \<Rightarrow> Inr r)"

definition orderBySeq :: "jstr \<Rightarrow> json list \<Rightarrow> verify_result + json list" where
  "orderBySeq chainId rs =
     bindS (foldE (bySeqStep chainId (int (length rs))) [] rs) (\<lambda>bySeq.
     mapE (takeSeq chainId (int (length rs)) bySeq) [0..<length rs])"

text \<open>Step 3b: the tenant scan. The state is the previous receipt, the last present tenant and the messages.\<close>

record tenant_scan =
  ts_prev :: "json option"
  ts_lastTenant :: "jstr option"
  ts_lastSeq :: int
  ts_messages :: "drift list"

definition tenantStart :: tenant_scan where
  "tenantStart = \<lparr>ts_prev = None, ts_lastTenant = None, ts_lastSeq = -1, ts_messages = []\<rparr>"

definition tenantStep :: "bool \<Rightarrow> jstr \<Rightarrow> int \<Rightarrow> tenant_scan \<Rightarrow> json \<Rightarrow> verify_result + tenant_scan" where
  "tenantStep require chainId n st curR =
     (let curT = rTenant curR;
          messages =
            (case ts_prev st of
               None \<Rightarrow> ts_messages st
             | Some prevR \<Rightarrow>
                 if curT \<noteq> rTenant prevR
                 then ts_messages st @ [Drift (rSeq prevR) (rTenant prevR) (rSeq curR) curT] else ts_messages st) in
      case curT of
        None \<Rightarrow> Inr (st\<lparr>ts_prev := Some curR, ts_messages := messages\<rparr>)
      | Some t \<Rightarrow>
          (let msg = Drift (ts_lastSeq st) (ts_lastTenant st) (rSeq curR) curT;
               drifted = (ts_lastTenant st \<noteq> None \<and> curT \<noteq> ts_lastTenant st) in
           if drifted \<and> require
           then Inl (fail TAMPERED (TenantDrift msg) (Some chainId) n (Some (rSeq curR)))
           else Inr \<lparr>ts_prev = Some curR, ts_lastTenant = curT, ts_lastSeq = rSeq curR,
             ts_messages = (if drifted \<and> msg \<notin> set messages then messages @ [msg] else messages)\<rparr>))"

section \<open>The chain walk\<close>

text \<open>
  The variables of step 4: the pinned key of every agent, the identifiers seen, the previous receipt, the
  first authentic signature by a retired key, and the warnings.
\<close>

record walk =
  w_pinnedKid :: "(jstr \<times> jstr) list"
  w_seenIds :: "jstr list"
  w_prev :: "json option"
  w_retired :: "(int \<times> jstr) option"
  w_warnings :: "verify_warning list"

text \<open>The constants of the run: identifier and length of the chain, trust root, manifest, options.\<close>

record run =
  run_chainId :: jstr
  run_count :: int
  run_verification :: "parsed_keyring option"
  run_manifest :: "manifest option"
  run_options :: verify_options

definition stop :: "run \<Rightarrow> verify_status \<Rightarrow> verify_reason \<Rightarrow> int \<Rightarrow> verify_result + 'a" where
  "stop R status reason seq = Inl (fail status reason (Some (run_chainId R)) (run_count R) (Some seq))"

text \<open>4a. Hash integrity; the result is the pre-image.\<close>

definition checkHash :: "host \<Rightarrow> run \<Rightarrow> json \<Rightarrow> verify_result + jstr" where
  "checkHash H R r =
     (case receiptHashInput r of
        Inl _ \<Rightarrow> stop R MALFORMED NonCanonicalizable (rSeq r)
      | Inr hashInput \<Rightarrow>
          if U ''sha256:'' @ sha256Hex (sha256 H) hashInput \<noteq> rHash r then stop R TAMPERED HashMismatch (rSeq r)
          else Inr hashInput)"

text \<open>4a-bis. NFC conformance of the payload and the key identifier.\<close>

definition nfcPayload :: "json \<Rightarrow> json" where
  "nfcPayload r = JObj (map (\<lambda>k. (k, the (jget r k)))
     [U ''id'', U ''ts'', U ''scope'', U ''agent'', U ''action'', U ''governance''])"

definition nonNfcOf :: "host \<Rightarrow> json \<Rightarrow> jstr list" where
  "nonNfcOf H r = nonNfcPaths H (nfcPayload r) @ (if isNFC H (rKid r) then [] else [U ''sig.kid''])"

definition checkNfc :: "host \<Rightarrow> run \<Rightarrow> json \<Rightarrow> verify_result + verify_warning list" where
  "checkNfc H R r =
     (let nonNfc = nonNfcOf H r in
      if nonNfc \<noteq> [] \<and> vo_requireNFC (run_options R) = Some True
      then stop R MALFORMED (NonNfcStrings (rSeq r) nonNfc) (rSeq r)
      else Inr (map (NonNfcWarning (rSeq r)) nonNfc))"

text \<open>4b. Key continuity per agent.\<close>

definition pinKid :: "run \<Rightarrow> (jstr \<times> jstr) list \<Rightarrow> json \<Rightarrow> verify_result + (jstr \<times> jstr) list" where
  "pinKid R pinned r =
     (case map_of pinned (rAgent r) of
        None \<Rightarrow> Inr (AList.update (rAgent r) (rKid r) pinned)
      | Some kid \<Rightarrow> if kid \<noteq> rKid r then stop R TAMPERED (KeySwap (rAgent r) kid (rKid r)) (rSeq r) else Inr pinned)"

text \<open>4c. Signature, and the first retired key.\<close>

definition checkSignature :: "host \<Rightarrow> run \<Rightarrow> (int \<times> jstr) option \<Rightarrow> json \<Rightarrow> jstr \<Rightarrow> verify_result + (int \<times> jstr) option" where
  "checkSignature H R retired r hashInput =
     (case run_verification R of
        None \<Rightarrow> Inr retired
      | Some v \<Rightarrow>
          (case map_of (pk_keyring v) (rKid r) of
             None \<Rightarrow> stop R TAMPERED (UnknownKey (rKid r)) (rSeq r)
           | Some pub \<Rightarrow>
               if pub = [] then stop R TAMPERED (UnknownKey (rKid r)) (rSeq r)
               else if \<not> verifyEd25519 H pub (signingMessage (sha256 H) RECEIPT_SIG_DOMAIN hashInput) (rSigValue r)
               then stop R TAMPERED (BadSignature (rKid r)) (rSeq r)
               else if retired = None \<and> map_of (pk_retiredKids v) (rKid r) = Some True
               then Inr (Some (rSeq r, rKid r)) else Inr retired))"

definition authorizes :: "manifest \<Rightarrow> jstr \<Rightarrow> jstr \<Rightarrow> bool" where
  "authorizes m agent kid = (case map_of m agent of None \<Rightarrow> False | Some allowed \<Rightarrow> kid \<in> set allowed)"

text \<open>4c-bis. Identity binding, only with a trust root.\<close>

definition checkIdentity :: "run \<Rightarrow> json \<Rightarrow> verify_result + unit" where
  "checkIdentity R r =
     (case (run_verification R, run_manifest R) of
        (Some _, Some m) \<Rightarrow>
          if authorizes m (rAgent r) (rKid r) then Inr ()
          else stop R UNTRUSTED (NotAuthorized (rAgent r) (rKid r)) (rSeq r)
      | _ \<Rightarrow> Inr ())"

text \<open>4d. Linkage.\<close>

definition checkLinkage :: "run \<Rightarrow> json option \<Rightarrow> json \<Rightarrow> verify_result + unit" where
  "checkLinkage R prev r =
     (if rSeq r = 0 then
        (if rPrevHash r \<noteq> None then stop R TAMPERED GenesisPrevHash 0 else Inr ())
      else if rPrevHash r \<noteq> map_option rHash prev then stop R TAMPERED (BrokenLinkage (rSeq r)) (rSeq r)
      else Inr ())"

text \<open>4e and 4f. Timestamp order and repeated identifiers, reported only.\<close>

definition orderWarnings :: "json option \<Rightarrow> json \<Rightarrow> verify_warning list" where
  "orderWarnings prev r =
     (case prev of
        None \<Rightarrow> []
      | Some p \<Rightarrow>
          (case tsOrder (rTs p) (rTs r) of
             TS_ORDER_BACKWARDS \<Rightarrow> [TsBackwards (rSeq r)]
           | TS_ORDER_NOT_COMPARABLE \<Rightarrow> [TsNotComparable (rSeq r)]
           | TS_ORDER_OK \<Rightarrow> []))"

definition idWarnings :: "jstr list \<Rightarrow> json \<Rightarrow> verify_warning list" where
  "idWarnings seen r = (if rId r \<in> set seen then [DuplicateId (rSeq r)] else [])"

definition walkStep :: "host \<Rightarrow> run \<Rightarrow> walk \<Rightarrow> json \<Rightarrow> verify_result + walk" where
  "walkStep H R w r =
     bindS (checkHash H R r) (\<lambda>hashInput.
     bindS (checkNfc H R r) (\<lambda>nfcWarnings.
     bindS (pinKid R (w_pinnedKid w) r) (\<lambda>pinned.
     bindS (checkSignature H R (w_retired w) r hashInput) (\<lambda>retired.
     bindS (checkIdentity R r) (\<lambda>_.
     bindS (checkLinkage R (w_prev w) r) (\<lambda>_.
     Inr \<lparr>w_pinnedKid = pinned,
       w_seenIds = (if rId r \<in> set (w_seenIds w) then w_seenIds w else w_seenIds w @ [rId r]),
       w_prev = Some r,
       w_retired = retired,
       w_warnings = w_warnings w @ nfcWarnings @ orderWarnings (w_prev w) r @ idWarnings (w_seenIds w) r\<rparr>))))))"

section \<open>Checkpoint and result\<close>

text \<open>The retired signature as reported: its subject, sequence number and key.\<close>

type_synonym retired_report = "(key_subject \<times> int \<times> jstr) option"

definition checkTail :: "host \<Rightarrow> run \<Rightarrow> json list \<Rightarrow> json \<Rightarrow> retired_report \<Rightarrow> verify_warning list \<Rightarrow>
    verify_result + bool \<times> retired_report \<times> verify_warning list" where
  "checkTail H R ordered cp retired warnings =
     (let head = last ordered; endRun = (\<lambda>status reason badSeq. Inl (fail status reason (Some (run_chainId R)) (run_count R) badSeq)) in
      if \<not> isPlainObject cp then endRun MALFORMED CheckpointNotObject None
      else
        (let raw = verifyCheckpointParsed H cp (run_verification R);
             keyIsRetired = (raw = CpRetired);
             cpVerify = (if keyIsRetired then CpOk else raw);
             kid = rKid cp in
         if raw = CpBadSpec \<or> raw = CpMalformed then endRun TAMPERED (CheckpointInvalid raw) None
         else if run_verification R \<noteq> None \<and> cpVerify \<noteq> CpOk then endRun TAMPERED (CheckpointNotAuthenticated cpVerify) None
         else if textOf (jget cp (U ''chain'')) \<noteq> run_chainId R then endRun TAMPERED CheckpointChainMismatch None
         else if numOf (jget cp (U ''highestSeq'')) \<noteq> rSeq head \<or> textOf (jget cp (U ''headHash'')) \<noteq> rHash head
         then endRun TAMPERED HeadMismatch (Some (rSeq head))
         else
           (let bound = (run_verification R \<noteq> None \<and> run_manifest R \<noteq> None);
                genesis = hd ordered in
            if bound \<and> \<not> authorizes (the (run_manifest R)) (rAgent genesis) kid
            then endRun UNTRUSTED (CheckpointNotAuthorized kid (rAgent genesis)) (Some (rSeq head))
            else
              (let retired' = (if keyIsRetired \<and> retired = None then Some (CheckpointKey, rSeq head, kid) else retired) in
               Inr (cpVerify = CpOk, retired',
                 warnings
                 @ (if bound \<and> length (remdups (map rAgent ordered)) > 1 then [OpenerScoped] else [])
                 @ (if cpVerify \<noteq> CpOk then [CheckpointUnauthenticated]
                    else if run_manifest R = None then [CheckpointKidLevel (retired' \<noteq> None)] else []))))))"

definition closingWarnings :: "run \<Rightarrow> retired_report \<Rightarrow> verify_warning list" where
  "closingWarnings R retired =
     (case retired of None \<Rightarrow> [] | Some (subj, seq, kid) \<Rightarrow> [KeyRetiredWarning subj kid seq])
     @ [ForkNotDetectable]
     @ (if run_verification R = None then [NoKeyring] else [])
     @ (if run_manifest R = None then [NoManifest (retired \<noteq> None)]
        else if run_verification R = None then [ManifestWithoutKeyring] else [])"

definition finishRun :: "run \<Rightarrow> bool \<Rightarrow> retired_report \<Rightarrow> verify_warning list \<Rightarrow> verify_result" where
  "finishRun R tailChecked retired warnings =
     (let warnings' = warnings @ closingWarnings R retired in
      case retired of
        Some (subj, seq, kid) \<Rightarrow> keyRetired subj kid (run_chainId R) (run_count R) seq warnings'
      | None \<Rightarrow>
          \<lparr>vr_status = (if run_verification R \<noteq> None then VALID else UNVERIFIED), vr_chain = Some (run_chainId R),
           vr_count = run_count R, vr_signaturesVerified = (run_verification R \<noteq> None), vr_tailChecked = tailChecked,
           vr_badSeq = None, vr_reason = None, vr_warnings = warnings'\<rparr>)"

definition startWalk :: "drift list \<Rightarrow> walk" where
  "startWalk messages = \<lparr>w_pinnedKid = [], w_seenIds = [], w_prev = None, w_retired = None,
     w_warnings = map TenantDriftWarning messages\<rparr>"

text \<open>Steps 4 to 6 on the ordered receipts.\<close>

definition walkAndFinish :: "host \<Rightarrow> run \<Rightarrow> json option \<Rightarrow> drift list \<Rightarrow> json list \<Rightarrow> verify_result + verify_result" where
  "walkAndFinish H R checkpoint messages ordered =
     bindS (foldE (walkStep H R) (startWalk messages) ordered) (\<lambda>w.
       (let retired = map_option (\<lambda>(seq, kid). (ReceiptKey, seq, kid)) (w_retired w) in
        case checkpoint of
          None \<Rightarrow> Inr (finishRun R False retired (w_warnings w @ [NoCheckpoint]))
        | Some cp \<Rightarrow>
            bindS (checkTail H R ordered cp retired (w_warnings w)) (\<lambda>(tailChecked, retired', warnings).
              Inr (finishRun R tailChecked retired' warnings))))"

definition parseKeyringOption :: "host \<Rightarrow> jstr \<Rightarrow> int \<Rightarrow> jstr option \<Rightarrow> verify_result + parsed_keyring option" where
  "parseKeyringOption H chainId n doc =
     (case doc of
        None \<Rightarrow> Inr None
      | Some text \<Rightarrow>
          (case parseVerificationKeyring H (Text text) of
             Inl e \<Rightarrow> Inl (fail MALFORMED (KeyringReason e) (Some chainId) n None)
           | Inr v \<Rightarrow> Inr (Some v)))"

definition parseCheckpointOption :: "int \<Rightarrow> jstr option \<Rightarrow> verify_result + json option" where
  "parseCheckpointOption n doc =
     (case doc of
        None \<Rightarrow> Inr None
      | Some text \<Rightarrow>
          (case parseDocument (Text text) of
             Inl e \<Rightarrow> Inl (fail MALFORMED (DocumentReason (U ''checkpoint'') e) None n None)
           | Inr c \<Rightarrow> Inr (Some c)))"

definition verifyReceiptList :: "host \<Rightarrow> json list \<Rightarrow> verify_options \<Rightarrow> verify_result + verify_result" where
  "verifyReceiptList H rs opts =
     (let n = int (length rs); maxReceipts = (case vo_maxReceipts opts of None \<Rightarrow> DEFAULT_MAX_RECEIPTS | Some m \<Rightarrow> m) in
      if n = 0 then Inl (fail MALFORMED EmptyArray None 0 None)
      else if n > maxReceipts then Inl (fail MALFORMED (TooManyReceipts maxReceipts) None n None)
      else
        bindS (parseCheckpointOption n (vo_checkpoint opts)) (\<lambda>checkpoint.
        bindS (parseManifest n (vo_identityManifest opts)) (\<lambda>man.
        bindS (checkShapes rs) (\<lambda>_.
        bindS (checkPartition rs) (\<lambda>chainId.
        bindS (orderBySeq chainId rs) (\<lambda>ordered.
        bindS (foldE (tenantStep (vo_requireTenantConsistency opts \<noteq> Some False) chainId n) tenantStart ordered) (\<lambda>scan.
        bindS (parseKeyringOption H chainId n (vo_keyring opts)) (\<lambda>verification.
        walkAndFinish H \<lparr>run_chainId = chainId, run_count = n, run_verification = verification, run_manifest = man,
          run_options = opts\<rparr> checkpoint (ts_messages scan) ordered))))))))"

definition verifyParsedChain :: "host \<Rightarrow> json \<Rightarrow> verify_options \<Rightarrow> verify_result" where
  "verifyParsedChain H receipts opts =
     (case receipts of
        JArr rs \<Rightarrow> (case verifyReceiptList H rs opts of Inl r \<Rightarrow> r | Inr r \<Rightarrow> r)
      | _ \<Rightarrow> fail MALFORMED NotAnArray None 0 None)"

section \<open>The boundary\<close>

definition verifyStrictBytesChain :: "host \<Rightarrow> input \<Rightarrow> verify_options \<Rightarrow> verify_result" where
  "verifyStrictBytesChain H receipts opts =
     (case parseDocumentBytes receipts of
        Inl e \<Rightarrow> fail MALFORMED (DocumentReason (U ''receipts'') e) None 0 None
      | Inr (v, text) \<Rightarrow>
          (case canonicalize v of
             Inl _ \<Rightarrow> fail MALFORMED NonCanonicalNoSerialization None 0 None
           | Inr canonical \<Rightarrow>
               if canonical \<noteq> text then fail MALFORMED NonCanonicalBytes None 0 None
               else verifyParsedChain H v opts))"

definition verifyChain :: "host \<Rightarrow> input \<Rightarrow> jsval \<Rightarrow> verify_result" where
  "verifyChain H receipts opts =
     (case inertOptions VERIFY_OPTION_SCHEMA opts of
        Inl e \<Rightarrow> fail MALFORMED (OptionsRefused e) None 0 None
      | Inr admitted \<Rightarrow>
          (let o' = inertVerifyOptions admitted in
           if vo_profile o' = Some (U ''strict-bytes'') then verifyStrictBytesChain H receipts o'
           else
             (case parseDocument receipts of
                Inl e \<Rightarrow> fail MALFORMED (DocumentReason (U ''receipts'') e) None 0 None
              | Inr v \<Rightarrow> verifyParsedChain H v o')))"

definition verifyChainText :: "host \<Rightarrow> jstr \<Rightarrow> jsval \<Rightarrow> verify_result" where
  "verifyChainText H text opts = verifyChain H (Text text) opts"

end
