(* ===== verification/Verify_Correct.thy ===== *)
theory Verify_Correct
  imports Verify
begin

text \<open>
  What the chain verifier decides. The first sections characterise each step by when it succeeds; the last
  ones state the declarative meaning of an accepted chain and the properties: the verdict is decided exactly,
  a refusal carries no positive claim, the order of presentation is irrelevant, and a verified head commits
  to the whole history.
\<close>

section \<open>Ordering by sequence number\<close>

lemma update_fresh: "k \<notin> fst ` set al \<Longrightarrow> AList.update k v al = al @ [(k, v)]"
  by (induction al) auto

definition seqTable :: "json list \<Rightarrow> (int \<times> json) list" where
  "seqTable rs = map (\<lambda>r. (rSeq r, r)) rs"

lemma bySeqStep_table: "bySeqStep c n (seqTable ps) r = (if rSeq r \<in> set (map rSeq ps)
   then Inl (fail TAMPERED (DuplicateSeq (rSeq r)) (Some c) n (Some (rSeq r))) else Inr (seqTable (ps @ [r])))"
proof -
  have "map_of (seqTable ps) (rSeq r) \<noteq> None \<longleftrightarrow> rSeq r \<in> set (map rSeq ps)"
    by (auto simp: map_of_eq_None_iff image_iff seqTable_def)
  then show ?thesis using update_fresh [of "rSeq r" "seqTable ps" r]
    unfolding bySeqStep_def by (auto simp: image_iff seqTable_def)
qed

lemma bySeq_Inr:
  "foldE (bySeqStep c n) (seqTable ps) rs = Inr m \<longleftrightarrow>
     m = seqTable (ps @ rs) \<and> distinct (map rSeq rs) \<and> set (map rSeq ps) \<inter> set (map rSeq rs) = {}"
proof (induction rs arbitrary: ps)
  case (Cons r rs)
  show ?case unfolding foldE.simps bySeqStep_table using Cons.IH [of "ps @ [r]"] by auto
qed auto

lemma bySeq_start: "foldE (bySeqStep c n) [] rs = Inr m \<longleftrightarrow> m = seqTable rs \<and> distinct (map rSeq rs)"
  using bySeq_Inr [of c n "[]" rs m] by (simp add: seqTable_def)

lemma map_of_seq: "distinct (map rSeq rs) \<Longrightarrow> map_of (seqTable rs) s = Some r \<longleftrightarrow> r \<in> set rs \<and> rSeq r = s"
  unfolding seqTable_def by (subst map_of_eq_Some_iff) (auto simp: comp_def)

text \<open>The ordered receipts are the given ones, numbered 0, 1, 2 and so on.\<close>

definition in_order :: "json list \<Rightarrow> json list \<Rightarrow> bool" where
  "in_order ordered rs \<longleftrightarrow> mset ordered = mset rs \<and> map rSeq ordered = map int [0..<length rs]"

lemma in_order_unique: "in_order a rs \<Longrightarrow> in_order b rs' \<Longrightarrow> mset rs = mset rs' \<Longrightarrow> a = b"
proof -
  assume a: "in_order a rs" and b: "in_order b rs'" and m: "mset rs = mset rs'"
  have s: "map rSeq a = map rSeq b" using a b m mset_eq_length [OF m] by (simp add: in_order_def)
  have d: "distinct (map rSeq a)" using a by (simp add: in_order_def distinct_map)
  have "set a = set b" using a b m by (metis in_order_def mset_eq_setD)
  show "a = b"
  proof (rule nth_equalityI)
    show l: "length a = length b" using s by (metis length_map)
    fix i assume i: "i < length a"
    have q: "rSeq (a ! i) = rSeq (b ! i)" using s i l by (metis nth_map)
    have "b ! i \<in> set a" using i l \<open>set a = set b\<close> by simp
    then show "a ! i = b ! i" using q d i by (metis distinct_map inj_on_def nth_mem)
  qed
qed

lemma orderBySeq_ok: "orderBySeq c rs = Inr ordered \<longleftrightarrow> in_order ordered rs"
proof
  assume "orderBySeq c rs = Inr ordered"
  then obtain m where m: "foldE (bySeqStep c (int (length rs))) [] rs = Inr m"
    and t: "mapE (takeSeq c (int (length rs)) m) [0..<length rs] = Inr ordered"
    by (auto simp: orderBySeq_def bindS_Inr)
  have d: "distinct (map rSeq rs)" and e: "m = seqTable rs" using m by (simp_all add: bySeq_start)
  have n: "list_all2 (\<lambda>s r. r \<in> set rs \<and> rSeq r = int s) [0..<length rs] ordered"
    using t unfolding mapE_Inr by (rule list_all2_mono) (auto simp: takeSeq_def e map_of_seq [OF d] split: option.splits)
  then have l: "length ordered = length rs" by (simp add: list_all2_lengthD [symmetric])
  have s: "map rSeq ordered = map int [0..<length rs]"
    using n l by (intro nth_equalityI) (auto simp: list_all2_conv_all_nth)
  have sub: "set ordered \<subseteq> set rs" using n by (auto simp: list_all2_conv_all_nth in_set_conv_nth l)
  have d': "distinct ordered" using s by (metis distinct_map distinct_upt inj_on_of_nat)
  have "set ordered = set rs" using sub d' d l
    by (metis card_subset_eq distinct_card distinct_map finite_set)
  then have "mset ordered = mset rs" using d' d by (metis distinct_map set_eq_iff_mset_eq_distinct)
  then show "in_order ordered rs" using s by (simp add: in_order_def)
next
  assume io: "in_order ordered rs"
  then have l: "length ordered = length rs" by (metis in_order_def mset_eq_length)
  have d: "distinct (map rSeq rs)"
  proof -
    have "distinct (map rSeq ordered)" using io by (simp add: in_order_def distinct_map)
    moreover have "mset (map rSeq ordered) = mset (map rSeq rs)" using io unfolding in_order_def by (metis mset_map)
    ultimately show ?thesis by (metis mset_eq_imp_distinct_iff)
  qed
  define m where "m = seqTable rs"
  then have e: "m = seqTable rs" and m: "foldE (bySeqStep c (int (length rs))) [] rs = Inr m" using d by (simp_all add: bySeq_start)
  have "list_all2 (\<lambda>s r. takeSeq c (int (length rs)) m s = Inr r) [0..<length rs] ordered"
  proof (rule list_all2_all_nthI)
    fix i assume i: "i < length [0..<length rs]"
    have "ordered ! i \<in> set rs" using io i l by (metis in_order_def length_upt minus_nat.diff_0 mset_eq_setD nth_mem)
    moreover have "rSeq (ordered ! i) = int i"
      using io i l by (metis add_0 in_order_def length_upt minus_nat.diff_0 nth_map nth_upt)
    ultimately have "map_of m (int i) = Some (ordered ! i)" using e map_of_seq [OF d] by simp
    then show "takeSeq c (int (length rs)) m ([0..<length rs] ! i) = Inr (ordered ! i)" using i by (simp add: takeSeq_def)
  qed (simp add: l)
  then show "orderBySeq c rs = Inr ordered" by (simp add: orderBySeq_def m mapE_Inr)
qed

section \<open>The tenant scan\<close>

text \<open>All tenants present among the given ones are the same.\<close>

definition one_tenant :: "jstr option list \<Rightarrow> bool" where
  "one_tenant ts \<longleftrightarrow> (\<forall>a b. Some a \<in> set ts \<longrightarrow> Some b \<in> set ts \<longrightarrow> a = b)"

lemma tenantStep_ok:
  "(\<exists>st'. tenantStep req c n st r = Inr st') \<longleftrightarrow> \<not> (req \<and> rTenant r \<noteq> None \<and> ts_lastTenant st \<noteq> None \<and> rTenant r \<noteq> ts_lastTenant st)"
  "tenantStep req c n st r = Inr st' \<Longrightarrow> ts_lastTenant st' = (if rTenant r = None then ts_lastTenant st else rTenant r)"
  by (auto simp: tenantStep_def Let_def split: option.splits if_splits)

lemma tenantScan_ok:
  "(\<exists>st'. foldE (tenantStep req c n) st rs = Inr st') \<longleftrightarrow> (req \<longrightarrow> one_tenant (ts_lastTenant st # map rTenant rs))"
proof (induction rs arbitrary: st)
  case Nil
  then show ?case by (auto simp: one_tenant_def) (metis option.inject)
next
  case (Cons r rs)
  show ?case
  proof (cases "tenantStep req c n st r")
    case (Inl e)
    then have "req \<and> rTenant r \<noteq> None \<and> ts_lastTenant st \<noteq> None \<and> rTenant r \<noteq> ts_lastTenant st"
      using tenantStep_ok(1) [of req c n st r] by auto
    then have "req" "\<not> one_tenant (ts_lastTenant st # map rTenant (r # rs))"
      unfolding one_tenant_def by (auto simp del: not_None_eq) (metis not_None_eq)
    then show ?thesis using Inl by simp
  next
    case (Inr st1)
    then have "\<not> (req \<and> rTenant r \<noteq> None \<and> ts_lastTenant st \<noteq> None \<and> rTenant r \<noteq> ts_lastTenant st)"
      using tenantStep_ok(1) [of req c n st r] by blast
    then have "(req \<longrightarrow> one_tenant (ts_lastTenant st1 # map rTenant rs)) \<longleftrightarrow> (req \<longrightarrow> one_tenant (ts_lastTenant st # map rTenant (r # rs)))"
      unfolding tenantStep_ok(2) [OF Inr] one_tenant_def by (auto split: if_splits)
    then show ?thesis using Inr Cons.IH [of st1] by simp
  qed
qed

section \<open>The chain walk\<close>

definition hash_ok :: "host \<Rightarrow> json \<Rightarrow> bool" where
  "hash_ok H r \<longleftrightarrow> (\<exists>hashInput. receiptHashInput r = Inr hashInput \<and> rHash r = sha256Prefixed (sha256 H) hashInput)"

definition authentic :: "host \<Rightarrow> parsed_keyring \<Rightarrow> json \<Rightarrow> bool" where
  "authentic H v r \<longleftrightarrow> (\<exists>pub hashInput. map_of (pk_keyring v) (rKid r) = Some pub \<and> pub \<noteq> [] \<and> receiptHashInput r = Inr hashInput \<and>
     verifyEd25519 H pub (signingMessage (sha256 H) RECEIPT_SIG_DOMAIN hashInput) (rSigValue r))"

definition retired_kid :: "parsed_keyring \<Rightarrow> jstr \<Rightarrow> bool" where
  "retired_kid v kid \<longleftrightarrow> map_of (pk_retiredKids v) kid = Some True"

text \<open>What step 4 requires of one receipt by itself.\<close>

definition receipt_ok :: "host \<Rightarrow> run \<Rightarrow> json \<Rightarrow> bool" where
  "receipt_ok H R r \<longleftrightarrow> hash_ok H r \<and>
     (vo_requireNFC (run_options R) = Some True \<longrightarrow> nonNfcOf H r = []) \<and>
     (\<forall>v. run_verification R = Some v \<longrightarrow> authentic H v r) \<and>
     (\<forall>v m. run_verification R = Some v \<longrightarrow> run_manifest R = Some m \<longrightarrow> authorizes m (rAgent r) (rKid r))"

text \<open>Every receipt names its predecessor's hash, and a receipt numbered 0 names none.\<close>

fun linked :: "json option \<Rightarrow> json list \<Rightarrow> bool" where
  "linked prev [] = True"
| "linked prev (r # rs) = (rPrevHash r = (if rSeq r = 0 then None else map_option rHash prev) \<and> linked (Some r) rs)"

text \<open>One key per agent.\<close>

definition one_key :: "(jstr \<times> jstr) list \<Rightarrow> json list \<Rightarrow> bool" where
  "one_key pinned rs \<longleftrightarrow> (\<forall>r\<in>set rs. \<forall>kid. map_of pinned (rAgent r) = Some kid \<longrightarrow> kid = rKid r) \<and>
     (\<forall>r\<in>set rs. \<forall>r'\<in>set rs. rKid r \<noteq> rKid r' \<longrightarrow> rAgent r \<noteq> rAgent r')"

lemma checkHash_ok: "checkHash H R r = Inr h \<longleftrightarrow> receiptHashInput r = Inr h \<and> rHash r = sha256Prefixed (sha256 H) h"
  by (auto simp: checkHash_def stop_def sha256Prefixed_def split: sum.splits)

lemma checkNfc_ok: "(\<exists>ws. checkNfc H R r = Inr ws) \<longleftrightarrow> (vo_requireNFC (run_options R) = Some True \<longrightarrow> nonNfcOf H r = [])"
  by (auto simp: checkNfc_def stop_def Let_def)

lemma pinKid_ok:
  "pinKid R pinned r = Inr pinned' \<longleftrightarrow>
     (\<forall>kid. map_of pinned (rAgent r) = Some kid \<longrightarrow> kid = rKid r) \<and>
     pinned' = (if map_of pinned (rAgent r) = None then AList.update (rAgent r) (rKid r) pinned else pinned)"
  by (auto simp: pinKid_def stop_def split: option.splits)

lemma checkSignature_ok:
  assumes "receiptHashInput r = Inr h"
  shows "checkSignature H R retired r h = Inr retired' \<longleftrightarrow>
     (\<forall>v. run_verification R = Some v \<longrightarrow> authentic H v r) \<and>
     retired' = (if retired = None \<and> (\<exists>v. run_verification R = Some v \<and> retired_kid v (rKid r)) then Some (rSeq r, rKid r) else retired)"
  using assms by (auto simp: checkSignature_def stop_def authentic_def retired_kid_def split: option.splits if_splits)

lemma checkIdentity_ok:
  "checkIdentity R r = Inr u \<longleftrightarrow>
     (\<forall>v m. run_verification R = Some v \<longrightarrow> run_manifest R = Some m \<longrightarrow> authorizes m (rAgent r) (rKid r))"
  by (auto simp: checkIdentity_def stop_def split: option.splits)

lemma checkLinkage_ok: "checkLinkage R prev r = Inr u \<longleftrightarrow> rPrevHash r = (if rSeq r = 0 then None else map_option rHash prev)"
  by (auto simp: checkLinkage_def stop_def)

definition after :: "host \<Rightarrow> run \<Rightarrow> walk \<Rightarrow> json \<Rightarrow> walk" where
  "after H R w r =
     \<lparr>w_pinnedKid = (if map_of (w_pinnedKid w) (rAgent r) = None then AList.update (rAgent r) (rKid r) (w_pinnedKid w) else w_pinnedKid w),
      w_seenIds = (if rId r \<in> set (w_seenIds w) then w_seenIds w else w_seenIds w @ [rId r]),
      w_prev = Some r,
      w_retired = (if w_retired w = None \<and> (\<exists>v. run_verification R = Some v \<and> retired_kid v (rKid r)) then Some (rSeq r, rKid r) else w_retired w),
      w_warnings = w_warnings w @ map (NonNfcWarning (rSeq r)) (nonNfcOf H r) @ orderWarnings (w_prev w) r @ idWarnings (w_seenIds w) r\<rparr>"

lemma walkStep_ok:
  "walkStep H R w r = Inr w' \<longleftrightarrow> receipt_ok H R r \<and>
     (\<forall>kid. map_of (w_pinnedKid w) (rAgent r) = Some kid \<longrightarrow> kid = rKid r) \<and>
     rPrevHash r = (if rSeq r = 0 then None else map_option rHash (w_prev w)) \<and> w' = after H R w r"
proof -
  have n: "checkNfc H R r = Inr ws \<longleftrightarrow> (vo_requireNFC (run_options R) = Some True \<longrightarrow> nonNfcOf H r = []) \<and>
      ws = map (NonNfcWarning (rSeq r)) (nonNfcOf H r)" for ws
    by (auto simp: checkNfc_def stop_def Let_def)
  show ?thesis
  proof (cases "receiptHashInput r")
    case (Inl e)
    then show ?thesis by (simp add: walkStep_def checkHash_def stop_def receipt_ok_def hash_ok_def)
  next
    case (Inr h)
    show ?thesis
      unfolding walkStep_def bindS_Inr checkHash_ok n pinKid_ok checkIdentity_ok checkLinkage_ok receipt_ok_def hash_ok_def after_def Inr
      by (simp add: checkSignature_ok [OF Inr] split del: if_split) blast
  qed
qed

lemma after_simps [simp]:
  "w_prev (after H R w r) = Some r"
  "w_retired (after H R w r) = (if w_retired w = None \<and> (\<exists>v. run_verification R = Some v \<and> retired_kid v (rKid r))
     then Some (rSeq r, rKid r) else w_retired w)"
  "map_of (w_pinnedKid (after H R w r)) a = (if map_of (w_pinnedKid w) a = None \<and> a = rAgent r then Some (rKid r) else map_of (w_pinnedKid w) a)"
  by (simp_all add: after_def update_conv')

lemma one_key_Cons:
  assumes "\<And>a. map_of q a = (if map_of p a = None \<and> a = rAgent r then Some (rKid r) else map_of p a)"
  shows "one_key p (r # rs) \<longleftrightarrow> (\<forall>kid. map_of p (rAgent r) = Some kid \<longrightarrow> kid = rKid r) \<and> one_key q rs"
    (is "?l \<longleftrightarrow> ?p \<and> ?r")
proof
  assume l: ?l
  have q: "kid = rKid x" if x: "x \<in> set rs" "map_of q (rAgent x) = Some kid" for x kid
  proof (cases "map_of p (rAgent x)")
    case None
    with x(2) have "rAgent x = rAgent r" "kid = rKid r" using assms [of "rAgent x"] by (simp_all split: if_splits)
    then show ?thesis using l x(1) unfolding one_key_def by (metis list.set_intros(1,2))
  next
    case (Some k)
    with x(2) have "map_of p (rAgent x) = Some kid" using assms [of "rAgent x"] by simp
    then show ?thesis using l x(1) unfolding one_key_def by (metis list.set_intros(2))
  qed
  show "?p \<and> ?r" using l q unfolding one_key_def by (metis list.set_intros(1,2))
next
  assume pr: "?p \<and> ?r"
  then have k: "map_of q (rAgent r) = Some (rKid r)" using assms [of "rAgent r"] by (cases "map_of p (rAgent r)") auto
  have m: "map_of p a = Some kid \<Longrightarrow> map_of q a = Some kid" for a kid using assms [of a] by simp
  show ?l unfolding one_key_def
  proof (intro conjI ballI allI impI)
    fix x kid assume x: "x \<in> set (r # rs)" "map_of p (rAgent x) = Some kid"
    then show "kid = rKid x" using pr m [OF x(2)] unfolding one_key_def by (metis set_ConsD)
  next
    fix x y assume xy: "x \<in> set (r # rs)" "y \<in> set (r # rs)" "rKid x \<noteq> rKid y"
    then show "rAgent x \<noteq> rAgent y" using pr k unfolding one_key_def by (metis set_ConsD)
  qed
qed

lemma walk_ok:
  "foldE (walkStep H R) w rs = Inr w' \<longleftrightarrow>
     list_all (receipt_ok H R) rs \<and> linked (w_prev w) rs \<and> one_key (w_pinnedKid w) rs \<and> w' = foldl (after H R) w rs"
proof (induction rs arbitrary: w)
  case Nil
  then show ?case by (auto simp: one_key_def)
next
  case (Cons r rs)
  show ?case
    unfolding foldE.simps bindS_Inr walkStep_ok one_key_Cons [of "w_pinnedKid (after H R w r)", OF after_simps(3)]
    using Cons.IH [of "after H R w r"] by auto
qed

lemma after_retired:
  "w_retired (foldl (after H R) w rs) = None \<longleftrightarrow> w_retired w = None \<and>
     \<not> (\<exists>v. run_verification R = Some v \<and> (\<exists>r\<in>set rs. retired_kid v (rKid r)))"
  by (induction rs arbitrary: w) auto

lemma after_retired_kept: "w_retired w = Some p \<Longrightarrow> w_retired (foldl (after H R) w rs) = Some p"
  by (induction rs arbitrary: w) auto

lemma after_retired_names:
  "w_retired (foldl (after H R) w rs) = Some (s, k) \<Longrightarrow> w_retired w = None \<Longrightarrow>
     \<exists>v r. run_verification R = Some v \<and> r \<in> set rs \<and> retired_kid v k \<and> rSeq r = s \<and> rKid r = k"
proof (induction rs arbitrary: w)
  case (Cons r rs)
  show ?case
  proof (cases "w_retired (after H R w r)")
    case None
    from Cons.IH [OF _ this] Cons.prems show ?thesis by auto
  next
    case (Some p)
    with Cons.prems after_retired_kept [OF this] have "w_retired (after H R w r) = Some (s, k)" by simp
    with Cons.prems(2) show ?thesis by (auto split: if_splits)
  qed
qed simp

section \<open>Accepted runs\<close>

lemma foldE_unit: "foldE (\<lambda>_ x. f x) () xs = Inr u \<longleftrightarrow> (\<forall>x\<in>set xs. f x = Inr ())"
  by (induction xs) (auto simp: bindS_Inr)

lemma checkShapes_ok: "checkShapes rs = Inr u \<longleftrightarrow> list_all wf_receipt rs"
proof -
  have "checkShapes rs = Inr u \<longleftrightarrow> (\<forall>p\<in>set (enumerate 0 rs). validateReceiptShapeParsed (snd p) = [])"
    unfolding checkShapes_def foldE_unit by (rule ball_cong) (auto simp: Let_def split: if_splits)
  also have "\<dots> \<longleftrightarrow> list_all wf_receipt (map snd (enumerate 0 rs))"
    unfolding validate_Nil by (auto simp: list_all_iff simp del: map_snd_enumerate)
  also have "map snd (enumerate 0 rs) = rs" by simp
  finally show ?thesis .
qed

definition one_partition :: "json list \<Rightarrow> bool" where
  "one_partition rs \<longleftrightarrow> (\<forall>r\<in>set rs. rChain r = rChain (hd rs))"

lemma checkPartition_ok: "checkPartition rs = Inr c \<longleftrightarrow> c = rChain (hd rs) \<and> one_partition rs"
  unfolding checkPartition_def one_partition_def Let_def bindS_Inr foldE_unit by auto

text \<open>What step 5 requires of a checkpoint.\<close>

definition tail_ok :: "host \<Rightarrow> run \<Rightarrow> json list \<Rightarrow> json \<Rightarrow> bool" where
  "tail_ok H R ordered cp \<longleftrightarrow> isPlainObject cp \<and>
     verifyCheckpointParsed H cp (run_verification R) \<in> (if run_verification R = None then {CpUnverified} else {CpOk, CpRetired}) \<and>
     textOf (jget cp (U ''chain'')) = run_chainId R \<and>
     numOf (jget cp (U ''highestSeq'')) = rSeq (last ordered) \<and> textOf (jget cp (U ''headHash'')) = rHash (last ordered) \<and>
     (\<forall>v m. run_verification R = Some v \<longrightarrow> run_manifest R = Some m \<longrightarrow> authorizes m (rAgent (hd ordered)) (rKid cp))"

lemma verifyCheckpointParsed_None: "verifyCheckpointParsed H c None \<in> {CpBadSpec, CpMalformed, CpUnverified}"
  by (simp add: verifyCheckpointParsed_def Let_def)

lemma checkTail_ok:
  "checkTail H R ordered cp retired ws = Inr (tc, retired', ws') \<Longrightarrow> tail_ok H R ordered cp \<and>
     tc = (run_verification R \<noteq> None) \<and>
     retired' = (if verifyCheckpointParsed H cp (run_verification R) = CpRetired \<and> retired = None
       then Some (CheckpointKey, rSeq (last ordered), rKid cp) else retired)"
  using verifyCheckpointParsed_None [of H cp]
  by (cases "run_verification R"; cases "verifyCheckpointParsed H cp (run_verification R)")
    (auto simp: checkTail_def tail_ok_def Let_def split: if_splits)

lemma checkTail_total: "tail_ok H R ordered cp \<Longrightarrow> \<exists>p. checkTail H R ordered cp retired ws = Inr p"
  by (cases "run_verification R") (auto simp: checkTail_def tail_ok_def Let_def)


text \<open>The constants of a run, from the receipts, the options and the parsed trust inputs.\<close>

definition runOf :: "json list \<Rightarrow> verify_options \<Rightarrow> parsed_keyring option \<Rightarrow> manifest option \<Rightarrow> run" where
  "runOf rs opts v man = \<lparr>run_chainId = rChain (hd rs), run_count = int (length rs), run_verification = v, run_manifest = man,
     run_options = opts\<rparr>"

definition maxOf :: "verify_options \<Rightarrow> int" where
  "maxOf opts = (case vo_maxReceipts opts of None \<Rightarrow> DEFAULT_MAX_RECEIPTS | Some m \<Rightarrow> m)"

text \<open>
  An accepted chain, declaratively: well-formed receipts of one partition, numbered without gap or repetition,
  of one tenant unless the caller opted out, each with its recomputed hash and linked to its predecessor, one
  key per agent, the signatures authentic under the trust root if there is one, the agents authorized by the
  manifest if there is one, and the head the one of the checkpoint if there is one.
\<close>

definition accepted :: "host \<Rightarrow> json list \<Rightarrow> verify_options \<Rightarrow> parsed_keyring option \<Rightarrow> manifest option \<Rightarrow> json option \<Rightarrow> json list \<Rightarrow> bool" where
  "accepted H rs opts v man cp ordered \<longleftrightarrow> rs \<noteq> [] \<and> int (length rs) \<le> maxOf opts \<and>
     parseCheckpointOption (int (length rs)) (vo_checkpoint opts) = Inr cp \<and>
     parseManifest (int (length rs)) (vo_identityManifest opts) = Inr man \<and>
     parseKeyringOption H (rChain (hd rs)) (int (length rs)) (vo_keyring opts) = Inr v \<and>
     list_all wf_receipt rs \<and> one_partition rs \<and> in_order ordered rs \<and>
     (vo_requireTenantConsistency opts \<noteq> Some False \<longrightarrow> one_tenant (map rTenant ordered)) \<and>
     list_all (receipt_ok H (runOf rs opts v man)) ordered \<and> linked None ordered \<and> one_key [] ordered \<and>
     (\<forall>c. cp = Some c \<longrightarrow> tail_ok H (runOf rs opts v man) ordered c)"

text \<open>Some signature of the run, of a receipt or of the checkpoint, is by a retired key.\<close>

definition uses_retired :: "host \<Rightarrow> parsed_keyring option \<Rightarrow> json option \<Rightarrow> json list \<Rightarrow> bool" where
  "uses_retired H v cp ordered \<longleftrightarrow> (\<exists>k. v = Some k \<and>
     ((\<exists>r\<in>set ordered. retired_kid k (rKid r)) \<or> (\<exists>c. cp = Some c \<and> verifyCheckpointParsed H c v = CpRetired)))"

lemma one_tenant_None: "one_tenant (None # ts) = one_tenant ts"
  by (auto simp: one_tenant_def)

definition decided :: "host \<Rightarrow> parsed_keyring option \<Rightarrow> json option \<Rightarrow> json list \<Rightarrow> verify_result \<Rightarrow> bool" where
  "decided H v cp ordered res \<longleftrightarrow>
     vr_status res = (if uses_retired H v cp ordered then KEY_RETIRED else if v \<noteq> None then VALID else UNVERIFIED) \<and>
     vr_signaturesVerified res = (vr_status res = VALID) \<and> vr_tailChecked res = (vr_status res = VALID \<and> cp \<noteq> None) \<and>
     vr_chain res = Some (rChain (hd ordered)) \<and> vr_count res = int (length ordered)"

lemma finishRun_decided:
  "vr_status (finishRun R tc retired ws) = (if retired \<noteq> None then KEY_RETIRED else if run_verification R \<noteq> None then VALID else UNVERIFIED)"
  "vr_signaturesVerified (finishRun R tc retired ws) = (retired = None \<and> run_verification R \<noteq> None)"
  "vr_tailChecked (finishRun R tc retired ws) = (retired = None \<and> tc)"
  "vr_chain (finishRun R tc retired ws) = Some (run_chainId R)" "vr_count (finishRun R tc retired ws) = run_count R"
  by (auto simp: finishRun_def keyRetired_def fail_def Let_def split: option.splits)

lemma walkAndFinish_Inr:
  assumes "walkAndFinish H R cp messages ordered = Inr res"
  shows "list_all (receipt_ok H R) ordered \<and> linked None ordered \<and> one_key [] ordered \<and> (\<forall>c. cp = Some c \<longrightarrow> tail_ok H R ordered c)"
    and "\<exists>tc retired ws. res = finishRun R tc retired ws \<and> tc = (cp \<noteq> None \<and> run_verification R \<noteq> None) \<and>
      (retired \<noteq> None \<longleftrightarrow> uses_retired H (run_verification R) cp ordered)"
proof -
  define w where "w = foldl (after H R) (startWalk messages) ordered"
  define ret where "ret = map_option (\<lambda>(seq, kid). (ReceiptKey, seq, kid)) (w_retired w)"
  from assms have walk: "foldE (walkStep H R) (startWalk messages) ordered = Inr w"
    unfolding walkAndFinish_def bindS_Inr walk_ok w_def by blast
  then have ok: "list_all (receipt_ok H R) ordered \<and> linked None ordered \<and> one_key [] ordered"
    unfolding walk_ok by (simp add: startWalk_def)
  have ret: "ret \<noteq> None \<longleftrightarrow> (\<exists>v. run_verification R = Some v \<and> (\<exists>r\<in>set ordered. retired_kid v (rKid r)))"
    using after_retired [of H R "startWalk messages" ordered] by (auto simp: ret_def w_def startWalk_def)
  have "(\<forall>c. cp = Some c \<longrightarrow> tail_ok H R ordered c) \<and>
    (\<exists>tc retired ws. res = finishRun R tc retired ws \<and> tc = (cp \<noteq> None \<and> run_verification R \<noteq> None) \<and>
      (retired \<noteq> None \<longleftrightarrow> uses_retired H (run_verification R) cp ordered))"
  proof (cases cp)
    case None
    then have "res = finishRun R False ret (w_warnings w @ [NoCheckpoint])"
      using assms walk by (simp add: walkAndFinish_def Let_def ret_def)
    moreover have "ret \<noteq> None \<longleftrightarrow> uses_retired H (run_verification R) cp ordered" using ret by (simp add: uses_retired_def None)
    ultimately show ?thesis using None by blast
  next
    case (Some c)
    then obtain tc ret' ws where t: "checkTail H R ordered c ret (w_warnings w) = Inr (tc, ret', ws)" "res = finishRun R tc ret' ws"
      using assms walk by (auto simp: walkAndFinish_def Let_def ret_def bindS_Inr)
    note k = checkTail_ok [OF t(1)]
    then have "tail_ok H R ordered c" by blast
    moreover have "ret' \<noteq> None \<longleftrightarrow> uses_retired H (run_verification R) cp ordered"
    proof -
      have "verifyCheckpointParsed H c (run_verification R) = CpRetired \<Longrightarrow> run_verification R \<noteq> None"
        using verifyCheckpointParsed_None [of H c] by (cases "run_verification R") auto
      then show ?thesis using k ret unfolding uses_retired_def Some by (cases "run_verification R") auto
    qed
    ultimately show ?thesis using k t(2) Some by auto
  qed
  with ok show "list_all (receipt_ok H R) ordered \<and> linked None ordered \<and> one_key [] ordered \<and> (\<forall>c. cp = Some c \<longrightarrow> tail_ok H R ordered c)"
    "\<exists>tc retired ws. res = finishRun R tc retired ws \<and> tc = (cp \<noteq> None \<and> run_verification R \<noteq> None) \<and>
      (retired \<noteq> None \<longleftrightarrow> uses_retired H (run_verification R) cp ordered)" by blast+
qed


lemma verifyReceiptList_Inr:
  assumes "verifyReceiptList H rs opts = Inr res"
  obtains v man cp ordered where "accepted H rs opts v man cp ordered" "decided H v cp ordered res"
proof -
  let ?n = "int (length rs)"
  from assms have ne: "rs \<noteq> []" and len: "?n \<le> maxOf opts"
    by (auto simp: verifyReceiptList_def Let_def maxOf_def split: if_splits)
  have body: "bindS (parseCheckpointOption ?n (vo_checkpoint opts)) (\<lambda>checkpoint.
        bindS (parseManifest ?n (vo_identityManifest opts)) (\<lambda>man.
        bindS (checkShapes rs) (\<lambda>_.
        bindS (checkPartition rs) (\<lambda>chainId.
        bindS (orderBySeq chainId rs) (\<lambda>ordered.
        bindS (foldE (tenantStep (vo_requireTenantConsistency opts \<noteq> Some False) chainId ?n) tenantStart ordered) (\<lambda>scan.
        bindS (parseKeyringOption H chainId ?n (vo_keyring opts)) (\<lambda>verification.
        walkAndFinish H \<lparr>run_chainId = chainId, run_count = ?n, run_verification = verification, run_manifest = man,
          run_options = opts\<rparr> checkpoint (ts_messages scan) ordered))))))) = Inr res"
    using assms ne len unfolding verifyReceiptList_def Let_def maxOf_def by simp
  from this [unfolded bindS_Inr checkShapes_ok checkPartition_ok orderBySeq_ok]
  obtain cp man ordered scan v where
    *: "parseCheckpointOption ?n (vo_checkpoint opts) = Inr cp" "parseManifest ?n (vo_identityManifest opts) = Inr man"
      "list_all wf_receipt rs" "one_partition rs" "in_order ordered rs"
      "foldE (tenantStep (vo_requireTenantConsistency opts \<noteq> Some False) (rChain (hd rs)) ?n) tenantStart ordered = Inr scan"
      "parseKeyringOption H (rChain (hd rs)) ?n (vo_keyring opts) = Inr v"
      "walkAndFinish H (runOf rs opts v man) cp (ts_messages scan) ordered = Inr res"
    unfolding runOf_def by blast
  have ten: "vo_requireTenantConsistency opts \<noteq> Some False \<longrightarrow> one_tenant (map rTenant ordered)"
    using *(6) tenantScan_ok [of _ _ ?n tenantStart ordered] one_tenant_None by (simp add: tenantStart_def) metis
  have acc: "accepted H rs opts v man cp ordered"
    unfolding accepted_def using ne len *(1-5,7) ten walkAndFinish_Inr(1) [OF *(8)] by blast
  have "set ordered = set rs" "length ordered = length rs" using *(5) unfolding in_order_def by (metis mset_eq_setD, metis mset_eq_length)
  then have head: "rChain (hd ordered) = rChain (hd rs)" using *(4) ne unfolding one_partition_def by (metis hd_in_set length_0_conv)
  have "decided H v cp ordered res"
    using walkAndFinish_Inr(2) [OF *(8)] head \<open>length ordered = length rs\<close>
    unfolding decided_def by (auto simp: finishRun_decided runOf_def)
  with acc show thesis by (rule that)
qed

lemma verifyReceiptList_accepts:
  assumes "accepted H rs opts v man cp ordered"
  shows "\<exists>res. verifyReceiptList H rs opts = Inr res"
proof -
  let ?n = "int (length rs)" and ?R = "runOf rs opts v man"
  from assms have ne: "rs \<noteq> []" and len: "\<not> maxOf opts < ?n" and
    p: "parseCheckpointOption ?n (vo_checkpoint opts) = Inr cp" "parseManifest ?n (vo_identityManifest opts) = Inr man"
      "parseKeyringOption H (rChain (hd rs)) ?n (vo_keyring opts) = Inr v" and
    ten: "vo_requireTenantConsistency opts \<noteq> Some False \<longrightarrow> one_tenant (map rTenant ordered)" and
    w: "list_all (receipt_ok H ?R) ordered" "linked None ordered" "one_key [] ordered" and
    tail: "\<And>c. cp = Some c \<Longrightarrow> tail_ok H ?R ordered c"
    unfolding accepted_def not_less by blast+
  have s: "checkShapes rs = Inr ()" "checkPartition rs = Inr (rChain (hd rs))" "orderBySeq (rChain (hd rs)) rs = Inr ordered"
    using assms unfolding accepted_def checkShapes_ok checkPartition_ok orderBySeq_ok by blast+
  obtain scan where scan: "foldE (tenantStep (vo_requireTenantConsistency opts \<noteq> Some False) (rChain (hd rs)) ?n) tenantStart ordered = Inr scan"
    using ten tenantScan_ok [of "vo_requireTenantConsistency opts \<noteq> Some False" "rChain (hd rs)" ?n tenantStart ordered] one_tenant_None
    by (simp add: tenantStart_def) metis
  have walk: "foldE (walkStep H ?R) (startWalk (ts_messages scan)) ordered = Inr (foldl (after H ?R) (startWalk (ts_messages scan)) ordered)"
    unfolding walk_ok using w by (simp add: startWalk_def)
  have "\<exists>res. walkAndFinish H ?R cp (ts_messages scan) ordered = Inr res"
  proof (cases cp)
    case None
    then show ?thesis by (simp add: walkAndFinish_def walk Let_def)
  next
    case (Some c)
    from checkTail_total [OF tail [OF this]] show ?thesis using Some by (fastforce simp: walkAndFinish_def walk Let_def bindS_Inr)
  qed
  then obtain res where "walkAndFinish H ?R cp (ts_messages scan) ordered = Inr res" ..
  then show ?thesis
    using ne len p s scan unfolding verifyReceiptList_def Let_def maxOf_def [symmetric] runOf_def by simp
qed

section \<open>Refusals\<close>

definition refusal :: "verify_result \<Rightarrow> bool" where
  "refusal r \<longleftrightarrow> vr_status r \<in> {MALFORMED, TAMPERED, UNTRUSTED} \<and> \<not> vr_signaturesVerified r \<and> \<not> vr_tailChecked r \<and>
     vr_reason r \<noteq> None \<and> vr_warnings r = []"

definition refuses :: "verify_result + 'a \<Rightarrow> bool" where
  "refuses m \<longleftrightarrow> (\<forall>r. m = Inl r \<longrightarrow> refusal r)"

lemma refuses_fail [intro]: "status \<in> {MALFORMED, TAMPERED, UNTRUSTED} \<Longrightarrow> refusal (fail status reason c n b)"
  by (auto simp: refusal_def fail_def)

lemma refuses_Inr [simp]: "refuses (Inr x)"
  by (simp add: refuses_def)

lemma refuses_Inl: "refuses (Inl r) = refusal r"
  by (simp add: refuses_def)

lemma refuses_stop: "status \<in> {MALFORMED, TAMPERED, UNTRUSTED} \<Longrightarrow> refuses (stop R status reason seq)"
  by (auto simp: refuses_def stop_def)

lemma refuses_bindS [intro]: "refuses m \<Longrightarrow> (\<And>x. m = Inr x \<Longrightarrow> refuses (f x)) \<Longrightarrow> refuses (bindS m f)"
  by (cases m) (auto simp: refuses_def)

lemma refuses_foldE: "(\<And>s x. refuses (step s x)) \<Longrightarrow> refuses (foldE step s xs)"
  by (induction xs arbitrary: s) auto

lemma refuses_mapE: "(\<And>x. refuses (f x)) \<Longrightarrow> refuses (mapE f xs)"
  by (induction xs) (auto intro!: refuses_bindS)

lemmas refuses_intros = refuses_foldE refuses_mapE refuses_bindS refuses_fail

lemma refuses_walkStep: "refuses (walkStep H R w r)"
  unfolding walkStep_def
  by (intro refuses_bindS)
    (auto simp: checkHash_def checkNfc_def pinKid_def checkSignature_def checkIdentity_def checkLinkage_def Let_def
      intro!: refuses_stop split: sum.splits option.splits)

lemma refuses_checkTail: "refuses (checkTail H R ordered cp retired ws)"
  by (auto simp: checkTail_def Let_def refuses_Inl)

lemma refuses_walkAndFinish: "refuses (walkAndFinish H R cp messages ordered)"
  unfolding walkAndFinish_def Let_def
  by (intro refuses_bindS refuses_foldE refuses_walkStep) (auto split: option.splits intro!: refuses_bindS refuses_checkTail)

lemma refuses_parse:
  "refuses (parseCheckpointOption n c)" "refuses (parseManifest n m)" "refuses (parseKeyringOption H ch n k)"
  by (auto simp: parseCheckpointOption_def parseManifest_def parseKeyringOption_def manifestStep_def refuses_Inl
      intro!: refuses_bindS refuses_foldE split: option.splits sum.splits)

lemma refuses_order:
  "refuses (checkShapes rs)" "refuses (checkPartition rs)" "refuses (orderBySeq c rs)" "refuses (foldE (tenantStep req c n) st rs)"
  by (auto simp: checkShapes_def checkPartition_def orderBySeq_def bySeqStep_def takeSeq_def tenantStep_def Let_def refuses_Inl
      intro!: refuses_bindS refuses_foldE refuses_mapE split: option.splits)

lemma refuses_verifyReceiptList: "refuses (verifyReceiptList H rs opts)"
  unfolding verifyReceiptList_def Let_def
  by (auto simp: refuses_Inl intro!: refuses_bindS refuses_parse refuses_order refuses_walkAndFinish)

section \<open>The verdict\<close>

lemma verifyParsedChain_cases:
  obtains (refused) "refusal (verifyParsedChain H doc opts)"
  | (passed) rs v man cp ordered where "doc = JArr rs" "verifyReceiptList H rs opts = Inr (verifyParsedChain H doc opts)"
      "accepted H rs opts v man cp ordered" "decided H v cp ordered (verifyParsedChain H doc opts)"
proof (cases "\<exists>rs. doc = JArr rs")
  case True
  then obtain rs where doc: "doc = JArr rs" ..
  show thesis
  proof (cases "verifyReceiptList H rs opts")
    case (Inl r)
    then show thesis using refuses_verifyReceiptList [of H rs opts] refused by (simp add: refuses_Inl verifyParsedChain_def doc)
  next
    case (Inr res)
    then have res: "verifyParsedChain H doc opts = res" by (simp add: verifyParsedChain_def doc)
    from verifyReceiptList_Inr [OF Inr] obtain v man cp ordered where "accepted H rs opts v man cp ordered" "decided H v cp ordered res" .
    then show thesis using passed [OF doc] Inr by (simp add: res)
  qed
next
  case False
  then have "verifyParsedChain H doc opts = fail MALFORMED NotAnArray None 0 None"
    by (cases doc) (simp_all add: verifyParsedChain_def)
  then show thesis using refused by (simp add: refuses_fail)
qed

lemma refusal_status: "refusal r \<Longrightarrow> vr_status r \<notin> {VALID, UNVERIFIED, KEY_RETIRED}"
  by (auto simp: refusal_def)

lemma accepted_unique:
  assumes "accepted H rs opts v man cp ordered" "accepted H rs opts v' man' cp' ordered'"
  shows "v = v' \<and> man = man' \<and> cp = cp' \<and> ordered = ordered'"
  using assms in_order_unique [of ordered rs ordered' rs] unfolding accepted_def by auto

lemma accepted_verdict:
  assumes "accepted H rs opts v man cp ordered"
  shows "decided H v cp ordered (verifyParsedChain H (JArr rs) opts)"
proof -
  obtain res where res: "verifyReceiptList H rs opts = Inr res" using verifyReceiptList_accepts [OF assms] ..
  obtain v' man' cp' ordered' where a: "accepted H rs opts v' man' cp' ordered'" "decided H v' cp' ordered' res"
    using verifyReceiptList_Inr [OF res] .
  have "decided H v cp ordered res" using accepted_unique [OF assms a(1)] a(2) by simp
  then show ?thesis by (simp add: verifyParsedChain_def res)
qed

lemma passed_accepted:
  assumes "vr_status (verifyParsedChain H doc opts) \<in> {VALID, UNVERIFIED, KEY_RETIRED}"
  obtains rs v man cp ordered where "doc = JArr rs" "accepted H rs opts v man cp ordered"
    "decided H v cp ordered (verifyParsedChain H doc opts)"
  using assms by (cases rule: verifyParsedChain_cases [of H doc opts]) (auto dest: refusal_status)

lemma status_iff:
  "vr_status (verifyParsedChain H (JArr rs) opts) = VALID \<longleftrightarrow>
     (\<exists>v man cp ordered. accepted H rs opts (Some v) man cp ordered \<and> \<not> uses_retired H (Some v) cp ordered)"
  "vr_status (verifyParsedChain H (JArr rs) opts) = KEY_RETIRED \<longleftrightarrow>
     (\<exists>v man cp ordered. accepted H rs opts (Some v) man cp ordered \<and> uses_retired H (Some v) cp ordered)"
  "vr_status (verifyParsedChain H (JArr rs) opts) = UNVERIFIED \<longleftrightarrow> (\<exists>man cp ordered. accepted H rs opts None man cp ordered)"
proof -
  have none: "\<not> uses_retired H None cp ordered" for cp ordered by (simp add: uses_retired_def)
  have d: "accepted H rs opts v man cp ordered \<Longrightarrow> vr_status (verifyParsedChain H (JArr rs) opts) =
      (if uses_retired H v cp ordered then KEY_RETIRED else if v \<noteq> None then VALID else UNVERIFIED)" for v man cp ordered
    by (drule accepted_verdict) (simp add: decided_def)
  have e: "\<exists>v man cp ordered. accepted H rs opts v man cp ordered"
    if "vr_status (verifyParsedChain H (JArr rs) opts) \<in> {VALID, UNVERIFIED, KEY_RETIRED}"
    using that by (rule passed_accepted) auto
  show "vr_status (verifyParsedChain H (JArr rs) opts) = VALID \<longleftrightarrow>
      (\<exists>v man cp ordered. accepted H rs opts (Some v) man cp ordered \<and> \<not> uses_retired H (Some v) cp ordered)" (is "?s = VALID \<longleftrightarrow> ?e")
  proof
    assume s: "?s = VALID"
    with e obtain v man cp ordered where a: "accepted H rs opts v man cp ordered" by auto
    with d [OF a] s show ?e by (cases v) (auto split: if_splits)
  qed (auto dest!: d)
  show "?s = KEY_RETIRED \<longleftrightarrow>
     (\<exists>v man cp ordered. accepted H rs opts (Some v) man cp ordered \<and> uses_retired H (Some v) cp ordered)" (is "_ \<longleftrightarrow> ?e")
  proof
    assume s: "?s = KEY_RETIRED"
    with e obtain v man cp ordered where a: "accepted H rs opts v man cp ordered" by auto
    with d [OF a] s none show ?e by (cases v) (auto split: if_splits)
  qed (auto dest!: d)
  show "?s = UNVERIFIED \<longleftrightarrow> (\<exists>man cp ordered. accepted H rs opts None man cp ordered)" (is "_ \<longleftrightarrow> ?e")
  proof
    assume s: "?s = UNVERIFIED"
    with e obtain v man cp ordered where a: "accepted H rs opts v man cp ordered" by auto
    with d [OF a] s show ?e by (cases v) (auto split: if_splits)
  qed (auto dest!: d simp: none)
qed

text \<open>The order in which the receipts are presented.\<close>

lemma presentation_order:
  assumes a: "accepted H rs opts v man cp ordered" and m: "mset rs' = mset rs"
  shows "verifyReceiptList H rs' opts = verifyReceiptList H rs opts"
proof -
  have set: "set rs' = set rs" and len: "length rs' = length rs" using m by (metis mset_eq_setD, metis mset_eq_length)
  have "rs' \<noteq> []" "rs \<noteq> []" using a len unfolding accepted_def by auto
  then have ch: "rChain (hd rs') = rChain (hd rs)" using a set unfolding accepted_def one_partition_def by (metis hd_in_set)
  have "checkShapes rs' = Inr ()" "checkShapes rs = Inr ()"
    using a set unfolding accepted_def checkShapes_ok by (auto simp: list_all_iff)
  moreover have "checkPartition rs' = Inr (rChain (hd rs))" "checkPartition rs = Inr (rChain (hd rs))"
    using a set ch unfolding accepted_def checkPartition_ok one_partition_def by metis+
  moreover have "orderBySeq c rs' = Inr ordered" "orderBySeq c rs = Inr ordered" for c
    using a m len unfolding accepted_def orderBySeq_ok in_order_def by simp_all
  ultimately show ?thesis unfolding verifyReceiptList_def Let_def len by simp
qed

section \<open>A head commits to its history\<close>

text \<open>SHA-256 does not collide on the pre-images of the two chains.\<close>

definition no_collision :: "host \<Rightarrow> json list \<Rightarrow> json list \<Rightarrow> bool" where
  "no_collision H rs rs' \<longleftrightarrow> (\<forall>r\<in>set rs. \<forall>r'\<in>set rs'. \<forall>x y. receiptHashInput r = Inr x \<longrightarrow> receiptHashInput r' = Inr y \<longrightarrow>
     sha256 H (utf8Encode x) = sha256 H (utf8Encode y) \<longrightarrow> utf8Encode x = utf8Encode y)"

lemma receiptHashInput_text_ok: "sealed_shape r \<Longrightarrow> receiptHashInput r = Inr s \<Longrightarrow> text_ok s"
proof -
  assume r: "sealed_shape r" "receiptHashInput r = Inr s"
  then obtain v where "canonicalOf v = Inr s" "json_ok isUnit v" "jdepth v \<le> 64"
    using receiptHashInput_unsealed [of _ _ r] unsealed_ok [of r 64] by (fastforce simp: sealed_shape_def)
  then show ?thesis using canonicalize_text_ok by (auto simp: canonicalOf_def split: sum.splits)
qed

lemma same_hash_same_receipt:
  assumes "sealed_shape r" "sealed_shape r'" "hash_ok H r" "hash_ok H r'" "rHash r = rHash r'" "no_collision H [r] [r']"
  shows "same_but_seals r r'"
proof -
  from assms(3,4) obtain x y where xy: "receiptHashInput r = Inr x" "receiptHashInput r' = Inr y"
    "rHash r = sha256Prefixed (sha256 H) x" "rHash r' = sha256Prefixed (sha256 H) y" by (auto simp: hash_ok_def)
  then have "toHex (sha256 H (utf8Encode x)) = toHex (sha256 H (utf8Encode y))"
    using assms(5) by (simp add: sha256Prefixed_def sha256Hex_def)
  then have "sha256 H (utf8Encode x) = sha256 H (utf8Encode y)" by (rule toHex_inject)
  then have "utf8Encode x = utf8Encode y" using assms(6) xy(1,2) by (simp add: no_collision_def)
  moreover have "text_ok x" "text_ok y" using receiptHashInput_text_ok assms(1,2) xy(1,2) by blast+
  ultimately have "x = y" by (auto simp: text_ok_def intro: utf8Encode_inject)
  then show ?thesis using receiptHashInput_commits [OF assms(1,2)] xy(1,2) by simp
qed

lemma optText_sortJson: "optText (map_option sortJson v) = optText v"
  by (cases v) (auto simp: optText_def split: json.splits)

lemma subfield_memberAt: "subfield r a b = map_option sortJson (memberAt r a b)"
  by (simp add: subfield_def memberAt_def field_def split: option.splits)

lemma same_but_seals_prevHash: "same_but_seals r r' \<Longrightarrow> rPrevHash r = rPrevHash r'"
proof -
  assume "same_but_seals r r'"
  then have "subfield r (U ''chain'') (U ''prevHash'') = subfield r' (U ''chain'') (U ''prevHash'')" by (simp add: same_but_seals_def)
  then show ?thesis unfolding rPrevHash_def subfield_memberAt by (metis optText_sortJson)
qed

lemma linked_snoc: "linked p (rs @ [r]) \<longleftrightarrow> linked p rs \<and>
    rPrevHash r = (if rSeq r = 0 then None else map_option rHash (if rs = [] then p else Some (last rs)))"
  by (induction rs arbitrary: p) auto

lemma history_committed:
  assumes "length a = length b" "a \<noteq> []" "rHash (last a) = rHash (last b)" "linked None a" "linked None b"
    "map rSeq a = map int [0..<length a]" "map rSeq b = map int [0..<length b]"
    "list_all (\<lambda>r. sealed_shape r \<and> hash_ok H r) a" "list_all (\<lambda>r. sealed_shape r \<and> hash_ok H r) b" "no_collision H a b"
  shows "list_all2 (\<lambda>r r'. same_but_seals r r' \<and> rHash r = rHash r') a b"
  using assms
proof (induction a arbitrary: b rule: rev_induct)
  case (snoc r a)
  from snoc.prems(1) obtain b' r' where b: "b = b' @ [r']" by (metis length_0_conv append_is_Nil_conv not_Cons_self2 rev_exhaust)
  have len: "length a = length b'" using snoc.prems(1) b by simp
  have seq: "rSeq r = int (length a)" "rSeq r' = int (length b')" "map rSeq a = map int [0..<length a]" "map rSeq b' = map int [0..<length b']"
    using snoc.prems(6,7) by (simp_all add: b)
  have eq: "rHash r = rHash r'" using snoc.prems(3) by (simp add: b)
  have nc: "no_collision H [r] [r']" "no_collision H a b'" using snoc.prems(10) by (auto simp: b no_collision_def)
  have same: "same_but_seals r r'" using snoc.prems(8,9) eq nc(1) by (intro same_hash_same_receipt [of r r' H]) (auto simp: b)
  have link: "linked None a" "linked None b'" using snoc.prems(4,5) by (simp_all add: b linked_snoc)
  have "list_all2 (\<lambda>r r'. same_but_seals r r' \<and> rHash r = rHash r') a b'"
  proof (cases "a = []")
    case True
    then show ?thesis using len by simp
  next
    case False
    then have ne: "b' \<noteq> []" "rSeq r \<noteq> 0" "rSeq r' \<noteq> 0" using len seq by auto
    have "rPrevHash r = Some (rHash (last a))" "rPrevHash r' = Some (rHash (last b'))"
      using snoc.prems(4,5) False ne by (simp_all add: b linked_snoc)
    then have "rHash (last a) = rHash (last b')" using same_but_seals_prevHash [OF same] by simp
    then show ?thesis using snoc.IH [OF len False] link seq(3,4) snoc.prems(8,9) nc(2) by (simp add: b)
  qed
  then show ?case using same eq by (simp add: b list_all2_appendI)
qed simp

definition passes :: "verify_result \<Rightarrow> bool" where
  "passes res \<longleftrightarrow> vr_status res \<in> {VALID, UNVERIFIED, KEY_RETIRED}"

lemma passes_accepted:
  assumes "passes (verifyParsedChain H (JArr rs) opts)"
  obtains v man cp ordered where "accepted H rs opts v man cp ordered" "decided H v cp ordered (verifyParsedChain H (JArr rs) opts)"
  using assms unfolding passes_def by (rule passed_accepted) (use that in blast)

lemma accepted_sealed:
  assumes "accepted H rs opts v man cp ordered" "json_ok isUnit (JArr rs)" "jdepth (JArr rs) \<le> 64"
  shows "list_all (\<lambda>r. sealed_shape r \<and> hash_ok H r) ordered" "set ordered = set rs" "length ordered = length rs"
proof -
  show s: "set ordered = set rs" and "length ordered = length rs"
    using assms(1) unfolding accepted_def in_order_def by (metis mset_eq_setD, metis mset_eq_length)
  have "list_all (receipt_ok H (runOf rs opts v man)) ordered" "list_all wf_receipt rs" using assms(1) unfolding accepted_def by blast+
  then show "list_all (\<lambda>r. sealed_shape r \<and> hash_ok H r) ordered"
    using s assms(2,3) jdepth_arr_elem [of _ rs] by (fastforce simp: list_all_iff receipt_ok_def intro: wf_receipt_sealed_shape)
qed

lemma checkpoint_head:
  assumes "accepted H rs opts v man (Some c) ordered"
  shows "numOf (jget c (U ''highestSeq'')) = int (length rs) - 1" "textOf (jget c (U ''headHash'')) = rHash (last ordered)" "ordered \<noteq> []"
proof -
  have t: "tail_ok H (runOf rs opts v man) ordered c" and io: "in_order ordered rs" and ne: "rs \<noteq> []"
    using assms unfolding accepted_def by blast+
  have len: "length ordered = length rs" using io unfolding in_order_def by (metis mset_eq_length)
  then show ne': "ordered \<noteq> []" using ne by auto
  have "rSeq (last ordered) = map rSeq ordered ! (length rs - 1)" using ne' len ne by (subst nth_map) (auto simp: last_conv_nth)
  also have "\<dots> = int (length rs - 1)" using io ne unfolding in_order_def by simp
  finally show "numOf (jget c (U ''highestSeq'')) = int (length rs) - 1" using t ne by (simp add: tail_ok_def of_nat_diff Suc_leI)
  show "textOf (jget c (U ''headHash'')) = rHash (last ordered)" using t by (simp add: tail_ok_def)
qed

lemma checkpoint_commits:
  assumes a: "accepted H rs opts v man cp ordered" "accepted H rs' opts' v' man' cp' ordered'"
    and cp: "vo_checkpoint opts = Some t" "vo_checkpoint opts' = Some t"
    and ok: "json_ok isUnit (JArr rs)" "jdepth (JArr rs) \<le> 64" "json_ok isUnit (JArr rs')" "jdepth (JArr rs') \<le> 64"
    and nc: "no_collision H rs rs'"
  shows "list_all2 (\<lambda>r r'. same_but_seals r r' \<and> rHash r = rHash r') ordered ordered'"
proof -
  obtain c where c: "cp = Some c" "cp' = Some c"
    using a cp unfolding accepted_def by (auto simp: parseCheckpointOption_def split: sum.splits)
  note h = checkpoint_head [OF a(1) [unfolded c(1)]] and h' = checkpoint_head [OF a(2) [unfolded c(2)]]
  note s = accepted_sealed [OF a(1) ok(1,2)] and s' = accepted_sealed [OF a(2) ok(3,4)]
  have len: "length rs = length rs'" using h(1) h'(1) by simp
  have "linked None ordered" "linked None ordered'" "map rSeq ordered = map int [0..<length rs]" "map rSeq ordered' = map int [0..<length rs']"
    using a unfolding accepted_def in_order_def by blast+
  then show ?thesis
    using h(2,3) h'(2) s s' len nc by (intro history_committed [of ordered ordered' H]) (auto simp: no_collision_def)
qed

definition honest :: "verify_result \<Rightarrow> bool" where
  "honest r \<longleftrightarrow> vr_signaturesVerified r = (vr_status r = VALID) \<and> (vr_tailChecked r \<longrightarrow> vr_status r = VALID)"

lemma honest_fail: "honest (fail MALFORMED reason c n b)"
  by (simp add: honest_def fail_def)

lemma honest_verifyParsedChain: "honest (verifyParsedChain H v opts)"
  by (cases rule: verifyParsedChain_cases [of H v opts]) (auto simp: refusal_def decided_def honest_def)

lemma honest_verifyChain: "honest (verifyChain H receipts opts)"
  by (simp add: verifyChain_def verifyStrictBytesChain_def Let_def honest_fail honest_verifyParsedChain split: sum.splits prod.splits)

text \<open>The strict-bytes gate.\<close>

lemma parseDocumentBytes_Inr:
  "parseDocumentBytes (ByteArray bs) = Inr (v, t) \<longleftrightarrow> parseDocument (ByteArray bs) = Inr v \<and> decodeDocument (ByteArray bs) = Inr t"
  by (cases "decodeDocument (ByteArray bs)") (auto simp: parseDocumentBytes_def parseDocument_def isUint8Array_def bindS_Inr)

lemma strict_gate:
  assumes "parseDocument (ByteArray bs) = Inr v"
  shows "\<exists>s. canonicalize v = Inr s \<and> verifyStrictBytesChain H (ByteArray bs) opts =
    (if bs = utf8Encode s then verifyParsedChain H v opts else fail MALFORMED NonCanonicalBytes None 0 None)"
proof -
  from assms obtain t where t: "decodeDocument (ByteArray bs) = Inr t" by (auto simp: parseDocument_def bindS_Inr)
  have ok: "json_ok isUnit v" "jdepth v \<le> 64" using parseDocument_ok [OF assms] by simp_all
  obtain s where s: "canonicalize v = Inr s" using canonicalize_ok [OF ok] by blast
  have "text_ok s" using canonicalize_text_ok [OF ok s] .
  moreover have tt: "bs = utf8Encode t" "strIsWellFormed t" "list_all isUnit t" using t by (simp_all add: decodeDocument_ByteArray)
  ultimately have "bs = utf8Encode s \<longleftrightarrow> s = t" using utf8Encode_inject [of s t] by (auto simp: text_ok_def)
  moreover have "parseDocumentBytes (ByteArray bs) = Inr (v, t)" using assms t by (simp add: parseDocumentBytes_Inr)
  ultimately show ?thesis using s by (simp add: verifyStrictBytesChain_def)
qed

section \<open>Properties\<close>

text \<open>An example without a trust root: one receipt, and a platform whose digest is constant.\<close>

definition exampleReceipt :: "int \<Rightarrow> json \<Rightarrow> jstr \<Rightarrow> json" where
  "exampleReceipt seq prev sg = JObj
     [(U ''spec'', JStr RECEIPT_SPEC), (U ''id'', JStr (U ''r'')), (U ''ts'', JStr (U ''2026-01-01T00:00:00Z'')),
      (U ''scope'', JObj [(U ''chain'', JStr (U ''c'')), (U ''tenant'', JStr (U ''t''))]),
      (U ''agent'', JObj [(U ''id'', JStr (U ''a'')), (U ''principal'', JStr (U ''HUMAN''))]),
      (U ''action'', JObj [(U ''id'', JStr (U ''x'')), (U ''canonical'', JStr (U ''x'')), (U ''riskClass'', JStr (U ''LOW'')),
         (U ''paramsHash'', JStr (U ''hmac-sha256:'' @ replicate 64 48)), (U ''reversible'', JBool True)]),
      (U ''governance'', JObj [(U ''mode'', JStr (U ''on'')), (U ''verdict'', JStr (U ''ALLOWED'')), (U ''sandboxed'', JBool False)]),
      (U ''chain'', JObj [(U ''seq'', JNum seq), (U ''prevHash'', prev), (U ''hash'', JStr (U ''sha256:'' @ replicate 64 48))]),
      (U ''sig'', JObj [(U ''alg'', JStr (U ''ed25519'')), (U ''kid'', JStr (U ''k'')), (U ''value'', JStr sg)])]"

definition zeroHost :: host where
  "zeroHost = \<lparr>sha256 = (\<lambda>bs. replicate 32 0), fromBase64 = (\<lambda>s. []), importSpki = (\<lambda>_. None),
     importPkcs8 = (\<lambda>_. None), edVerify = (\<lambda>_ _ _. False), edSign = (\<lambda>_ _. []), normalizeNfc = (\<lambda>s. s),
     dateParse = (\<lambda>_. None)\<rparr>"

definition noOptions :: verify_options where
  "noOptions = \<lparr>vo_keyring = None, vo_checkpoint = None, vo_identityManifest = None, vo_maxReceipts = None,
     vo_requireTenantConsistency = None, vo_requireNFC = None, vo_profile = None\<rparr>"

definition exampleCheckpoint :: jstr where
  \<open>exampleCheckpoint = U ''{"spec":"noa.checkpoint/0.1","chain":"c","highestSeq":0,"headHash":"sha256:'' @ replicate 64 48 @
     U ''","ts":"2026-01-01T00:00:00Z","sig":{"alg":"ed25519","kid":"k","value":"v"}}''\<close>

text \<open>
  (C1) The verdict is decided exactly: a chain is VALID when it is accepted against a trust root and no
  signature is by a retired key, KEY_RETIRED when it is accepted and one is, and UNVERIFIED when it is accepted
  and no trust root was given. Every other input is refused.
\<close>

theorem chain_verdict_decided:
  "(vr_status (verifyParsedChain H (JArr rs) opts) = VALID \<longleftrightarrow>
      (\<exists>v man cp ordered. accepted H rs opts (Some v) man cp ordered \<and> \<not> uses_retired H (Some v) cp ordered)) \<and>
   (vr_status (verifyParsedChain H (JArr rs) opts) = KEY_RETIRED \<longleftrightarrow>
      (\<exists>v man cp ordered. accepted H rs opts (Some v) man cp ordered \<and> uses_retired H (Some v) cp ordered)) \<and>
   (vr_status (verifyParsedChain H (JArr rs) opts) = UNVERIFIED \<longleftrightarrow> (\<exists>man cp ordered. accepted H rs opts None man cp ordered))"
  by (intro conjI status_iff)

text \<open>
  (C3) A failed check carries no positive claim: over every input and every caller value as options, the flag
  for verified signatures is set exactly on VALID, and a tail is reported as checked only then.
\<close>

theorem claims_only_on_valid:
  "vr_signaturesVerified (verifyChain H receipts opts) = (vr_status (verifyChain H receipts opts) = VALID) \<and>
   \<not> (vr_tailChecked (verifyChain H receipts opts) \<and> vr_status (verifyChain H receipts opts) \<noteq> VALID)"
  using honest_verifyChain [of H receipts opts] by (simp add: honest_def)

text \<open>
  (C5) The order in which receipts are presented does not matter: a chain that passes gives the same result,
  warnings included, in every order.
\<close>

theorem presentation_order_irrelevant:
  assumes "passes (verifyParsedChain H (JArr rs) opts)" "mset rs' = mset rs"
  shows "verifyParsedChain H (JArr rs') opts = verifyParsedChain H (JArr rs) opts"
  using assms(1) by (rule passes_accepted) (simp add: verifyParsedChain_def presentation_order [OF _ assms(2)])

theorem presentation_order_irrelevant_witness:
  "verifyParsedChain zeroHost (JArr [exampleReceipt 1 (JStr (U ''sha256:'' @ replicate 64 48)) (U ''s''), exampleReceipt 0 JNull (U ''s'')]) noOptions
   = verifyParsedChain zeroHost (JArr [exampleReceipt 0 JNull (U ''s''), exampleReceipt 1 (JStr (U ''sha256:'' @ replicate 64 48)) (U ''s'')]) noOptions"
proof (rule presentation_order_irrelevant)
  show "passes (verifyParsedChain zeroHost
      (JArr [exampleReceipt 0 JNull (U ''s''), exampleReceipt 1 (JStr (U ''sha256:'' @ replicate 64 48)) (U ''s'')]) noOptions)"
    by code_simp
qed simp

text \<open>
  (C2) A checkpoint commits to the whole history: if two chains pass against the same checkpoint, and SHA-256
  does not collide on their pre-images, they have the same length and, number by number, receipts with the
  same hash that agree on everything but the signature value. In particular no shorter or altered chain passes.
\<close>

theorem checkpoint_commits_to_history:
  assumes "passes (verifyParsedChain H (JArr rs) opts)" "passes (verifyParsedChain H (JArr rs') opts')"
    "vo_checkpoint opts = Some t" "vo_checkpoint opts' = Some t"
    "json_ok isUnit (JArr rs)" "jdepth (JArr rs) \<le> 64" "json_ok isUnit (JArr rs')" "jdepth (JArr rs') \<le> 64"
    "no_collision H rs rs'"
  shows "\<exists>ordered ordered'. mset ordered = mset rs \<and> mset ordered' = mset rs' \<and>
    list_all2 (\<lambda>r r'. same_but_seals r r' \<and> rHash r = rHash r') ordered ordered'"
proof -
  obtain v man cp ordered where a: "accepted H rs opts v man cp ordered" using assms(1) by (rule passes_accepted)
  obtain v' man' cp' ordered' where a': "accepted H rs' opts' v' man' cp' ordered'" using assms(2) by (rule passes_accepted)
  have "mset ordered = mset rs" "mset ordered' = mset rs'" using a a' unfolding accepted_def in_order_def by blast+
  with checkpoint_commits [OF a a' assms(3-)] show ?thesis by blast
qed

theorem checkpoint_commits_to_history_witness:
  "\<exists>ordered ordered'. mset ordered = mset [exampleReceipt 0 JNull (U ''s'')] \<and> mset ordered' = mset [exampleReceipt 0 JNull (U ''t'')] \<and>
    list_all2 (\<lambda>r r'. same_but_seals r r' \<and> rHash r = rHash r') ordered ordered'"
proof (rule checkpoint_commits_to_history)
  let ?o = "noOptions\<lparr>vo_checkpoint := Some exampleCheckpoint\<rparr>"
  show "passes (verifyParsedChain zeroHost (JArr [exampleReceipt 0 JNull (U ''s'')]) ?o)"
    "passes (verifyParsedChain zeroHost (JArr [exampleReceipt 0 JNull (U ''t'')]) ?o)" by code_simp+
  show "vo_checkpoint ?o = Some exampleCheckpoint" "vo_checkpoint ?o = Some exampleCheckpoint" by simp_all
  have "receiptHashInput (exampleReceipt 0 JNull (U ''s'')) = receiptHashInput (exampleReceipt 0 JNull (U ''t''))" by code_simp
  then show "no_collision zeroHost [exampleReceipt 0 JNull (U ''s'')] [exampleReceipt 0 JNull (U ''t'')]" by (simp add: no_collision_def)
qed (code_simp+)

text \<open>
  (C4) Tenants are not mixed: in a chain that passes, unless the caller opted out, any two receipts that name
  a tenant name the same one, however many receipts without a tenant lie between them.
\<close>

theorem tenants_not_mixed:
  assumes "passes (verifyParsedChain H (JArr rs) opts)" "vo_requireTenantConsistency opts \<noteq> Some False"
    "r \<in> set rs" "r' \<in> set rs" "rTenant r = Some t" "rTenant r' = Some t'"
  shows "t = t'"
  using assms(1)
proof (rule passes_accepted)
  fix v man cp ordered assume a: "accepted H rs opts v man cp ordered"
  then have "one_tenant (map rTenant ordered)" "set ordered = set rs"
    using assms(2) unfolding accepted_def in_order_def by (blast, metis mset_eq_setD)
  then show "t = t'" using assms(3-) unfolding one_tenant_def by (metis image_eqI list.set_map)
qed

theorem tenants_not_mixed_witness:
  "the (rTenant (exampleReceipt 0 JNull (U ''s''))) = the (rTenant (exampleReceipt 1 (JStr (U ''sha256:'' @ replicate 64 48)) (U ''s'')))"
proof (rule tenants_not_mixed)
  show "passes (verifyParsedChain zeroHost
      (JArr [exampleReceipt 0 JNull (U ''s''), exampleReceipt 1 (JStr (U ''sha256:'' @ replicate 64 48)) (U ''s'')]) noOptions)"
    by code_simp
qed (auto simp: noOptions_def rTenant_def memberAt_def exampleReceipt_def optText_def)

text \<open>
  (C6) The strict-bytes profile accepts one encoding per document: on bytes that parse to a document it returns
  exactly the native verdict when the bytes are the UTF-8 encoding of the canonical text of that document, and
  refuses them as non-canonical otherwise.
\<close>

theorem strict_bytes_exact:
  assumes "parseDocument (ByteArray bs) = Inr v"
  shows "\<exists>s. canonicalize v = Inr s \<and> verifyStrictBytesChain H (ByteArray bs) opts =
    (if bs = utf8Encode s then verifyParsedChain H v opts else fail MALFORMED NonCanonicalBytes None 0 None)"
  using assms by (rule strict_gate)

theorem strict_bytes_exact_witness:
  "verifyStrictBytesChain zeroHost (ByteArray [91, 32, 93]) noOptions = fail MALFORMED NonCanonicalBytes None 0 None"
proof -
  have p: "parseDocument (ByteArray [91, 32, 93]) = Inr (JArr [])" by code_simp
  have c: "canonicalize (JArr []) = Inr [91, 93]" by code_simp
  have e: "utf8Encode [91, 93] = [91, 93]" by code_simp
  show ?thesis using strict_bytes_exact [OF p, of zeroHost noOptions] c e by simp
qed

end
