(* ===== verification/Historical.thy ===== *)
theory Historical
  imports Verify_Correct
begin

text \<open>
  Historical verification of src/src/verify.ts: the receipts are verified with the retained public keys, and a
  checkpoint by a separate witness key may attribute them as of its time. The lemmas show when a result is
  positive, and that no other result carries an attribution.
\<close>

section \<open>Results\<close>

datatype h_classification = HVerified | HPartial | HUnverified | HConflict | HInvalid

datatype h_code =
    HEAD_ANCHORED | PREFIX_ANCHORED | NO_WITNESS | WITNESS_ROOT_NOT_PROVIDED | WITNESS_ROOT_INVALID
  | WITNESS_KEY_NOT_TRUSTED | WITNESS_KEY_NOT_SEPARATE | WITNESS_KEY_RETIRED | CHECKPOINT_BEFORE_ACTIVATION
  | CHECKPOINT_AFTER_RETIREMENT | CHECKPOINT_AHEAD | CHECKPOINT_CONFLICT | RECEIPT_ROOT_NOT_PROVIDED
  | RECEIPT_ROOT_INVALID | RECEIPT_MALFORMED | RECEIPT_INTEGRITY_FAILURE | RECEIPT_IDENTITY_UNTRUSTED
  | WITNESS_MALFORMED | WITNESS_INTEGRITY_FAILURE

datatype h_integrity = Intact | Broken | IntegrityUnanswered
datatype h_completeness = CompletenessUnanswered | PrefixAnchored | HeadAnchored | CompletenessConflict
datatype h_attribution = AttributableAsOf | Unattributable
datatype h_availability = AvailNotProvided | Available | MissingRelativeToCheckpoint | ProvenSuppressed

record h_dimensions =
  hd_integrity :: h_integrity
  hd_completeness :: h_completeness
  hd_attribution :: h_attribution
  hd_organizationalIndependence :: jstr
  hd_retirementProvided :: bool
  hd_witnessProvided :: bool
  hd_availability :: h_availability

record h_result =
  hr_spec :: jstr
  hr_verifierVersion :: jstr
  hr_purpose :: jstr
  hr_classification :: h_classification
  hr_code :: h_code
  hr_dimensions :: h_dimensions
  hr_chain :: "jstr option"
  hr_count :: int
  hr_attributedThroughSeq :: "int option"
  hr_asOf :: "jstr option"

definition HISTORICAL_VERIFICATION_SPEC :: jstr where
  "HISTORICAL_VERIFICATION_SPEC = U ''noa.historical-verification/0.1''"

definition historicalDimensions ::
  "h_integrity \<Rightarrow> h_completeness \<Rightarrow> h_attribution \<Rightarrow> bool \<Rightarrow> bool \<Rightarrow> h_availability \<Rightarrow> h_dimensions" where
  "historicalDimensions integrity completeness attribution retirement witness availability =
     \<lparr>hd_integrity = integrity, hd_completeness = completeness, hd_attribution = attribution,
      hd_organizationalIndependence = U ''UNVERIFIED'', hd_retirementProvided = retirement, hd_witnessProvided = witness, hd_availability = availability\<rparr>"

definition historicalResult ::
  "h_classification \<Rightarrow> h_code \<Rightarrow> h_dimensions \<Rightarrow> jstr option \<Rightarrow> int \<Rightarrow> int option \<Rightarrow> jstr option \<Rightarrow> h_result" where
  "historicalResult classification code dimensions chain cnt through asOf =
     \<lparr>hr_spec = HISTORICAL_VERIFICATION_SPEC, hr_verifierVersion = HISTORICAL_VERIFICATION_SPEC,
      hr_purpose = U ''historical-audit'', hr_classification = classification, hr_code = code, hr_dimensions = dimensions, hr_chain = chain, hr_count = cnt,
      hr_attributedThroughSeq = through, hr_asOf = asOf\<rparr>"

section \<open>Options\<close>

record h_options =
  ho_keyring :: "jstr option"
  ho_checkpoint :: "jstr option"
  ho_checkpointKeyring :: "jstr option"
  ho_identityManifest :: "jstr option"
  ho_maxReceipts :: "int option"
  ho_requireTenantConsistency :: "bool option"
  ho_requireNFC :: "bool option"

definition HISTORICAL_VERIFY_OPTION_SCHEMA :: option_schema where
  "HISTORICAL_VERIFY_OPTION_SCHEMA =
     [(U ''keyring'', DocumentField), (U ''checkpoint'', DocumentField), (U ''checkpointKeyring'', DocumentField),
      (U ''identityManifest'', DocumentField), (U ''maxReceipts'', CountField (Some DEFAULT_MAX_RECEIPTS)),
      (U ''requireTenantConsistency'', BooleanField), (U ''requireNFC'', BooleanField)]"

definition inertHistoricalOptions :: "(jstr \<times> inert) list \<Rightarrow> h_options" where
  "inertHistoricalOptions r =
     \<lparr>ho_keyring = optionText r (U ''keyring''), ho_checkpoint = optionText r (U ''checkpoint''),
      ho_checkpointKeyring = optionText r (U ''checkpointKeyring''),
      ho_identityManifest = optionText r (U ''identityManifest''), ho_maxReceipts = optionNum r (U ''maxReceipts''),
      ho_requireTenantConsistency = optionBool r (U ''requireTenantConsistency''),
      ho_requireNFC = optionBool r (U ''requireNFC'')\<rparr>"

section \<open>The retained keys\<close>

definition retainedPublicMaterial :: "parsed_keyring \<Rightarrow> parsed_keyring" where
  "retainedPublicMaterial v = v\<lparr>pk_retiredKids := []\<rparr>"

text \<open>\<open>jsonStringify\<close> of the key map: the own names in order, each string quoted as \<open>JSON.stringify\<close> does.\<close>

definition ringDocument :: "keyring \<Rightarrow> json" where
  "ringDocument ring = JObj (map (\<lambda>(k, v). (k, JStr v)) ring)"

definition stringifyKeyring :: "keyring \<Rightarrow> jstr" where
  "stringifyKeyring ring = printJson (JObj (ownProps (ringDocument ring)))"

definition integrityOptions :: "parsed_keyring \<Rightarrow> h_options \<Rightarrow> verify_options" where
  "integrityOptions receiptTrust o' =
     \<lparr>vo_keyring = Some (stringifyKeyring (pk_keyring receiptTrust)), vo_checkpoint = None,
      vo_identityManifest = ho_identityManifest o', vo_maxReceipts = ho_maxReceipts o',
      vo_requireTenantConsistency = ho_requireTenantConsistency o', vo_requireNFC = ho_requireNFC o', vo_profile = None\<rparr>"

section \<open>Judging the witness\<close>

definition keyFingerprint :: "host \<Rightarrow> jstr \<Rightarrow> jstr" where
  "keyFingerprint H key = toHex (sha256 H (fromBase64 H key))"

definition witnessKeySeparated :: "host \<Rightarrow> keyring \<Rightarrow> jstr \<Rightarrow> jstr \<Rightarrow> json list \<Rightarrow> bool" where
  "witnessKeySeparated H ring kid witnessKey ordered =
     list_all (\<lambda>r. \<not> (kid = rKid r \<or> keyFingerprint H witnessKey = keyFingerprint H (the (map_of ring (rKid r))))) ordered"

text \<open>A bound that is a string, compared with the checkpoint time: unreadable times count against it.\<close>

definition beforeActivation :: "host \<Rightarrow> int option \<Rightarrow> jstr option option \<Rightarrow> bool" where
  "beforeActivation H time validFrom =
     (case validFrom of
        Some (Some s) \<Rightarrow>
          (case (time, lifecycleInstantNanos H s) of (Some t, Some a) \<Rightarrow> t < a | _ \<Rightarrow> True)
      | _ \<Rightarrow> False)"

definition afterRetirement :: "host \<Rightarrow> int option \<Rightarrow> jstr option option \<Rightarrow> bool" where
  "afterRetirement H time retiredAt =
     (case retiredAt of
        Some (Some s) \<Rightarrow>
          (case (time, lifecycleInstantNanos H s) of (Some t, Some a) \<Rightarrow> t \<ge> a | _ \<Rightarrow> True)
      | _ \<Rightarrow> False)"

definition judgeInterval :: "host \<Rightarrow> parsed_keyring \<Rightarrow> parsed_keyring \<Rightarrow> json \<Rightarrow> (int \<times> json) list \<Rightarrow> json list \<Rightarrow> jstr option \<Rightarrow> int \<Rightarrow> h_result" where
  "judgeInterval H receiptTrust witnessTrust cp bySeq ordered chain cnt =
     (let highestSeq = numOf (jget cp (U ''highestSeq''));
          ret = pk_lifecycle receiptTrust;
          completeness = (if highestSeq = rSeq (last ordered) then HeadAnchored else PrefixAnchored);
          time = lifecycleInstantNanos H (textOf (jget cp (U ''ts'')));
          covered = map (\<lambda>s. the (map_of bySeq (int s))) [0..<nat (highestSeq + 1)];
          before = (beforeActivation H time (map_of (pk_validFromByKid witnessTrust) (rKid cp)) \<or>
            list_ex (\<lambda>r. beforeActivation H time (map_of (pk_validFromByKid receiptTrust) (rKid r))) covered);
          late = (time = None \<or>
            list_ex (\<lambda>r. afterRetirement H time (map_of (pk_retiredAtByKid receiptTrust) (rKid r))) covered) in
      if before then historicalResult HUnverified CHECKPOINT_BEFORE_ACTIVATION
        (historicalDimensions Intact completeness Unattributable ret True Available) chain cnt None None
      else if late then historicalResult HUnverified CHECKPOINT_AFTER_RETIREMENT
        (historicalDimensions Intact completeness Unattributable ret True Available) chain cnt None None
      else historicalResult (if completeness = HeadAnchored then HVerified else HPartial)
        (if completeness = HeadAnchored then HEAD_ANCHORED else PREFIX_ANCHORED)
        (historicalDimensions Intact completeness AttributableAsOf ret True Available) chain cnt
        (Some highestSeq) (Some (textOf (jget cp (U ''ts'')))))"

definition judgeFrontier :: "host \<Rightarrow> parsed_keyring \<Rightarrow> parsed_keyring \<Rightarrow> json \<Rightarrow> (int \<times> json) list \<Rightarrow> json list \<Rightarrow> jstr option \<Rightarrow> int \<Rightarrow> h_result" where
  "judgeFrontier H receiptTrust witnessTrust cp bySeq ordered chain cnt =
     (let head = last ordered; highestSeq = numOf (jget cp (U ''highestSeq'')); ret = pk_lifecycle receiptTrust in
      if textOf (jget cp (U ''chain'')) \<noteq> rChain head then
        historicalResult HConflict CHECKPOINT_CONFLICT
          (historicalDimensions Intact CompletenessConflict Unattributable ret True Available) chain cnt None None
      else if highestSeq > rSeq head then
        historicalResult HConflict CHECKPOINT_AHEAD
          (historicalDimensions Intact CompletenessConflict Unattributable ret True MissingRelativeToCheckpoint) chain cnt None None
      else if map_option rHash (map_of bySeq highestSeq) \<noteq> Some (textOf (jget cp (U ''headHash''))) then
        historicalResult HConflict CHECKPOINT_CONFLICT
          (historicalDimensions Intact CompletenessConflict Unattributable ret True Available) chain cnt None None
      else judgeInterval H receiptTrust witnessTrust cp bySeq ordered chain cnt)"

definition judgeWitness :: "host \<Rightarrow> parsed_keyring \<Rightarrow> parsed_keyring \<Rightarrow> json \<Rightarrow> (int \<times> json) list \<Rightarrow> json list \<Rightarrow> jstr option \<Rightarrow> int \<Rightarrow> h_result" where
  "judgeWitness H receiptTrust witnessTrust cp bySeq ordered chain cnt =
     (let ret = pk_lifecycle receiptTrust;
          verdict = verifyCheckpointParsed H cp (Some (retainedPublicMaterial witnessTrust));
          notTrusted = historicalResult HUnverified WITNESS_KEY_NOT_TRUSTED
            (historicalDimensions IntegrityUnanswered CompletenessUnanswered Unattributable ret True Available) chain cnt None None in
      if verdict = CpUnverified then notTrusted
      else if verdict = CpBadSpec \<or> verdict = CpMalformed then
        historicalResult HInvalid WITNESS_MALFORMED
          (historicalDimensions Broken CompletenessUnanswered Unattributable ret True Available) chain cnt None None
      else if verdict \<noteq> CpOk then
        historicalResult HInvalid WITNESS_INTEGRITY_FAILURE
          (historicalDimensions Broken CompletenessUnanswered Unattributable ret True Available) chain cnt None None
      else case map_of (pk_keyring witnessTrust) (rKid cp) of
        None \<Rightarrow> notTrusted
      | Some witnessKey \<Rightarrow>
          if \<not> witnessKeySeparated H (pk_keyring receiptTrust) (rKid cp) witnessKey ordered then
            historicalResult HUnverified WITNESS_KEY_NOT_SEPARATE
              (historicalDimensions Intact CompletenessUnanswered Unattributable ret True Available) chain cnt None None
          else if map_of (pk_retiredKids witnessTrust) (rKid cp) = Some True then
            historicalResult HUnverified WITNESS_KEY_RETIRED
              (historicalDimensions Intact CompletenessUnanswered Unattributable ret True Available) chain cnt None None
          else judgeFrontier H receiptTrust witnessTrust cp bySeq ordered chain cnt)"

text \<open>The receipts by number, as the source builds them a second time from the parsed document.\<close>

definition historicalBySeq :: "json list \<Rightarrow> (int \<times> json) list" where
  "historicalBySeq rs = foldl (\<lambda>m r. AList.update (rSeq r) r m) [] rs"

definition historicalOrdered :: "(int \<times> json) list \<Rightarrow> nat \<Rightarrow> unit + json list" where
  "historicalOrdered bySeq n = mapE (\<lambda>s. case map_of bySeq (int s) of None \<Rightarrow> Inl () | Some r \<Rightarrow> Inr r) [0..<n]"

definition afterIntegrity :: "host \<Rightarrow> h_options \<Rightarrow> parsed_keyring \<Rightarrow> json list \<Rightarrow> verify_result \<Rightarrow> h_result" where
  "afterIntegrity H o' receiptTrust rs chainResult =
     (let ret = pk_lifecycle receiptTrust; wit = (ho_checkpoint o' \<noteq> None);
          initial = (if wit then Available else AvailNotProvided);
          chain = vr_chain chainResult; cnt = vr_count chainResult;
          bySeq = historicalBySeq rs;
          unanswered = (\<lambda>code integrity. historicalResult HUnverified code
            (historicalDimensions integrity CompletenessUnanswered Unattributable ret wit initial) chain cnt None None) in
      case historicalOrdered bySeq (length rs) of
        Inl _ \<Rightarrow> historicalResult HInvalid RECEIPT_INTEGRITY_FAILURE
          (historicalDimensions Broken CompletenessUnanswered Unattributable ret wit initial) chain cnt None None
      | Inr ordered \<Rightarrow>
          (case ho_checkpoint o' of
             None \<Rightarrow> unanswered NO_WITNESS Intact
           | Some cpText \<Rightarrow>
               (case ho_checkpointKeyring o' of
                  None \<Rightarrow> unanswered WITNESS_ROOT_NOT_PROVIDED IntegrityUnanswered
                | Some ringText \<Rightarrow>
                    (case parseVerificationKeyring H (Text ringText) of
                       Inl _ \<Rightarrow> unanswered WITNESS_ROOT_INVALID IntegrityUnanswered
                     | Inr witnessTrust \<Rightarrow>
                         (case parseDocument (Text cpText) of
                            Inr (JObj m) \<Rightarrow> judgeWitness H receiptTrust witnessTrust (JObj m) bySeq ordered chain cnt
                          | _ \<Rightarrow> historicalResult HInvalid WITNESS_MALFORMED
                              (historicalDimensions Broken CompletenessUnanswered Unattributable ret True Available) chain cnt None None)))))"

definition verifyHistoricalParsed :: "host \<Rightarrow> input \<Rightarrow> h_options \<Rightarrow> h_result" where
  "verifyHistoricalParsed H receipts o' =
     (let wit = (ho_checkpoint o' \<noteq> None); initial = (if wit then Available else AvailNotProvided) in
      case ho_keyring o' of
        None \<Rightarrow> historicalResult HUnverified RECEIPT_ROOT_NOT_PROVIDED
          (historicalDimensions IntegrityUnanswered CompletenessUnanswered Unattributable False wit initial) None 0 None None
      | Some ringText \<Rightarrow>
          (case parseVerificationKeyring H (Text ringText) of
             Inl _ \<Rightarrow> historicalResult HInvalid RECEIPT_ROOT_INVALID
               (historicalDimensions IntegrityUnanswered CompletenessUnanswered Unattributable False wit initial) None 0 None None
           | Inr receiptTrust \<Rightarrow>
               (let ret = pk_lifecycle receiptTrust in
                case parseDocument receipts of
                  Inr (JArr rs) \<Rightarrow>
                    (let chainResult = verifyParsedChain H (JArr rs) (integrityOptions receiptTrust o');
                         refuse = (\<lambda>code integrity. historicalResult HInvalid code
                           (historicalDimensions integrity CompletenessUnanswered Unattributable ret wit initial)
                           (vr_chain chainResult) (vr_count chainResult) None None) in
                     if vr_status chainResult \<noteq> VALID \<or> \<not> vr_signaturesVerified chainResult then
                       (if vr_status chainResult = TAMPERED then refuse RECEIPT_INTEGRITY_FAILURE Broken
                        else if vr_status chainResult = UNTRUSTED then refuse RECEIPT_IDENTITY_UNTRUSTED IntegrityUnanswered
                        else refuse RECEIPT_MALFORMED IntegrityUnanswered)
                     else afterIntegrity H o' receiptTrust rs chainResult)
                | _ \<Rightarrow> historicalResult HInvalid RECEIPT_MALFORMED
                    (historicalDimensions IntegrityUnanswered CompletenessUnanswered Unattributable ret wit initial) None 0 None None)))"

definition verifyHistoricalChain :: "host \<Rightarrow> input \<Rightarrow> jsval \<Rightarrow> h_result" where
  "verifyHistoricalChain H receipts opts =
     (case inertOptions HISTORICAL_VERIFY_OPTION_SCHEMA opts of
        Inl _ \<Rightarrow> historicalResult HInvalid RECEIPT_MALFORMED
          (historicalDimensions IntegrityUnanswered CompletenessUnanswered Unattributable False False AvailNotProvided) None 0 None None
      | Inr admitted \<Rightarrow> verifyHistoricalParsed H receipts (inertHistoricalOptions admitted))"

section \<open>When a chain is attributed\<close>

definition attributes :: "h_result \<Rightarrow> bool" where
  "attributes r \<longleftrightarrow> hd_attribution (hr_dimensions r) = AttributableAsOf"

text \<open>A time inside the declared interval of a key, the start included and the end not.\<close>

definition within :: "host \<Rightarrow> int \<Rightarrow> jstr option option \<Rightarrow> jstr option option \<Rightarrow> bool" where
  "within H t validFrom retiredAt \<longleftrightarrow>
     (\<forall>s. validFrom = Some (Some s) \<longrightarrow> (\<exists>a. lifecycleInstantNanos H s = Some a \<and> a \<le> t)) \<and>
     (\<forall>s. retiredAt = Some (Some s) \<longrightarrow> (\<exists>a. lifecycleInstantNanos H s = Some a \<and> t < a))"

lemma bounds_within:
  "beforeActivation H (Some t) f \<or> afterRetirement H (Some t) e \<longleftrightarrow> \<not> within H t f e"
  unfolding beforeActivation_def afterRetirement_def within_def
  by (auto split: option.splits)

lemma beforeActivation_within: "beforeActivation H (Some t) f \<longleftrightarrow> \<not> within H t f None"
  unfolding beforeActivation_def within_def by (auto split: option.splits)

lemma historicalBySeq_table:
  assumes "distinct (map rSeq rs)"
  shows "historicalBySeq rs = seqTable rs"
proof -
  have "distinct (map rSeq (ps @ qs)) \<Longrightarrow> foldl (\<lambda>m r. AList.update (rSeq r) r m) (seqTable ps) qs = seqTable (ps @ qs)" for ps qs
  proof (induction qs arbitrary: ps)
    case (Cons r qs)
    have "rSeq r \<notin> fst ` set (seqTable ps)" using Cons.prems by (auto simp: seqTable_def)
    then have "AList.update (rSeq r) r (seqTable ps) = seqTable (ps @ [r])" by (simp add: update_fresh seqTable_def)
    then show ?case using Cons.IH [of "ps @ [r]"] Cons.prems by simp
  qed simp
  from this [of "[]" rs] assms show ?thesis by (simp add: historicalBySeq_def seqTable_def)
qed

lemma in_order_facts:
  assumes "in_order ordered rs"
  shows "set ordered = set rs" "length ordered = length rs" "distinct (map rSeq rs)"
    "\<And>i. i < length rs \<Longrightarrow> rSeq (ordered ! i) = int i"
proof -
  have m: "mset ordered = mset rs" and s: "map rSeq ordered = map int [0..<length rs]" using assms by (simp_all add: in_order_def)
  show "set ordered = set rs" using m by (rule mset_eq_setD)
  show l: "length ordered = length rs" using m by (rule mset_eq_length)
  have "distinct (map rSeq ordered)" using s by (simp add: distinct_map)
  moreover have "mset (map rSeq ordered) = mset (map rSeq rs)" using m by simp
  ultimately show "distinct (map rSeq rs)" by (metis mset_eq_imp_distinct_iff)
  show "rSeq (ordered ! i) = int i" if "i < length rs" for i
    using arg_cong [OF s, of "\<lambda>l. l ! i"] that l by simp
qed

lemma bySeq_nth:
  assumes "in_order ordered rs" "i < length rs"
  shows "map_of (historicalBySeq rs) (int i) = Some (ordered ! i)"
  using assms in_order_facts [OF assms(1)] by (simp add: historicalBySeq_table map_of_seq flip: in_order_facts(1) [OF assms(1)])

lemma historicalOrdered_ok:
  assumes "in_order ordered rs"
  shows "historicalOrdered (historicalBySeq rs) (length rs) = Inr ordered"
  unfolding historicalOrdered_def mapE_Inr
  using in_order_facts(2) [OF assms] by (auto simp: list_all2_conv_all_nth bySeq_nth [OF assms])

text \<open>
  What a checkpoint has to satisfy to attribute an ordered chain: authenticated by a key of the witness root
  that is not retired there, no signer of the chain under the same name or with the same key material, the
  frontier a receipt of the chain, and its time inside the interval of the witness key and of the key of every
  receipt up to the frontier.
\<close>

definition frontier :: "json \<Rightarrow> int" where
  "frontier cp = numOf (jget cp (U ''highestSeq''))"

definition separate :: "host \<Rightarrow> parsed_keyring \<Rightarrow> parsed_keyring \<Rightarrow> json \<Rightarrow> json \<Rightarrow> bool" where
  "separate H trust wtrust cp r \<longleftrightarrow> rKid cp \<noteq> rKid r \<and>
     keyFingerprint H (the (map_of (pk_keyring wtrust) (rKid cp))) \<noteq> keyFingerprint H (the (map_of (pk_keyring trust) (rKid r)))"

definition witnesses :: "host \<Rightarrow> parsed_keyring \<Rightarrow> parsed_keyring \<Rightarrow> json \<Rightarrow> json list \<Rightarrow> bool" where
  "witnesses H trust wtrust cp ordered \<longleftrightarrow>
     verifyCheckpointParsed H cp (Some (retainedPublicMaterial wtrust)) = CpOk \<and>
     list_all (separate H trust wtrust cp) ordered \<and> \<not> retired_kid wtrust (rKid cp) \<and>
     textOf (jget cp (U ''chain'')) = rChain (last ordered) \<and> frontier cp < int (length ordered) \<and>
     rHash (ordered ! nat (frontier cp)) = textOf (jget cp (U ''headHash'')) \<and>
     (\<exists>t. lifecycleInstantNanos H (textOf (jget cp (U ''ts''))) = Some t \<and>
        within H t (map_of (pk_validFromByKid wtrust) (rKid cp)) None \<and>
        list_all (\<lambda>r. within H t (map_of (pk_validFromByKid trust) (rKid r)) (map_of (pk_retiredAtByKid trust) (rKid r)))
          (take (nat (frontier cp) + 1) ordered))"

lemma checkpoint_ok_facts:
  assumes "verifyCheckpointParsed H cp (Some v) = CpOk"
  shows "isPlainObject cp" "0 \<le> frontier cp" "\<exists>pub. map_of (pk_keyring v) (rKid cp) = Some pub"
  using assms
  by (auto simp: verifyCheckpointParsed_def checkpointFieldsOk_def frontier_def numOf_def Let_def
      split: if_splits option.splits json.splits)

lemma judgeInterval_attributes:
  assumes "in_order ordered rs" "0 \<le> frontier cp" "frontier cp < int (length ordered)"
  shows "attributes (judgeInterval H trust wtrust cp (historicalBySeq rs) ordered c n) \<longleftrightarrow>
     (\<exists>t. lifecycleInstantNanos H (textOf (jget cp (U ''ts''))) = Some t \<and>
        within H t (map_of (pk_validFromByKid wtrust) (rKid cp)) None \<and>
        list_all (\<lambda>r. within H t (map_of (pk_validFromByKid trust) (rKid r)) (map_of (pk_retiredAtByKid trust) (rKid r)))
          (take (nat (frontier cp) + 1) ordered))"
proof -
  let ?k = "nat (frontier cp) + 1"
  have k: "nat (frontier cp + 1) = ?k" and kl: "?k \<le> length ordered" using assms(2,3) by auto
  have m: "k \<le> length ordered \<Longrightarrow> map (\<lambda>s. the (map_of (historicalBySeq rs) (int s))) [0..<k] = take k ordered" for k
    using in_order_facts(2) [OF assms(1)] by (intro nth_equalityI) (auto simp: bySeq_nth [OF assms(1)])
  note c = m [OF kl]
  let ?time = "lifecycleInstantNanos H (textOf (jget cp (U ''ts'')))"
  let ?f = "\<lambda>r. map_of (pk_validFromByKid trust) (rKid r)" and ?e = "\<lambda>r. map_of (pk_retiredAtByKid trust) (rKid r)"
  have a: "attributes (judgeInterval H trust wtrust cp (historicalBySeq rs) ordered c n) \<longleftrightarrow>
     \<not> beforeActivation H ?time (map_of (pk_validFromByKid wtrust) (rKid cp)) \<and> ?time \<noteq> None \<and>
     list_all (\<lambda>r. \<not> (beforeActivation H ?time (?f r) \<or> afterRetirement H ?time (?e r))) (take ?k ordered)"
    unfolding judgeInterval_def Let_def attributes_def historicalResult_def historicalDimensions_def
      frontier_def [symmetric] k c by (auto simp: list_all_iff list_ex_iff)
  show ?thesis
  proof (cases ?time)
    case (Some t)
    show ?thesis unfolding a Some bounds_within by (simp add: beforeActivation_within)
  qed (simp add: a)
qed

lemma judgeFrontier_attributes:
  assumes "in_order ordered rs" "0 \<le> frontier cp" "ordered \<noteq> []"
  shows "attributes (judgeFrontier H trust wtrust cp (historicalBySeq rs) ordered c n) \<longleftrightarrow>
     textOf (jget cp (U ''chain'')) = rChain (last ordered) \<and> frontier cp < int (length ordered) \<and>
     rHash (ordered ! nat (frontier cp)) = textOf (jget cp (U ''headHash'')) \<and>
     attributes (judgeInterval H trust wtrust cp (historicalBySeq rs) ordered c n)"
proof -
  have l: "length ordered = length rs" by (rule in_order_facts(2) [OF assms(1)])
  have "rSeq (last ordered) = int (length ordered) - 1"
    using in_order_facts(4) [OF assms(1), of "length rs - 1"] assms(3) l by (cases "length rs") (simp_all add: last_conv_nth)
  moreover have "frontier cp < int (length ordered) \<Longrightarrow> map_of (historicalBySeq rs) (frontier cp) = Some (ordered ! nat (frontier cp))"
    using bySeq_nth [OF assms(1), of "nat (frontier cp)"] assms(2) l by simp
  ultimately show ?thesis unfolding judgeFrontier_def Let_def frontier_def [symmetric]
    by (auto simp: attributes_def historicalResult_def historicalDimensions_def)
qed

lemma judgeWitness_attributes:
  assumes o: "in_order ordered rs" and ne: "ordered \<noteq> []"
  shows "attributes (judgeWitness H trust wtrust cp (historicalBySeq rs) ordered c n) \<longleftrightarrow> witnesses H trust wtrust cp ordered"
proof (cases "verifyCheckpointParsed H cp (Some (retainedPublicMaterial wtrust)) = CpOk")
  case True
  note f = checkpoint_ok_facts [OF True]
  obtain pub where p: "map_of (pk_keyring wtrust) (rKid cp) = Some pub" using f(3) by (auto simp: retainedPublicMaterial_def)
  have s: "witnessKeySeparated H (pk_keyring trust) (rKid cp) pub ordered \<longleftrightarrow> list_all (separate H trust wtrust cp) ordered"
    by (simp add: witnessKeySeparated_def separate_def list_all_iff p)
  have e: "attributes (judgeWitness H trust wtrust cp (historicalBySeq rs) ordered c n) \<longleftrightarrow>
      list_all (separate H trust wtrust cp) ordered \<and> \<not> retired_kid wtrust (rKid cp) \<and>
      attributes (judgeFrontier H trust wtrust cp (historicalBySeq rs) ordered c n)"
    unfolding judgeWitness_def Let_def by (simp add: True p s retired_kid_def attributes_def historicalResult_def historicalDimensions_def)
  show ?thesis unfolding e judgeFrontier_attributes [OF o f(2) ne] witnesses_def
    using judgeInterval_attributes [OF o f(2)] True by blast
next
  case False
  then show ?thesis unfolding judgeWitness_def witnesses_def Let_def
    by (simp add: attributes_def historicalResult_def historicalDimensions_def)
qed

text \<open>The evidence of a caller that attributes: both roots, the receipts and the checkpoint.\<close>

definition attributable :: "host \<Rightarrow> input \<Rightarrow> h_options \<Rightarrow> bool" where
  "attributable H receipts o' \<longleftrightarrow> (\<exists>ringText trust rs ordered wText wtrust cpText cp.
     ho_keyring o' = Some ringText \<and> parseVerificationKeyring H (Text ringText) = Inr trust \<and>
     ho_checkpointKeyring o' = Some wText \<and> parseVerificationKeyring H (Text wText) = Inr wtrust \<and>
     ho_checkpoint o' = Some cpText \<and> parseDocument (Text cpText) = Inr cp \<and>
     parseDocument receipts = Inr (JArr rs) \<and>
     vr_status (verifyParsedChain H (JArr rs) (integrityOptions trust o')) = VALID \<and>
     in_order ordered rs \<and> witnesses H trust wtrust cp ordered)"

lemma valid_ordered:
  assumes "vr_status (verifyParsedChain H (JArr rs) opts) = VALID"
  obtains ordered where "in_order ordered rs" "ordered \<noteq> []" "vr_signaturesVerified (verifyParsedChain H (JArr rs) opts)"
proof -
  have "passes (verifyParsedChain H (JArr rs) opts)" using assms by (simp add: passes_def)
  then obtain v man cp ordered where a: "accepted H rs opts v man cp ordered"
    and d: "decided H v cp ordered (verifyParsedChain H (JArr rs) opts)" by (rule passes_accepted)
  have i: "in_order ordered rs" and "rs \<noteq> []" using a by (simp_all add: accepted_def)
  then have "ordered \<noteq> []" using in_order_facts(2) [OF i] by auto
  then show thesis using that [OF i] d assms by (simp add: decided_def)
qed

lemma parsed_attributes: "attributes (verifyHistoricalParsed H receipts o') \<longleftrightarrow> attributable H receipts o'"
proof
  assume "attributes (verifyHistoricalParsed H receipts o')"
  then obtain ringText trust rs where r: "ho_keyring o' = Some ringText" "parseVerificationKeyring H (Text ringText) = Inr trust"
      "parseDocument receipts = Inr (JArr rs)" and v: "vr_status (verifyParsedChain H (JArr rs) (integrityOptions trust o')) = VALID"
    and a: "attributes (afterIntegrity H o' trust rs (verifyParsedChain H (JArr rs) (integrityOptions trust o')))"
    unfolding verifyHistoricalParsed_def Let_def
    by (auto simp: attributes_def historicalResult_def historicalDimensions_def split: option.splits sum.splits json.splits if_splits)
  obtain ordered where o: "in_order ordered rs" "ordered \<noteq> []" using v by (rule valid_ordered)
  obtain cpText wText wtrust cp where "ho_checkpoint o' = Some cpText" "ho_checkpointKeyring o' = Some wText"
      "parseVerificationKeyring H (Text wText) = Inr wtrust" "parseDocument (Text cpText) = Inr cp" "witnesses H trust wtrust cp ordered"
    using a historicalOrdered_ok [OF o(1)] judgeWitness_attributes [OF o] unfolding afterIntegrity_def Let_def
    by (auto simp: attributes_def historicalResult_def historicalDimensions_def split: option.splits sum.splits json.splits)
  then show "attributable H receipts o'" using r v o unfolding attributable_def by blast
next
  assume "attributable H receipts o'"
  then obtain ringText trust rs ordered wText wtrust cpText cp where
    r: "ho_keyring o' = Some ringText" "parseVerificationKeyring H (Text ringText) = Inr trust"
      "ho_checkpointKeyring o' = Some wText" "parseVerificationKeyring H (Text wText) = Inr wtrust"
      "ho_checkpoint o' = Some cpText" "parseDocument (Text cpText) = Inr cp" "parseDocument receipts = Inr (JArr rs)"
    and v: "vr_status (verifyParsedChain H (JArr rs) (integrityOptions trust o')) = VALID"
    and o: "in_order ordered rs" and w: "witnesses H trust wtrust cp ordered"
    unfolding attributable_def by blast
  obtain ordered' where "in_order ordered' rs" "ordered' \<noteq> []"
    and sv: "vr_signaturesVerified (verifyParsedChain H (JArr rs) (integrityOptions trust o'))" using v by (rule valid_ordered)
  then have ne: "ordered \<noteq> []" using in_order_unique [OF o _ refl] by blast
  obtain m where m: "cp = JObj m" using w checkpoint_ok_facts(1) unfolding witnesses_def isPlainObject_iff by blast
  show "attributes (verifyHistoricalParsed H receipts o')"
    unfolding verifyHistoricalParsed_def afterIntegrity_def Let_def
    using w judgeWitness_attributes [OF o ne] by (simp add: r v sv m historicalOrdered_ok [OF o])
qed

section \<open>Results are honest\<close>

text \<open>
  The fields of a result agree: an attribution, a frontier and a time come together, with the two positive
  classifications and their codes, and with intact evidence; nothing is called suppressed or independent.
\<close>

definition truthful :: "h_result \<Rightarrow> bool" where
  "truthful r \<longleftrightarrow>
     (let positive = (hr_classification r = HVerified \<or> hr_classification r = HPartial) in
      attributes r = positive \<and> (hr_asOf r \<noteq> None) = positive \<and> (hr_attributedThroughSeq r \<noteq> None) = positive \<and>
      (hr_classification r = HVerified) = (hr_code r = HEAD_ANCHORED) \<and>
      (hr_classification r = HPartial) = (hr_code r = PREFIX_ANCHORED) \<and>
      (hr_classification r = HConflict) = (hd_completeness (hr_dimensions r) = CompletenessConflict) \<and>
      (positive \<longrightarrow> hd_integrity (hr_dimensions r) = Intact \<and> hd_witnessProvided (hr_dimensions r)) \<and>
      hd_availability (hr_dimensions r) \<noteq> ProvenSuppressed \<and>
      hd_organizationalIndependence (hr_dimensions r) = U ''UNVERIFIED'')"

lemmas truthful_unfold = truthful_def attributes_def historicalResult_def historicalDimensions_def Let_def

lemma truthful_if: "(b \<Longrightarrow> truthful x) \<Longrightarrow> (\<not> b \<Longrightarrow> truthful y) \<Longrightarrow> truthful (if b then x else y)"
  by simp

lemma truthful_option: "truthful x \<Longrightarrow> (\<And>a. truthful (f a)) \<Longrightarrow> truthful (case v of None \<Rightarrow> x | Some a \<Rightarrow> f a)"
  by (cases v) simp_all

lemma truthful_sum: "(\<And>a. truthful (f a)) \<Longrightarrow> (\<And>a. truthful (g a)) \<Longrightarrow> truthful (case v of Inl a \<Rightarrow> f a | Inr a \<Rightarrow> g a)"
  by (cases v) simp_all

lemma truthful_json:
  "truthful a \<Longrightarrow> (\<And>x. truthful (b x)) \<Longrightarrow> (\<And>x. truthful (c x)) \<Longrightarrow> (\<And>x. truthful (d x)) \<Longrightarrow> (\<And>x. truthful (e x)) \<Longrightarrow>
   (\<And>x. truthful (f x)) \<Longrightarrow> truthful (case_json a b c d e f v)"
  by (cases v) simp_all

lemmas truthful_cases = truthful_if truthful_option truthful_sum truthful_json

lemma truthful_negative:
  "cl = HInvalid \<or> cl = HUnverified \<Longrightarrow> code \<noteq> HEAD_ANCHORED \<Longrightarrow> code \<noteq> PREFIX_ANCHORED \<Longrightarrow> cm \<noteq> CompletenessConflict \<Longrightarrow>
   avail \<noteq> ProvenSuppressed \<Longrightarrow> truthful (historicalResult cl code (historicalDimensions i cm Unattributable r w avail) c n None None)"
  "code = CHECKPOINT_AHEAD \<or> code = CHECKPOINT_CONFLICT \<Longrightarrow> avail \<noteq> ProvenSuppressed \<Longrightarrow>
   truthful (historicalResult HConflict code (historicalDimensions i CompletenessConflict Unattributable r w avail) c n None None)"
  by (auto simp: truthful_unfold)

lemma truthful_judgeInterval: "truthful (judgeInterval H trust wtrust cp bySeq ordered c n)"
  unfolding judgeInterval_def Let_def by (intro truthful_if truthful_negative) (simp_all add: truthful_unfold)

lemma truthful_judgeFrontier: "truthful (judgeFrontier H trust wtrust cp bySeq ordered c n)"
  unfolding judgeFrontier_def Let_def by (intro truthful_cases truthful_judgeInterval truthful_negative) simp_all

lemma truthful_judgeWitness: "truthful (judgeWitness H trust wtrust cp bySeq ordered c n)"
  unfolding judgeWitness_def Let_def by (intro truthful_cases truthful_judgeFrontier truthful_negative) simp_all

lemma truthful_afterIntegrity: "truthful (afterIntegrity H o' trust rs cr)"
  unfolding afterIntegrity_def Let_def by (intro truthful_cases truthful_judgeWitness truthful_negative) simp_all

lemma truthful_parsed: "truthful (verifyHistoricalParsed H receipts o')"
  unfolding verifyHistoricalParsed_def Let_def by (intro truthful_cases truthful_afterIntegrity truthful_negative) simp_all

lemma truthful_verifyHistoricalChain: "truthful (verifyHistoricalChain H receipts opts)"
  unfolding verifyHistoricalChain_def by (intro truthful_sum truthful_parsed truthful_negative) simp_all

section \<open>Properties\<close>

text \<open>
  (C26) Historical attribution is decided by the evidence: a result attributes the chain exactly when the
  options are admitted and the retained keys verify the chain as VALID, a checkpoint is authenticated under its
  own trust root by a key that is not retired there and that is not a signer of the chain by name or by key
  material, its frontier is a receipt of the chain, and its time is inside the validity interval of the witness
  key and of the key of every receipt it covers.
\<close>

theorem historical_attribution_decided:
  "attributes (verifyHistoricalChain H receipts opts) \<longleftrightarrow>
     (\<exists>admitted. inertOptions HISTORICAL_VERIFY_OPTION_SCHEMA opts = Inr admitted \<and>
        attributable H receipts (inertHistoricalOptions admitted))"
proof (cases "inertOptions HISTORICAL_VERIFY_OPTION_SCHEMA opts")
  case (Inl e)
  then show ?thesis by (simp add: verifyHistoricalChain_def attributes_def historicalResult_def historicalDimensions_def)
next
  case (Inr admitted)
  then show ?thesis by (simp add: verifyHistoricalChain_def parsed_attributes)
qed

text \<open>
  (C27) A historical result never claims more than it shows: over every input and every value of the options the
  attribution, its frontier and its time come together with VERIFIED or PARTIAL, a conflict with CONFLICT, and
  neither suppression nor organisational independence is ever claimed.
\<close>

theorem historical_result_coherent:
  "truthful (verifyHistoricalChain H receipts opts)"
  by (rule truthful_verifyHistoricalChain)

end
