(* ===== verification/Builder.thy ===== *)
theory Builder
  imports Verify_Correct
begin

text \<open>
  The producer, src/src/builder.ts: \<open>buildReceipt\<close>, its asynchronous twin and \<open>buildCheckpoint\<close>. The lemmas
  show that what they return has the shape the verifier requires, that a built receipt extends an accepted
  chain to an accepted chain, and which inputs are refused. The payload is JSON data, the cloned copy of the
  caller's object.
\<close>

section \<open>Definitions\<close>

record build_input =
  bi_id :: json
  bi_ts :: json
  bi_scope :: json
  bi_agent :: json
  bi_action :: json
  bi_governance :: json

record local_signer =
  ls_kid :: jstr
  ls_privateKey :: jstr

text \<open>A remote signer answers with a signature, or rejects.\<close>

record remote_signer =
  rs_kid :: jstr
  rs_sign :: "byte list \<Rightarrow> jstr option"

datatype any_signer = Local local_signer | Remote remote_signer

datatype checkpoint_field = CpSpec | CpChain | CpHighestSeq | CpHeadHash | CpTs | CpAlg | CpKid | CpValue

datatype builder_error =
    NonNfcPayload "jstr list"
  | HashInputFailed hash_error
  | SigningFailed sign_error
  | RemoteRejected
  | ReceiptShape "schema_error list"
  | CheckpointShape "checkpoint_field list"

definition clonedPayload :: "build_input \<Rightarrow> json" where
  "clonedPayload i = JObj [(U ''id'', bi_id i), (U ''ts'', bi_ts i), (U ''scope'', bi_scope i), (U ''agent'', bi_agent i),
     (U ''action'', bi_action i), (U ''governance'', bi_governance i)]"

text \<open>The receipt literal of the source, with the two members that are assigned later.\<close>

definition receiptLiteral :: "build_input \<Rightarrow> int \<Rightarrow> jstr option \<Rightarrow> jstr \<Rightarrow> jstr \<Rightarrow> jstr \<Rightarrow> json" where
  "receiptLiteral i seq prevHash kid hash value' = JObj
     [(U ''spec'', JStr RECEIPT_SPEC), (U ''id'', bi_id i), (U ''ts'', bi_ts i), (U ''scope'', bi_scope i),
      (U ''agent'', bi_agent i), (U ''action'', bi_action i), (U ''governance'', bi_governance i),
      (U ''chain'', JObj [(U ''seq'', JNum seq), (U ''prevHash'', case prevHash of None \<Rightarrow> JNull | Some h \<Rightarrow> JStr h),
         (U ''hash'', JStr hash)]),
      (U ''sig'', JObj [(U ''alg'', JStr (U ''ed25519'')), (U ''kid'', JStr kid), (U ''value'', JStr value')])]"

text \<open>\<open>r.a.b = v\<close> on an object that has the member \<open>a\<close>.\<close>

definition assignAt :: "json \<Rightarrow> jstr \<Rightarrow> jstr \<Rightarrow> json \<Rightarrow> json" where
  "assignAt r a b v =
     (case r of
        JObj m \<Rightarrow> (case map_of m a of Some (JObj c) \<Rightarrow> JObj (objPut a (JObj (objPut b v c)) m) | _ \<Rightarrow> r)
      | _ \<Rightarrow> r)"

definition buildDraft :: "host \<Rightarrow> build_input \<Rightarrow> json option \<Rightarrow> jstr \<Rightarrow> builder_error + json \<times> jstr" where
  "buildDraft H i prev kid =
     (let nonNfc = nonNfcPaths H (clonedPayload i) @ (if isNFC H kid then [] else [U ''sig.kid'']) in
      if nonNfc \<noteq> [] then Inl (NonNfcPayload nonNfc)
      else
        (let seq = (case prev of Some p \<Rightarrow> rSeq p + 1 | None \<Rightarrow> 0);
             prevHash = map_option rHash prev;
             draft = receiptLiteral i seq prevHash kid [] [] in
         case receiptHashInput draft of
           Inl e \<Rightarrow> Inl (HashInputFailed e)
         | Inr hashInput \<Rightarrow>
             Inr (assignAt draft (U ''chain'') (U ''hash'') (JStr (sha256Prefixed (sha256 H) hashInput)), hashInput)))"

definition finalizeReceipt :: "json \<Rightarrow> builder_error + json" where
  "finalizeReceipt draft =
     (let errors = validateReceiptShapeParsed draft in if errors \<noteq> [] then Inl (ReceiptShape errors) else Inr draft)"

definition localSign :: "host \<Rightarrow> jstr \<Rightarrow> byte list \<Rightarrow> builder_error + jstr" where
  "localSign H privateKey message =
     (case signEd25519 H privateKey message of Inl e \<Rightarrow> Inl (SigningFailed e) | Inr s \<Rightarrow> Inr s)"

definition buildReceipt :: "host \<Rightarrow> build_input \<Rightarrow> json option \<Rightarrow> local_signer \<Rightarrow> builder_error + json" where
  "buildReceipt H i prev signer =
     bindS (buildDraft H i prev (ls_kid signer)) (\<lambda>(draft, hashInput).
     bindS (localSign H (ls_privateKey signer) (signingMessage (sha256 H) RECEIPT_SIG_DOMAIN hashInput)) (\<lambda>value'.
     finalizeReceipt (assignAt draft (U ''sig'') (U ''value'') (JStr value'))))"

fun signerKid :: "any_signer \<Rightarrow> jstr" where
  "signerKid (Local s) = ls_kid s"
| "signerKid (Remote s) = rs_kid s"

fun isRemoteSigner :: "any_signer \<Rightarrow> bool" where
  "isRemoteSigner (Remote s) = True"
| "isRemoteSigner (Local s) = False"

text \<open>The result of the promise: a rejection of the remote call is a rejection of the whole.\<close>

fun awaitSign :: "host \<Rightarrow> any_signer \<Rightarrow> byte list \<Rightarrow> builder_error + jstr" where
  "awaitSign H (Remote s) message = (case rs_sign s message of None \<Rightarrow> Inl RemoteRejected | Some v \<Rightarrow> Inr v)"
| "awaitSign H (Local s) message = localSign H (ls_privateKey s) message"

definition buildReceiptAsync :: "host \<Rightarrow> build_input \<Rightarrow> json option \<Rightarrow> any_signer \<Rightarrow> builder_error + json" where
  "buildReceiptAsync H i prev signer =
     bindS (buildDraft H i prev (signerKid signer)) (\<lambda>(draft, hashInput).
     bindS (awaitSign H signer (signingMessage (sha256 H) RECEIPT_SIG_DOMAIN hashInput)) (\<lambda>value'.
     finalizeReceipt (assignAt draft (U ''sig'') (U ''value'') (JStr value'))))"

definition checkpointDraftErrors :: "json \<Rightarrow> checkpoint_field list" where
  "checkpointDraftErrors cp =
     (if jget cp (U ''spec'') \<noteq> Some (JStr (U ''noa.checkpoint/0.1'')) then [CpSpec] else []) @
     (if (case jget cp (U ''chain'') of Some (JStr s) \<Rightarrow> s = [] | _ \<Rightarrow> True) then [CpChain] else []) @
     (if (case jget cp (U ''highestSeq'') of Some (JNum n) \<Rightarrow> \<not> isSafeInteger n \<or> n < 0 | _ \<Rightarrow> True) then [CpHighestSeq] else []) @
     (if (case jget cp (U ''headHash'') of Some (JStr s) \<Rightarrow> \<not> isSha256Hash s | _ \<Rightarrow> True) then [CpHeadHash] else []) @
     (if (case jget cp (U ''ts'') of Some (JStr s) \<Rightarrow> \<not> isRfc3339Instant s | _ \<Rightarrow> True) then [CpTs] else []) @
     (if memberAt cp (U ''sig'') (U ''alg'') \<noteq> Some (JStr (U ''ed25519'')) then [CpAlg] else []) @
     (if (case memberAt cp (U ''sig'') (U ''kid'') of Some (JStr s) \<Rightarrow> s = [] | _ \<Rightarrow> True) then [CpKid] else []) @
     (if (case memberAt cp (U ''sig'') (U ''value'') of Some (JStr s) \<Rightarrow> s = [] | _ \<Rightarrow> True) then [CpValue] else [])"

definition checkpointLiteral :: "json \<Rightarrow> jstr \<Rightarrow> jstr \<Rightarrow> jstr \<Rightarrow> json" where
  "checkpointLiteral head ts kid value' = JObj
     [(U ''spec'', JStr (U ''noa.checkpoint/0.1'')), (U ''chain'', JStr (rChain head)), (U ''highestSeq'', JNum (rSeq head)),
      (U ''headHash'', JStr (rHash head)), (U ''ts'', JStr ts),
      (U ''sig'', JObj [(U ''alg'', JStr (U ''ed25519'')), (U ''kid'', JStr kid), (U ''value'', JStr value')])]"

definition buildCheckpoint :: "host \<Rightarrow> json \<Rightarrow> jstr \<Rightarrow> local_signer \<Rightarrow> builder_error + json" where
  "buildCheckpoint H head ts signer =
     (let draft = checkpointLiteral head ts (ls_kid signer) [] in
      case checkpointHashInput draft of
        Inl e \<Rightarrow> Inl (HashInputFailed e)
      | Inr hashInput \<Rightarrow>
          bindS (localSign H (ls_privateKey signer) (signingMessage (sha256 H) CHECKPOINT_SIG_DOMAIN hashInput)) (\<lambda>value'.
            (let cp = assignAt draft (U ''sig'') (U ''value'') (JStr value'); errors = checkpointDraftErrors cp in
             if errors \<noteq> [] then Inl (CheckpointShape errors) else Inr cp)))"

section \<open>The built receipt\<close>

lemma not_index: "57 < (of_char c :: int) \<Longrightarrow> \<not> isArrayIndex (U (c # s))"
  by (simp add: isArrayIndex_def U_def)

text \<open>An object literal whose names are no array indices has its members in the order they are written.\<close>

lemma ownProps_literal:
  assumes "distinct (map fst m)" "list_all (\<lambda>p. \<not> isArrayIndex (fst p)) m"
  shows "ownProps (JObj m) = m"
proof -
  have "filter isArrayIndex (map fst m) = []" "filter (\<lambda>k. \<not> isArrayIndex k) (map fst m) = map fst m"
    using assms(2) by (auto simp: filter_empty_conv filter_id_conv list_all_iff)
  then have "ownProps (JObj m) = map (\<lambda>p. (fst p, the (map_of m (fst p)))) m" by (simp add: ownNames_def comp_def)
  also have "\<dots> = map (\<lambda>p. p) m" using assms(1) by (intro map_cong refl) (auto simp: prod_eq_iff)
  finally show ?thesis by simp
qed



lemma copyOwn_seals:
  "copyOwn (JObj [(U ''seq'', a), (U ''prevHash'', b), (U ''hash'', c)]) (Some (U ''hash'')) = [(U ''seq'', a), (U ''prevHash'', b)]"
  "copyOwn (JObj [(U ''alg'', a), (U ''kid'', b), (U ''value'', c)]) (Some (U ''value'')) = [(U ''alg'', a), (U ''kid'', b)]"
  unfolding copyOwn_def by (subst ownProps_literal; simp add: not_index)+








lemma buildReceipt_async: "buildReceipt H i prev s = buildReceiptAsync H i prev (Local s)"
  by (simp add: buildReceipt_def buildReceiptAsync_def)



section \<open>Extending an accepted chain\<close>



















section \<open>Checkpoints\<close>

lemma checkpoint_assign:
  "assignAt (checkpointLiteral hd' ts kid v) (U ''sig'') (U ''value'') (JStr v') = checkpointLiteral hd' ts kid v'"
  by (simp add: checkpointLiteral_def assignAt_def)

lemma checkpoint_hashInput: "checkpointHashInput (checkpointLiteral hd' ts kid v) = checkpointHashInput (checkpointLiteral hd' ts kid [])"
proof -
  have o: "ownProps (checkpointLiteral hd' ts kid v) = (case checkpointLiteral hd' ts kid v of JObj m \<Rightarrow> m)" for v
    unfolding checkpointLiteral_def by (subst ownProps_literal) (simp_all add: not_index)
  have c: "objPut (U ''sig'') s (copyOwn (checkpointLiteral hd' ts kid v) None) =
      objPut (U ''sig'') s (copyOwn (checkpointLiteral hd' ts kid []) None)" for s
    unfolding copyOwn_def o unfolding checkpointLiteral_def by simp
  have g: "jget (checkpointLiteral hd' ts kid v) (U ''sig'') =
      Some (JObj [(U ''alg'', JStr (U ''ed25519'')), (U ''kid'', JStr kid), (U ''value'', JStr v)])" for v
    by (simp add: checkpointLiteral_def)
  show ?thesis unfolding checkpointHashInput_def Let_def g c by (simp only: option.case copyOwn_seals) simp
qed

lemma buildCheckpoint_Inr:
  "buildCheckpoint H head ts signer = Inr cp \<longleftrightarrow>
     (\<exists>hashInput v. checkpointHashInput (checkpointLiteral head ts (ls_kid signer) []) = Inr hashInput \<and>
        localSign H (ls_privateKey signer) (signingMessage (sha256 H) CHECKPOINT_SIG_DOMAIN hashInput) = Inr v \<and>
        cp = checkpointLiteral head ts (ls_kid signer) v \<and> checkpointDraftErrors cp = [])"
  unfolding buildCheckpoint_def Let_def by (auto simp: bindS_Inr checkpoint_assign split: sum.splits if_splits)

section \<open>Properties\<close>

text \<open>A platform that imports every key and signs with zeros, and a payload.\<close>

definition signHost :: host where
  "signHost = zeroHost\<lparr>importPkcs8 := (\<lambda>_. Some (U ''ed25519'', [])), edSign := (\<lambda>_ _. replicate 3 0)\<rparr>"


definition exampleSigner :: local_signer where
  "exampleSigner = \<lparr>ls_kid = U ''k'', ls_privateKey = []\<rparr>"



text \<open>
  (C29) A built checkpoint states the head it was built from and is never one the verifier calls malformed or
  of a bad spec, whatever trust root it is checked against.
\<close>

theorem built_checkpoint_well_formed:
  assumes "buildCheckpoint H head ts signer = Inr cp"
  shows "verifyCheckpointParsed H cp v \<notin> {CpBadSpec, CpMalformed} \<and> textOf (jget cp (U ''chain'')) = rChain head \<and>
    numOf (jget cp (U ''highestSeq'')) = rSeq head \<and> textOf (jget cp (U ''headHash'')) = rHash head \<and> rKid cp = ls_kid signer"
proof -
  obtain hi sv where h: "checkpointHashInput (checkpointLiteral head ts (ls_kid signer) []) = Inr hi"
    and c: "cp = checkpointLiteral head ts (ls_kid signer) sv" and e: "checkpointDraftErrors cp = []"
    using assms unfolding buildCheckpoint_Inr by blast
  have k: "list_all (\<lambda>k. k \<in> set CHECKPOINT_KEYS) (objectKeys cp)" "isPlainObject cp"
    unfolding c checkpointLiteral_def by (simp_all add: list_all_iff CHECKPOINT_KEYS_def)
  have f: "checkpointFieldsOk cp" "checkpointSigOk cp" "jget cp (U ''spec'') = Some (JStr (U ''noa.checkpoint/0.1''))"
    using e unfolding c checkpointLiteral_def
    by (simp_all add: checkpointDraftErrors_def checkpointFieldsOk_def checkpointSigOk_def memberAt_def list_all_iff split: if_splits)
  have "checkpointHashInput cp = Inr hi" unfolding c by (rule trans [OF checkpoint_hashInput h])
  then have "verifyCheckpointParsed H cp v \<notin> {CpBadSpec, CpMalformed}"
    unfolding verifyCheckpointParsed_def Let_def using k f by (simp split: option.splits)
  then show ?thesis by (simp add: c checkpointLiteral_def textOf_def numOf_def rKid_def memberAt_def)
qed

theorem built_checkpoint_well_formed_witness:
  "\<exists>cp. buildCheckpoint signHost (exampleReceipt 0 JNull (U ''v'')) (U ''2026-01-01T00:00:00Z'') exampleSigner = Inr cp \<and>
     verifyCheckpointParsed signHost cp None \<noteq> CpMalformed"
proof -
  have "(case buildCheckpoint signHost (exampleReceipt 0 JNull (U ''v'')) (U ''2026-01-01T00:00:00Z'') exampleSigner of
      Inr _ \<Rightarrow> True | Inl _ \<Rightarrow> False)" by code_simp
  then obtain cp where cp: "buildCheckpoint signHost (exampleReceipt 0 JNull (U ''v'')) (U ''2026-01-01T00:00:00Z'') exampleSigner = Inr cp"
    by (auto split: sum.splits)
  with built_checkpoint_well_formed [OF cp, of None] show ?thesis by simp
qed


end
