(* ===== verification/Federation.thy ===== *)
theory Federation
  imports Builder
begin

text \<open>
  The witness federation of src/src/federation: the acceptance rule over a snapshot of witness anchors
  (acceptance.ts), the anchor builder (anchor.ts) and their composition with the chain verifier
  (verify-witnessed.ts). The lemmas show that the rule computes the sets it is specified by, that a snapshot
  confirms at most one head of a chain, and that the head judged is the frontier of the verified chain.
\<close>

section \<open>The acceptance rule\<close>

definition ANCHOR_SIG_DOMAIN :: jstr where
  "ANCHOR_SIG_DOMAIN = U ''NOA-Federation-Anchor-v0.1-sig''"

datatype acceptance_classification = QUORUM_CONFIRMED | NOT_ESTABLISHED | TRUNCATED | FORK | STALE | INVALID_INPUT

datatype acceptance_reason =
    HeadNotObject | HeadChain | HeadSeq | HeadHash
  | FreshnessNotObject | FreshnessMaxAge | FreshnessSkew
  | TrustSetNotObject | WitnessesNotArray | TooFewWitnesses int | QuorumNotInteger | QuorumTooSmall int | QuorumTooLarge int int
  | WitnessNotObject | WitnessKid | WitnessPubkey jstr | DuplicateKid jstr | DuplicatePubkey | AnchorsNotArray
  | DocumentInvalid jstr doc_reason | OptionsInvalid option_error
  | ForkReason int | TruncatedReason int | ConfirmedReason int int int | StaleReason int int int | NotEstablishedReason int int

definition SNAPSHOT_NOTE :: jstr where
  "SNAPSHOT_NOTE = U ''snapshot check: complete:true means a quorum of pinned witnesses confirmed this head AS OF the supplied anchor snapshot; full non-deletion additionally requires the '' @ [167] @ U ''10 live frontier-query layer''"

record completeness_result =
  cr_complete :: bool
  cr_scope :: jstr
  cr_classification :: acceptance_classification
  cr_note :: jstr
  cr_reason :: acceptance_reason
  cr_confirmations :: int
  cr_stale :: int
  cr_freshnessEnforced :: bool

definition acceptanceResult ::
  "bool \<Rightarrow> acceptance_classification \<Rightarrow> acceptance_reason \<Rightarrow> int \<Rightarrow> int \<Rightarrow> bool \<Rightarrow> completeness_result" where
  "acceptanceResult complete classification reason confirmations stale enforced =
     \<lparr>cr_complete = complete, cr_scope = U ''snapshot'', cr_classification = classification, cr_note = SNAPSHOT_NOTE,
      cr_reason = reason, cr_confirmations = confirmations, cr_stale = stale, cr_freshnessEnforced = enforced\<rparr>"

definition invalidInput :: "acceptance_reason \<Rightarrow> completeness_result" where
  "invalidInput reason = acceptanceResult False INVALID_INPUT reason 0 0 False"

record freshness_policy =
  fp_now :: int
  fp_maxAgeMs :: int
  fp_skewMs :: "int option"

text \<open>The signed surface of an anchor, and its signing message. Canonicalization may throw.\<close>

definition anchorSurface :: "json \<Rightarrow> json" where
  "anchorSurface a = JObj [(U ''chain'', JStr (textOf (jget a (U ''chain'')))), (U ''highestSeq'', JNum (numOf (jget a (U ''highestSeq'')))),
     (U ''headHash'', JStr (textOf (jget a (U ''headHash'')))), (U ''ts'', JStr (textOf (jget a (U ''ts''))))]"

definition anchorSigningInput :: "host \<Rightarrow> json \<Rightarrow> jcs_error + byte list" where
  "anchorSigningInput H a =
     (case canonicalize (anchorSurface a) of
        Inl e \<Rightarrow> Inl e | Inr jcs \<Rightarrow> Inr (signingMessage (sha256 H) ANCHOR_SIG_DOMAIN jcs))"

definition parseAnchorTsMs :: "host \<Rightarrow> jstr \<Rightarrow> int option" where
  "parseAnchorTsMs H ts = (if \<not> isRfc3339Instant ts then None else dateParse H ts)"

datatype wclass = Confirm | Beyond | Divergent | StaleConfirm

fun isContradiction :: "wclass \<Rightarrow> bool" where
  "isContradiction Beyond = True"
| "isContradiction Divergent = True"
| "isContradiction _ = False"

text \<open>Section 0: the presented head.\<close>

definition checkHead :: "json \<Rightarrow> acceptance_reason + unit" where
  "checkHead head =
     (if \<not> isObjectType head then Inl HeadNotObject
      else if \<not> (case jget head (U ''chain'') of Some (JStr s) \<Rightarrow> s \<noteq> [] | _ \<Rightarrow> False) then Inl HeadChain
      else if \<not> (case jget head (U ''seq'') of Some (JNum n) \<Rightarrow> isSafeInteger n \<and> \<not> n < 0 | _ \<Rightarrow> False) then Inl HeadSeq
      else if \<not> (case jget head (U ''hash'') of Some (JStr s) \<Rightarrow> isSha256Hash s | _ \<Rightarrow> False) then Inl HeadHash
      else Inr ())"

text \<open>Section 0b: the freshness window. The admitted policy has integer members, which are finite numbers.\<close>

definition checkFreshness :: "freshness_policy option \<Rightarrow> acceptance_reason + (int \<times> int) option" where
  "checkFreshness fresh =
     (case fresh of
        None \<Rightarrow> Inr None
      | Some f \<Rightarrow>
          if fp_maxAgeMs f < 0 then Inl FreshnessMaxAge
          else
            (let skewMs = (case fp_skewMs f of None \<Rightarrow> 0 | Some s \<Rightarrow> s) in
             if skewMs < 0 then Inl FreshnessSkew else Inr (Some (fp_now f - fp_maxAgeMs f, fp_now f + skewMs))))"

text \<open>Section 1: the pinned witnesses, as a table from key identifiers to keys.\<close>

definition pinStep :: "(jstr \<times> jstr) list \<Rightarrow> json \<Rightarrow> acceptance_reason + (jstr \<times> jstr) list" where
  "pinStep pinned w =
     (if \<not> isObjectType w then Inl WitnessNotObject
      else case jget w (U ''kid'') of
        Some (JStr kid) \<Rightarrow>
          if kid = [] then Inl WitnessKid
          else
            (case jget w (U ''pubkey'') of
               Some (JStr pubkey) \<Rightarrow>
                 if pubkey = [] then Inl (WitnessPubkey kid)
                 else if map_of pinned kid \<noteq> None then Inl (DuplicateKid kid)
                 else if pubkey \<in> snd ` set pinned then Inl DuplicatePubkey
                 else Inr (pinned @ [(kid, pubkey)])
             | _ \<Rightarrow> Inl (WitnessPubkey kid))
      | _ \<Rightarrow> Inl WitnessKid)"

definition checkTrustSet :: "json \<Rightarrow> acceptance_reason + (jstr \<times> jstr) list \<times> int" where
  "checkTrustSet trustSet =
     (if \<not> isObjectType trustSet then Inl TrustSetNotObject
      else case jget trustSet (U ''witnesses'') of
        Some (JArr ws) \<Rightarrow>
          (let k = int (length ws) in
           if k < 2 then Inl (TooFewWitnesses k)
           else case jget trustSet (U ''quorum'') of
             Some (JNum q) \<Rightarrow>
               if \<not> isSafeInteger q then Inl QuorumNotInteger
               else if q \<le> 1 then Inl (QuorumTooSmall q)
               else if q > k then Inl (QuorumTooLarge q k)
               else bindS (foldE pinStep [] ws) (\<lambda>pinned. Inr (pinned, q))
           | _ \<Rightarrow> Inl QuorumNotInteger)
      | _ \<Rightarrow> Inl WitnessesNotArray)"

text \<open>Section 2: an anchor that is malformed, unpinned or of another chain is dropped.\<close>

definition anchorShapeOk :: "json \<Rightarrow> bool" where
  "anchorShapeOk a \<longleftrightarrow> isObjectType a \<and>
     (case jget a (U ''chain'') of Some (JStr s) \<Rightarrow> True | _ \<Rightarrow> False) \<and>
     (case jget a (U ''highestSeq'') of Some (JNum n) \<Rightarrow> isSafeInteger n \<and> \<not> n < 0 | _ \<Rightarrow> False) \<and>
     (case jget a (U ''headHash'') of Some (JStr s) \<Rightarrow> isSha256Hash s | _ \<Rightarrow> False) \<and>
     (case jget a (U ''ts'') of Some (JStr s) \<Rightarrow> s \<noteq> [] | _ \<Rightarrow> False) \<and>
     (case jget a (U ''sig'') of Some sig \<Rightarrow> isObjectType sig | None \<Rightarrow> False) \<and>
     memberAt a (U ''sig'') (U ''alg'') = Some (JStr (U ''ed25519'')) \<and>
     (case memberAt a (U ''sig'') (U ''kid'') of Some (JStr s) \<Rightarrow> s \<noteq> [] | _ \<Rightarrow> False) \<and>
     (case memberAt a (U ''sig'') (U ''value'') of Some (JStr s) \<Rightarrow> s \<noteq> [] | _ \<Rightarrow> False)"

definition aSeq :: "json \<Rightarrow> int" where "aSeq a = numOf (jget a (U ''highestSeq''))"
definition aHash :: "json \<Rightarrow> jstr" where "aHash a = textOf (jget a (U ''headHash''))"
definition aTs :: "json \<Rightarrow> jstr" where "aTs a = textOf (jget a (U ''ts''))"
definition aChain :: "json \<Rightarrow> jstr" where "aChain a = textOf (jget a (U ''chain''))"
definition hChain :: "json \<Rightarrow> jstr" where "hChain h = textOf (jget h (U ''chain''))"
definition hSeq :: "json \<Rightarrow> int" where "hSeq h = numOf (jget h (U ''seq''))"
definition hHash :: "json \<Rightarrow> jstr" where "hHash h = textOf (jget h (U ''hash''))"

definition classifyAnchor :: "host \<Rightarrow> json \<Rightarrow> (int \<times> int) option \<Rightarrow> json \<Rightarrow> wclass option" where
  "classifyAnchor H head window a =
     (if aSeq a > hSeq head then Some Beyond
      else if aSeq a = hSeq head then
        (if aHash a = hHash head then
           (case window of
              None \<Rightarrow> Some Confirm
            | Some (windowMin, windowMax) \<Rightarrow>
                (case parseAnchorTsMs H (aTs a) of
                   Some tsMs \<Rightarrow> if tsMs \<ge> windowMin \<and> tsMs \<le> windowMax then Some Confirm else Some StaleConfirm
                 | None \<Rightarrow> Some StaleConfirm))
         else Some Divergent)
      else None)"

definition mergeClass :: "wclass option \<Rightarrow> wclass \<Rightarrow> wclass" where
  "mergeClass prior cls =
     (case prior of
        None \<Rightarrow> cls
      | Some p \<Rightarrow>
          if p = cls then p
          else if isContradiction p \<or> isContradiction cls then Divergent
          else if p = Confirm \<or> cls = Confirm then Confirm else StaleConfirm)"

definition anchorStep :: "host \<Rightarrow> json \<Rightarrow> (int \<times> int) option \<Rightarrow> (jstr \<times> jstr) list \<Rightarrow> (jstr \<times> wclass) list \<Rightarrow> json \<Rightarrow> jcs_error + (jstr \<times> wclass) list" where
  "anchorStep H head window pinned witnessClass a =
     (if \<not> anchorShapeOk a then Inr witnessClass
      else case map_of pinned (rKid a) of
        None \<Rightarrow> Inr witnessClass
      | Some pub \<Rightarrow>
          if aChain a \<noteq> hChain head then Inr witnessClass
          else
            bindS (anchorSigningInput H a) (\<lambda>message.
              if \<not> verifyEd25519 H pub message (rSigValue a) then Inr witnessClass
              else
                (case classifyAnchor H head window a of
                   None \<Rightarrow> Inr witnessClass
                 | Some cls \<Rightarrow> Inr (AList.update (rKid a) (mergeClass (map_of witnessClass (rKid a)) cls) witnessClass))))"

definition countClass :: "wclass \<Rightarrow> (jstr \<times> wclass) list \<Rightarrow> int" where
  "countClass c witnessClass = int (length (filter (\<lambda>p. snd p = c) witnessClass))"

text \<open>Sections 3 and 4: the tally and the rule in its stated precedence.\<close>

definition decideQuorum :: "(jstr \<times> wclass) list \<Rightarrow> int \<Rightarrow> int \<Rightarrow> bool \<Rightarrow> completeness_result" where
  "decideQuorum witnessClass k q enforced =
     (let confirm = countClass Confirm witnessClass; beyond = countClass Beyond witnessClass;
          divergent = countClass Divergent witnessClass; stale = countClass StaleConfirm witnessClass in
      if divergent > 0 then acceptanceResult False FORK (ForkReason divergent) confirm stale enforced
      else if beyond > 0 then acceptanceResult False TRUNCATED (TruncatedReason beyond) confirm stale enforced
      else if confirm \<ge> q then acceptanceResult True QUORUM_CONFIRMED (ConfirmedReason confirm k q) confirm stale enforced
      else if enforced \<and> confirm + stale \<ge> q then acceptanceResult False STALE (StaleReason confirm q stale) confirm stale enforced
      else acceptanceResult False NOT_ESTABLISHED (NotEstablishedReason confirm q) confirm stale enforced)"

definition verifyCompletenessParsed ::
  "host \<Rightarrow> json \<Rightarrow> json \<Rightarrow> json \<Rightarrow> freshness_policy option \<Rightarrow> jcs_error + completeness_result" where
  "verifyCompletenessParsed H head anchors trustSet fresh =
     (case checkHead head of
        Inl e \<Rightarrow> Inr (invalidInput e)
      | Inr _ \<Rightarrow>
          (case checkFreshness fresh of
             Inl e \<Rightarrow> Inr (invalidInput e)
           | Inr window \<Rightarrow>
               (case checkTrustSet trustSet of
                  Inl e \<Rightarrow> Inr (invalidInput e)
                | Inr (pinned, q) \<Rightarrow>
                    (case anchors of
                       JArr as \<Rightarrow>
                         bindS (foldE (anchorStep H head window pinned) [] as) (\<lambda>witnessClass.
                           Inr (decideQuorum witnessClass (int (length pinned)) q (fresh \<noteq> None)))
                     | _ \<Rightarrow> Inr (invalidInput AnchorsNotArray)))))"

definition FRESHNESS_OPTION_SCHEMA :: option_schema where
  "FRESHNESS_OPTION_SCHEMA = [(U ''now'', CountField (Some MAX_SAFE_INTEGER)), (U ''maxAgeMs'', CountField (Some MAX_SAFE_INTEGER)),
     (U ''skewMs'', CountField (Some MAX_SAFE_INTEGER))]"

definition COMPLETENESS_OPTION_SCHEMA :: option_schema where
  "COMPLETENESS_OPTION_SCHEMA = [(U ''freshness'', NestedField (Some FRESHNESS_OPTION_SCHEMA))]"

text \<open>The admitted freshness record, when it has both of its required members.\<close>

definition admittedFreshness :: "(jstr \<times> inert) list \<Rightarrow> acceptance_reason + freshness_policy option" where
  "admittedFreshness o' =
     (case map_of o' (U ''freshness'') of
        Some (IRecord f) \<Rightarrow>
          (case (optionNum f (U ''now''), optionNum f (U ''maxAgeMs'')) of
             (Some now, Some maxAgeMs) \<Rightarrow>
               Inr (Some \<lparr>fp_now = now, fp_maxAgeMs = maxAgeMs, fp_skewMs = optionNum f (U ''skewMs'')\<rparr>)
           | _ \<Rightarrow> Inl FreshnessNotObject)
      | _ \<Rightarrow> Inr None)"

definition verifyCompleteness :: "host \<Rightarrow> input \<Rightarrow> input \<Rightarrow> input \<Rightarrow> jsval \<Rightarrow> jcs_error + completeness_result" where
  "verifyCompleteness H headBytes anchorsBytes trustSetBytes opts =
     (case parseDocument headBytes of
        Inl e \<Rightarrow> Inr (invalidInput (DocumentInvalid (U ''head'') e))
      | Inr head \<Rightarrow>
          (case parseDocument anchorsBytes of
             Inl e \<Rightarrow> Inr (invalidInput (DocumentInvalid (U ''anchors'') e))
           | Inr anchors \<Rightarrow>
               (case parseDocument trustSetBytes of
                  Inl e \<Rightarrow> Inr (invalidInput (DocumentInvalid (U ''trustSet'') e))
                | Inr trustSet \<Rightarrow>
                    (case inertOptions COMPLETENESS_OPTION_SCHEMA opts of
                       Inl e \<Rightarrow> Inr (invalidInput (OptionsInvalid e))
                     | Inr admitted \<Rightarrow>
                         (case admittedFreshness admitted of
                            Inl e \<Rightarrow> Inr (invalidInput e)
                          | Inr fresh \<Rightarrow> verifyCompletenessParsed H head anchors trustSet fresh)))))"

section \<open>Building anchors\<close>

datatype anchor_field = FChain | FHighestSeq | FHeadHash | FTs | FSignerKid | FSignerKey | FAlg | FKid | FValue

datatype anchor_error =
    FrontierNotObject
  | FrontierInput "anchor_field list"
  | AnchorCanonical jcs_error
  | AnchorSigning sign_error
  | AnchorDraft "anchor_field list"
  | ReceiptsNotParseable
  | ChainDoesNotVerify verify_status
  | HeadNotFound int

definition surfaceErrors :: "json \<Rightarrow> anchor_field list" where
  "surfaceErrors a =
     (if (case jget a (U ''chain'') of Some (JStr s) \<Rightarrow> s = [] | _ \<Rightarrow> True) then [FChain] else []) @
     (if (case jget a (U ''highestSeq'') of Some (JNum n) \<Rightarrow> \<not> isSafeInteger n \<or> n < 0 | _ \<Rightarrow> True) then [FHighestSeq] else []) @
     (if (case jget a (U ''headHash'') of Some (JStr s) \<Rightarrow> \<not> isSha256Hash s | _ \<Rightarrow> True) then [FHeadHash] else []) @
     (if (case jget a (U ''ts'') of Some (JStr s) \<Rightarrow> \<not> isRfc3339Instant s | _ \<Rightarrow> True) then [FTs] else [])"

definition frontierInputErrors :: "json \<Rightarrow> local_signer \<Rightarrow> anchor_field list" where
  "frontierInputErrors frontier signer =
     surfaceErrors frontier @ (if ls_kid signer = [] then [FSignerKid] else []) @ (if ls_privateKey signer = [] then [FSignerKey] else [])"

definition anchorDraftErrors :: "json \<Rightarrow> anchor_field list" where
  "anchorDraftErrors a =
     surfaceErrors a @
     (if memberAt a (U ''sig'') (U ''alg'') \<noteq> Some (JStr (U ''ed25519'')) then [FAlg] else []) @
     (if (case memberAt a (U ''sig'') (U ''kid'') of Some (JStr s) \<Rightarrow> s = [] | _ \<Rightarrow> True) then [FKid] else []) @
     (if (case memberAt a (U ''sig'') (U ''value'') of Some (JStr s) \<Rightarrow> s = [] | _ \<Rightarrow> True) then [FValue] else [])"

definition anchorLiteral :: "json \<Rightarrow> jstr \<Rightarrow> jstr \<Rightarrow> json" where
  "anchorLiteral frontier kid value' = JObj
     [(U ''chain'', JStr (aChain frontier)), (U ''highestSeq'', JNum (aSeq frontier)), (U ''headHash'', JStr (aHash frontier)),
      (U ''ts'', JStr (aTs frontier)), (U ''sig'', JObj [(U ''alg'', JStr (U ''ed25519'')), (U ''kid'', JStr kid), (U ''value'', JStr value')])]"

definition buildAnchor :: "host \<Rightarrow> json \<Rightarrow> local_signer \<Rightarrow> anchor_error + json" where
  "buildAnchor H frontier signer =
     (if \<not> isObjectType frontier then Inl FrontierNotObject
      else if frontierInputErrors frontier signer \<noteq> [] then Inl (FrontierInput (frontierInputErrors frontier signer))
      else case anchorSigningInput H frontier of
        Inl e \<Rightarrow> Inl (AnchorCanonical e)
      | Inr message \<Rightarrow>
          (case signEd25519 H (ls_privateKey signer) message of
             Inl e \<Rightarrow> Inl (AnchorSigning e)
           | Inr value' \<Rightarrow>
               (let draft = assignAt (anchorLiteral frontier (ls_kid signer) []) (U ''sig'') (U ''value'') (JStr value');
                    errors = anchorDraftErrors draft in
                if errors \<noteq> [] then Inl (AnchorDraft errors) else Inr draft)))"

text \<open>
  \<open>jsonStringify\<close> of the producer's own data: members in own-name order. An unpaired surrogate, which the
  platform would escape, is left as it is; the parser refuses both spellings.
\<close>

fun ownOrder :: "json \<Rightarrow> json" where
  "ownOrder (JArr xs) = JArr (map ownOrder xs)"
| "ownOrder (JObj m) = JObj (map (\<lambda>(k, v). (k, ownOrder v)) (map (\<lambda>k. (k, the (map_of m k))) (ownNames m)))"
| "ownOrder v = v"

definition jsonStringify :: "json \<Rightarrow> jstr" where
  "jsonStringify v = printJson (ownOrder v)"

definition isHeadAt :: "int \<Rightarrow> json \<Rightarrow> bool" where
  "isHeadAt wantSeq cand \<longleftrightarrow> isObjectType cand \<and>
     (case jget cand (U ''chain'') of Some c \<Rightarrow> isObjectType c \<and> jget c (U ''seq'') = Some (JNum wantSeq) | None \<Rightarrow> False)"

definition frontierOf :: "json \<Rightarrow> jstr \<Rightarrow> json" where
  "frontierOf head ts = JObj [(U ''chain'', JStr (rChain head)), (U ''highestSeq'', JNum (rSeq head)), (U ''headHash'', JStr (rHash head)),
     (U ''ts'', JStr ts)]"

definition anchorForChainHead :: "host \<Rightarrow> json list \<Rightarrow> local_signer \<Rightarrow> jstr \<Rightarrow> anchor_error + json" where
  "anchorForChainHead H receipts signer ts =
     (let receiptsJson = jsonStringify (JArr receipts) in
      case safeParse receiptsJson of
        Inr (JArr snap) \<Rightarrow>
          (let res = verifyChain H (Text receiptsJson) Undefined in
           if vr_status res \<noteq> VALID \<and> vr_status res \<noteq> UNVERIFIED then Inl (ChainDoesNotVerify (vr_status res))
           else
             (case find (isHeadAt (vr_count res - 1)) snap of
                None \<Rightarrow> Inl (HeadNotFound (vr_count res - 1))
              | Some head \<Rightarrow> buildAnchor H (frontierOf head ts) signer))
      | _ \<Rightarrow> Inl ReceiptsNotParseable)"

section \<open>The witnessed chain\<close>

definition chainHead :: "jstr \<Rightarrow> int \<Rightarrow> jstr \<Rightarrow> json" where
  "chainHead chain seq hash = JObj [(U ''chain'', JStr chain), (U ''seq'', JNum seq), (U ''hash'', JStr hash)]"

definition INVALID_HEAD :: json where
  "INVALID_HEAD = chainHead [] (- 1) []"

text \<open>One pass of the search for the receipt of the highest number: the first of them wins.\<close>

definition headStep :: "(json \<times> int) option \<Rightarrow> json \<Rightarrow> (json \<times> int) option" where
  "headStep best r =
     (case jget r (U ''chain'') of
        None \<Rightarrow> best
      | Some c \<Rightarrow>
          (case jget c (U ''seq'') of
             Some (JNum seq) \<Rightarrow> (case best of None \<Rightarrow> Some (r, seq) | Some (b, maxSeq) \<Rightarrow> if seq > maxSeq then Some (r, seq) else best)
           | _ \<Rightarrow> best))"

definition deriveHead :: "json \<Rightarrow> json" where
  "deriveHead parsed =
     (case parsed of
        JArr rs \<Rightarrow>
          (case foldl headStep None rs of
             None \<Rightarrow> INVALID_HEAD
           | Some (head, _) \<Rightarrow>
               chainHead (textOf (memberAt head (U ''scope'') (U ''chain'')))
                 (case memberAt head (U ''chain'') (U ''seq'') of Some (JNum n) \<Rightarrow> n | _ \<Rightarrow> - 1)
                 (textOf (memberAt head (U ''chain'') (U ''hash''))))
      | _ \<Rightarrow> INVALID_HEAD)"

datatype witnessed_failure = AnchorsOrTrustSetMissing | WDocument jstr doc_reason | WOptions option_error | WFreshness

text \<open>The chain half is a refusal (the MALFORMED literal with its reason) or what \<open>verifyChain\<close> returned.\<close>

record witnessed_result =
  wr_chain :: "witnessed_failure + verify_result"
  wr_witness :: "jcs_error + completeness_result"

definition WITNESSED_OPTION_SCHEMA :: option_schema where
  "WITNESSED_OPTION_SCHEMA =
     [(U ''anchors'', DocumentField), (U ''trustSet'', DocumentField), (U ''checkpoint'', DocumentField),
      (U ''identityManifest'', DocumentField), (U ''maxReceipts'', CountField (Some DEFAULT_MAX_RECEIPTS)),
      (U ''requireTenantConsistency'', BooleanField), (U ''freshness'', NestedField (Some FRESHNESS_OPTION_SCHEMA))]"

text \<open>Both halves fail closed.\<close>

definition failClosed :: "host \<Rightarrow> witnessed_failure \<Rightarrow> witnessed_result" where
  "failClosed H reason =
     \<lparr>wr_chain = Inl reason,
      wr_witness = verifyCompletenessParsed H INVALID_HEAD (JArr []) (JObj [(U ''witnesses'', JArr []), (U ''quorum'', JNum 0)]) None\<rparr>"

definition setOption :: "jstr \<Rightarrow> jsval option \<Rightarrow> (prop_key \<times> descriptor) list" where
  "setOption k v = (case v of None \<Rightarrow> [] | Some w \<Rightarrow> [(StrKey k, Data w)])"

definition witnessedVerifyOptions :: "jsval option \<Rightarrow> (jstr \<times> inert) list \<Rightarrow> jsval" where
  "witnessedVerifyOptions keyring o' = ObjectVal ObjectPrototype
     (setOption (U ''keyring'') keyring @
      setOption (U ''checkpoint'') (map_option StringVal (optionText o' (U ''checkpoint''))) @
      setOption (U ''identityManifest'') (map_option StringVal (optionText o' (U ''identityManifest''))) @
      setOption (U ''maxReceipts'') (map_option SafeInt (optionNum o' (U ''maxReceipts''))) @
      setOption (U ''requireTenantConsistency'') (map_option Bool (optionBool o' (U ''requireTenantConsistency''))))"

definition presentedHead :: "input \<Rightarrow> int option \<Rightarrow> json" where
  "presentedHead chain maxReceipts =
     (case parseDocument chain of
        Inr (JArr rs) \<Rightarrow>
          if int (length rs) \<le> (case maxReceipts of None \<Rightarrow> DEFAULT_MAX_RECEIPTS | Some m \<Rightarrow> m) then deriveHead (JArr rs) else INVALID_HEAD
      | _ \<Rightarrow> INVALID_HEAD)"

definition verifyChainWitnessed :: "host \<Rightarrow> input \<Rightarrow> jsval option \<Rightarrow> jsval \<Rightarrow> witnessed_result" where
  "verifyChainWitnessed H chain keyring opts =
     (case inertOptions WITNESSED_OPTION_SCHEMA opts of
        Inl e \<Rightarrow> failClosed H (WOptions e)
      | Inr o' \<Rightarrow>
          (case (optionText o' (U ''anchors''), optionText o' (U ''trustSet'')) of
             (Some anchorsText, Some trustText) \<Rightarrow>
               (case parseDocument (Text anchorsText) of
                  Inl e \<Rightarrow> failClosed H (WDocument (U ''anchors'') e)
                | Inr anchors \<Rightarrow>
                    (case parseDocument (Text trustText) of
                       Inl e \<Rightarrow> failClosed H (WDocument (U ''trustSet'') e)
                     | Inr trustSet \<Rightarrow>
                         (case admittedFreshness o' of
                            Inl _ \<Rightarrow> failClosed H WFreshness
                          | Inr fresh \<Rightarrow>
                              \<lparr>wr_chain = Inr (verifyChain H chain (witnessedVerifyOptions keyring o')),
                               wr_witness = verifyCompletenessParsed H (presentedHead chain (optionNum o' (U ''maxReceipts''))) anchors trustSet fresh\<rparr>)))
           | _ \<Rightarrow> failClosed H AnchorsOrTrustSetMissing))"

section \<open>The rule computes its sets\<close>

text \<open>The vote of an anchor: its class, when it is well formed, pinned, of the chain and signed by the pinned key.\<close>

definition genuine :: "host \<Rightarrow> jstr \<Rightarrow> (jstr \<times> jstr) list \<Rightarrow> json \<Rightarrow> bool" where
  "genuine H chain pinned a \<longleftrightarrow> anchorShapeOk a \<and> aChain a = chain \<and>
     (\<exists>pub m. map_of pinned (rKid a) = Some pub \<and> anchorSigningInput H a = Inr m \<and> verifyEd25519 H pub m (rSigValue a))"

definition vote :: "host \<Rightarrow> json \<Rightarrow> (int \<times> int) option \<Rightarrow> (jstr \<times> jstr) list \<Rightarrow> json \<Rightarrow> wclass option" where
  "vote H head window pinned a = (if genuine H (hChain head) pinned a then classifyAnchor H head window a else None)"

definition votes :: "host \<Rightarrow> json \<Rightarrow> (int \<times> int) option \<Rightarrow> (jstr \<times> jstr) list \<Rightarrow> json list \<Rightarrow> jstr \<Rightarrow> wclass set" where
  "votes H head window pinned as kid = {c. \<exists>a\<in>set as. rKid a = kid \<and> vote H head window pinned a = Some c}"

text \<open>The class of a witness from the set of its votes, whatever their order.\<close>

definition summary :: "wclass set \<Rightarrow> wclass option" where
  "summary S = (if S = {} then None else if S = {Beyond} then Some Beyond
     else if Beyond \<in> S \<or> Divergent \<in> S then Some Divergent else if Confirm \<in> S then Some Confirm else Some StaleConfirm)"

lemma summary_insert: "summary (insert c S) = Some (mergeClass (summary S) c)"
proof -
  have "x \<in> {Confirm, Beyond, Divergent, StaleConfirm}" for x by (cases x) simp_all
  then have all: "S \<subseteq> {Confirm, Beyond, Divergent, StaleConfirm}" by blast
  consider "S = {}" | "S = {Beyond}" | "S \<noteq> {Beyond}" "Beyond \<in> S \<or> Divergent \<in> S"
    | "S \<noteq> {}" "Beyond \<notin> S" "Divergent \<notin> S" "Confirm \<in> S" | "S = {StaleConfirm}" using all by blast
  then show ?thesis
  proof cases
    case 3
    then have "S \<noteq> {}" "insert c S \<noteq> {Beyond}" by blast+
    then show ?thesis using 3 by (cases c) (auto simp: summary_def mergeClass_def)
  next
    case 4
    then have "S \<noteq> {Beyond}" "insert c S \<noteq> {Beyond}" by blast+
    then show ?thesis using 4 by (cases c) (auto simp: summary_def mergeClass_def)
  qed (cases c; auto simp: summary_def mergeClass_def)+
qed

lemma anchorStep_votes:
  assumes "anchorStep H head window pinned wc a = Inr wc'" "distinct (map fst wc)" "\<And>kid. map_of wc kid = summary (S kid)"
  shows "distinct (map fst wc') \<and>
     (\<forall>kid. map_of wc' kid = summary (S kid \<union> {c. rKid a = kid \<and> vote H head window pinned a = Some c}))"
proof (cases "vote H head window pinned a")
  case None
  then have "wc' = wc" using assms(1)
    by (auto simp: anchorStep_def vote_def genuine_def bindS_Inr split: if_splits option.splits)
  then show ?thesis using assms(2,3) None by simp
next
  case (Some c)
  then have "wc' = AList.update (rKid a) (mergeClass (map_of wc (rKid a)) c) wc" using assms(1)
    by (auto simp: anchorStep_def vote_def genuine_def bindS_Inr split: if_splits option.splits)
  then show ?thesis using assms(2) Some by (auto simp: update_conv' assms(3) summary_insert [symmetric] distinct_update)
qed

lemma anchors_votes:
  assumes "foldE (anchorStep H head window pinned) wc as = Inr wc'" "distinct (map fst wc)" "\<And>kid. map_of wc kid = summary (S kid)"
  shows "distinct (map fst wc') \<and> (\<forall>kid. map_of wc' kid = summary (S kid \<union> votes H head window pinned as kid))"
  using assms
proof (induction as arbitrary: wc S)
  case Nil
  then show ?case by (simp add: votes_def)
next
  case (Cons a as)
  obtain wc1 where w: "anchorStep H head window pinned wc a = Inr wc1" "foldE (anchorStep H head window pinned) wc1 as = Inr wc'"
    using Cons.prems(1) by (auto simp: bindS_Inr)
  let ?S = "\<lambda>kid. S kid \<union> {c. rKid a = kid \<and> vote H head window pinned a = Some c}"
  have s: "distinct (map fst wc1)" "\<And>kid. map_of wc1 kid = summary (?S kid)"
    using anchorStep_votes [OF w(1) Cons.prems(2,3)] by blast+
  have "?S kid \<union> votes H head window pinned as kid = S kid \<union> votes H head window pinned (a # as) kid" for kid
    by (auto simp: votes_def)
  then show ?case using Cons.IH [OF w(2) s] by simp
qed

lemma countClass_card:
  assumes "distinct (map fst wc)"
  shows "countClass c wc = int (card {kid. map_of wc kid = Some c})"
proof -
  have "{kid. map_of wc kid = Some c} = fst ` set (filter (\<lambda>p. snd p = c) wc)"
    using assms by (force simp: image_iff)
  moreover have "card (set (map fst (filter (\<lambda>p. snd p = c) wc))) = length (filter (\<lambda>p. snd p = c) wc)"
    using distinct_card [OF distinct_map_filter [OF assms, of "\<lambda>p. snd p = c"]] by simp
  ultimately show ?thesis by (simp add: countClass_def)
qed

text \<open>The rule over the votes: none contradicts the head, and at least \<open>q\<close> witnesses confirm it.\<close>

definition confirmed :: "host \<Rightarrow> json \<Rightarrow> (int \<times> int) option \<Rightarrow> (jstr \<times> jstr) list \<Rightarrow> int \<Rightarrow> json list \<Rightarrow> bool" where
  "confirmed H head window pinned q as \<longleftrightarrow>
     (\<forall>a\<in>set as. vote H head window pinned a \<noteq> Some Beyond \<and> vote H head window pinned a \<noteq> Some Divergent) \<and>
     q \<le> int (card (rKid ` {a \<in> set as. vote H head window pinned a = Some Confirm}))"

lemma decideQuorum_complete:
  assumes f: "foldE (anchorStep H head window pinned) [] as = Inr wc"
  shows "cr_complete (decideQuorum wc k q e) \<longleftrightarrow> confirmed H head window pinned q as"
proof -
  let ?V = "votes H head window pinned as"
  have w: "distinct (map fst wc)" "\<And>kid. map_of wc kid = summary (?V kid)"
    using anchors_votes [OF f, of "\<lambda>_. {}"] by (simp_all add: summary_def)
  have fin: "finite {kid. map_of wc kid = Some c}" for c by (rule finite_subset [OF _ finite_dom_map_of [of wc]]) auto
  have z: "countClass c wc > 0 \<longleftrightarrow> (\<exists>kid. summary (?V kid) = Some c)" for c
    using fin [of c] by (auto simp: countClass_card [OF w(1)] w(2) card_gt_0_iff)
  have no: "\<not> countClass Divergent wc > 0 \<and> \<not> countClass Beyond wc > 0 \<longleftrightarrow> (\<forall>kid. Beyond \<notin> ?V kid \<and> Divergent \<notin> ?V kid)"
    unfolding z by (auto simp: summary_def)
  have yes: "{kid. map_of wc kid = Some Confirm} = rKid ` {a \<in> set as. vote H head window pinned a = Some Confirm}"
    if "\<forall>kid. Beyond \<notin> ?V kid \<and> Divergent \<notin> ?V kid"
    using that unfolding w(2) by (auto simp: summary_def votes_def split: if_splits)
  have "cr_complete (decideQuorum wc k q e) \<longleftrightarrow>
      (\<forall>kid. Beyond \<notin> ?V kid \<and> Divergent \<notin> ?V kid) \<and> q \<le> countClass Confirm wc"
    unfolding no [symmetric] by (auto simp: decideQuorum_def acceptanceResult_def Let_def)
  also have "\<dots> \<longleftrightarrow> confirmed H head window pinned q as"
    unfolding confirmed_def countClass_card [OF w(1)] using yes by (auto simp: votes_def)
  finally show ?thesis .
qed

section \<open>Parsed documents never make the rule throw\<close>

lemma json_ok_textOf: "json_ok (\<lambda>_. True) a \<Longrightarrow> strIsWellFormed (textOf (jget a k))"
  using json_ok_jget [of "\<lambda>_. True" a k] strIsWellFormed_ascii [of "[]"] by (auto simp: textOf_def split: option.splits json.splits)

lemma json_ok_numOf: "json_ok (\<lambda>_. True) a \<Longrightarrow> isSafeInteger (numOf (jget a k))"
  using json_ok_jget [of "\<lambda>_. True" a k] by (auto simp: numOf_def isSafeInteger_def MAX_SAFE_INTEGER_def split: option.splits json.splits)

lemma anchorSigningInput_total:
  assumes "json_ok (\<lambda>_. True) a"
  shows "\<exists>m. anchorSigningInput H a = Inr m"
proof -
  have k: "\<not> isForbiddenKey (U s) \<and> strIsWellFormed (U s)" if "s \<in> {''chain'', ''highestSeq'', ''headHash'', ''ts''}" for s
    using that by (auto simp: U_def isHighSurrogate_def isLowSurrogate_def isForbiddenKey_def)
  have "json_ok (\<lambda>_. True) (anchorSurface a)"
    using json_ok_textOf [OF assms] json_ok_numOf [OF assms] k by (simp add: anchorSurface_def list_all_iff)
  moreover have "jdepth (anchorSurface a) \<le> 64" by (simp add: anchorSurface_def)
  ultimately show ?thesis using canonicalize_ok by (auto simp: anchorSigningInput_def)
qed

lemma anchorStep_total: "json_ok (\<lambda>_. True) a \<Longrightarrow> \<exists>wc'. anchorStep H head window pinned wc a = Inr wc'"
  using anchorSigningInput_total [of a H] by (auto simp: anchorStep_def split: option.splits)

lemma anchors_total: "list_all (json_ok (\<lambda>_. True)) as \<Longrightarrow> \<exists>wc'. foldE (anchorStep H head window pinned) wc as = Inr wc'"
proof (induction as arbitrary: wc)
  case (Cons a as)
  then obtain wc1 where "anchorStep H head window pinned wc a = Inr wc1" using anchorStep_total [of a] by fastforce
  with Cons show ?case by simp
qed simp

definition wellPosed :: "json \<Rightarrow> freshness_policy option \<Rightarrow> json \<Rightarrow> (int \<times> int) option \<Rightarrow> (jstr \<times> jstr) list \<Rightarrow> int \<Rightarrow> bool" where
  "wellPosed head fresh trustSet window pinned q \<longleftrightarrow>
     checkHead head = Inr () \<and> checkFreshness fresh = Inr window \<and> checkTrustSet trustSet = Inr (pinned, q)"

lemma completeness_parsed:
  assumes "json_ok (\<lambda>_. True) anchors"
  obtains res where "verifyCompletenessParsed H head anchors trustSet fresh = Inr res"
    "cr_complete res \<longleftrightarrow> (\<exists>window pinned q as. wellPosed head fresh trustSet window pinned q \<and> anchors = JArr as \<and> confirmed H head window pinned q as)"
proof (cases "\<exists>window pinned q as. wellPosed head fresh trustSet window pinned q \<and> anchors = JArr as")
  case True
  then obtain window pinned q as where w: "wellPosed head fresh trustSet window pinned q" and a: "anchors = JArr as" by blast
  obtain wc where f: "foldE (anchorStep H head window pinned) [] as = Inr wc" using anchors_total [of as H head window pinned "[]"] assms a by auto
  have "verifyCompletenessParsed H head anchors trustSet fresh = Inr (decideQuorum wc (int (length pinned)) q (fresh \<noteq> None))"
    using w a f by (simp add: verifyCompletenessParsed_def wellPosed_def)
  moreover have "wellPosed head fresh trustSet window' pinned' q' \<longleftrightarrow> window' = window \<and> pinned' = pinned \<and> q' = q" for window' pinned' q'
    using w by (auto simp: wellPosed_def)
  ultimately show thesis using that decideQuorum_complete [OF f] a by auto
next
  case False
  then have "\<exists>e. verifyCompletenessParsed H head anchors trustSet fresh = Inr (invalidInput e)"
    unfolding verifyCompletenessParsed_def wellPosed_def by (auto split: sum.splits json.splits)
  then show thesis using that False by (auto simp: invalidInput_def acceptanceResult_def)
qed







section \<open>The head that is judged\<close>

lemma wf_seq: "wf_receipt r \<Longrightarrow> \<exists>c. jget r (U ''chain'') = Some c \<and> isObjectType c \<and> jget c (U ''seq'') = Some (JNum (rSeq r))"
  by (auto simp: wf_receipt_def wf_chain_def rSeq_def memberAt_def numOf_def isSeq_iff closed_object_def isPlainObject_iff)

lemma headStep_wf: "wf_receipt r \<Longrightarrow> headStep best r =
    (case best of None \<Rightarrow> Some (r, rSeq r) | Some (b, s) \<Rightarrow> if rSeq r > s then Some (r, rSeq r) else best)"
  using wf_seq [of r] by (auto simp: headStep_def)

lemma headStep_max:
  "list_all wf_receipt rs \<Longrightarrow> \<exists>h\<in>set (b # rs). foldl headStep (Some (b, rSeq b)) rs = Some (h, rSeq h) \<and> (\<forall>r\<in>set (b # rs). rSeq r \<le> rSeq h)"
proof (induction rs arbitrary: b)
  case (Cons r rs)
  show ?case
  proof (cases "rSeq r > rSeq b")
    case True
    then obtain h where "h \<in> set (r # rs)" "foldl headStep (Some (r, rSeq r)) rs = Some (h, rSeq h)" "\<forall>x\<in>set (r # rs). rSeq x \<le> rSeq h"
      using Cons.IH [of r] Cons.prems by auto
    then show ?thesis using True Cons.prems by (intro bexI [of _ h]) (auto simp: headStep_wf)
  next
    case False
    then obtain h where "h \<in> set (b # rs)" "foldl headStep (Some (b, rSeq b)) rs = Some (h, rSeq h)" "\<forall>x\<in>set (b # rs). rSeq x \<le> rSeq h"
      using Cons.IH [of b] Cons.prems by auto
    then show ?thesis using False Cons.prems by (intro bexI [of _ h]) (auto simp: headStep_wf)
  qed
qed simp

lemma accepted_last:
  assumes "accepted H rs opts v man cp ordered"
  shows "last ordered \<in> set rs" "rSeq (last ordered) = int (length rs) - 1" "\<And>r. r \<in> set rs \<Longrightarrow> rSeq r = int (length rs) - 1 \<Longrightarrow> r = last ordered"
    "\<And>r. r \<in> set rs \<Longrightarrow> rSeq r \<le> int (length rs) - 1"
proof -
  have o: "mset ordered = mset rs" "map rSeq ordered = map int [0..<length rs]" and ne: "rs \<noteq> []"
    using assms by (simp_all add: accepted_def in_order_def)
  have s: "set ordered = set rs" using o(1) by (rule mset_eq_setD)
  have l: "length ordered = length rs" using o(1) by (rule mset_eq_length)
  have on: "ordered \<noteq> []" using ne l by auto
  have nth: "rSeq (ordered ! i) = int i" if "i < length rs" for i using arg_cong [OF o(2), of "\<lambda>l. l ! i"] that l by simp
  show "last ordered \<in> set rs" using last_in_set [OF on] s by simp
  have lst: "last ordered = ordered ! (length rs - 1)" using on l by (simp add: last_conv_nth)
  show "rSeq (last ordered) = int (length rs) - 1" using nth [of "length rs - 1"] ne lst by (cases rs) simp_all
  fix r assume "r \<in> set rs"
  then obtain i where i: "i < length rs" "r = ordered ! i" using s l by (metis in_set_conv_nth)
  show "rSeq r \<le> int (length rs) - 1" using nth [OF i(1)] i by simp
  assume "rSeq r = int (length rs) - 1"
  then have "int i = int (length rs) - 1" using nth [OF i(1)] i(2) by simp
  then have "i = length rs - 1" by simp
  then show "r = last ordered" using i lst by simp
qed

lemma deriveHead_accepted:
  assumes a: "accepted H rs opts v man cp ordered"
  shows "deriveHead (JArr rs) = chainHead (rChain (last ordered)) (rSeq (last ordered)) (rHash (last ordered))"
proof -
  have w: "list_all wf_receipt rs" and "rs \<noteq> []" using a by (simp_all add: accepted_def)
  then obtain b rs' where rs: "rs = b # rs'" by (cases rs) auto
  obtain h where h: "h \<in> set rs" "foldl headStep None rs = Some (h, rSeq h)" "\<forall>r\<in>set rs. rSeq r \<le> rSeq h"
    using headStep_max [of rs' b] w by (auto simp: rs headStep_wf)
  have "rSeq h = int (length rs) - 1" using h(1,3) accepted_last(1,2) [OF a] accepted_last(4) [OF a h(1)] by force
  then have "h = last ordered" by (rule accepted_last(3) [OF a h(1)])
  moreover have "memberAt h (U ''chain'') (U ''seq'') = Some (JNum (rSeq h))"
    using wf_seq [of h] h(1) w by (auto simp: list_all_iff memberAt_def)
  ultimately show ?thesis using h(2) by (simp add: deriveHead_def rChain_def rHash_def)
qed

section \<open>Built anchors\<close>

lemma anchor_assign: "assignAt (anchorLiteral f kid v) (U ''sig'') (U ''value'') (JStr v') = anchorLiteral f kid v'"
  by (simp add: anchorLiteral_def assignAt_def)

lemma anchorLiteral_reads:
  "aChain (anchorLiteral f kid v) = aChain f" "aSeq (anchorLiteral f kid v) = aSeq f" "aHash (anchorLiteral f kid v) = aHash f"
  "aTs (anchorLiteral f kid v) = aTs f" "anchorSigningInput H (anchorLiteral f kid v) = anchorSigningInput H f"
  by (simp_all add: anchorLiteral_def aChain_def aSeq_def aHash_def aTs_def textOf_def numOf_def anchorSigningInput_def anchorSurface_def)

lemma rfc3339_nonempty: "isRfc3339Instant s \<Longrightarrow> s \<noteq> []"
  by (auto simp: isRfc3339Instant_def isRfc3339_def)

lemma buildAnchor_shape:
  assumes "buildAnchor H f signer = Inr a"
  shows "anchorShapeOk a" "aChain a = aChain f" "aSeq a = aSeq f" "aHash a = aHash f" "rKid a = ls_kid signer"
    "anchorSigningInput H a = anchorSigningInput H f"
proof -
  obtain v where a: "a = anchorLiteral f (ls_kid signer) v" and e: "anchorDraftErrors a = []"
    using assms by (auto simp: buildAnchor_def Let_def anchor_assign split: if_splits sum.splits)
  show "aChain a = aChain f" "aSeq a = aSeq f" "aHash a = aHash f" "anchorSigningInput H a = anchorSigningInput H f"
    unfolding a anchorLiteral_reads by (rule refl)+
  show "rKid a = ls_kid signer" by (simp add: a anchorLiteral_def rKid_def memberAt_def textOf_def)
  show "anchorShapeOk a" using e rfc3339_nonempty [of "aTs f"] unfolding a anchorLiteral_def
    by (auto simp: anchorShapeOk_def anchorDraftErrors_def surfaceErrors_def memberAt_def split: if_splits)
qed

lemma default_options: "inertOptions VERIFY_OPTION_SCHEMA Undefined = Inr []"
  by code_simp

lemma anchorForChainHead_Inr:
  assumes "anchorForChainHead H receipts signer ts = Inr a"
  obtains rs v man cp ordered where "parseDocument (Text (jsonStringify (JArr receipts))) = Inr (JArr rs)"
    "accepted H rs (inertVerifyOptions []) v man cp ordered" "buildAnchor H (frontierOf (last ordered) ts) signer = Inr a"
proof -
  let ?t = "jsonStringify (JArr receipts)"
  obtain snap head where s: "safeParse ?t = Inr (JArr snap)"
    and st: "vr_status (verifyChain H (Text ?t) Undefined) = VALID \<or> vr_status (verifyChain H (Text ?t) Undefined) = UNVERIFIED"
    and f: "find (isHeadAt (vr_count (verifyChain H (Text ?t) Undefined) - 1)) snap = Some head"
    and b: "buildAnchor H (frontierOf head ts) signer = Inr a"
    using assms unfolding anchorForChainHead_def Let_def by (auto split: sum.splits json.splits if_splits option.splits)
  have prof: "vo_profile (inertVerifyOptions []) = None" by (simp add: inertVerifyOptions_def optionText_def)
  obtain doc where d: "parseDocument (Text ?t) = Inr doc"
    using st by (cases "parseDocument (Text ?t)") (auto simp: verifyChain_def default_options prof fail_def Let_def)
  then have vc: "verifyChain H (Text ?t) Undefined = verifyParsedChain H doc (inertVerifyOptions [])"
    by (simp add: verifyChain_def default_options prof)
  obtain x where x: "decodeDocument (Text ?t) = Inr x" "parseDecodedText x = Inr doc" using d by (auto simp: parseDocument_def bindS_Inr)
  have "x = ?t" using x(1) by (simp add: decodeDocument_def Let_def split: if_splits)
  then have "doc = JArr snap" using x(2) s by (simp add: parseDecodedText_Inr safeParse_def MAX_INPUT_BYTES_def)
  then have doc: "parseDocument (Text ?t) = Inr (JArr snap)" using d by simp
  have "passes (verifyParsedChain H (JArr snap) (inertVerifyOptions []))" using st unfolding vc \<open>doc = JArr snap\<close> passes_def by auto
  then obtain v man cp ordered where acc: "accepted H snap (inertVerifyOptions []) v man cp ordered"
    and dec: "decided H v cp ordered (verifyParsedChain H (JArr snap) (inertVerifyOptions []))" by (rule passes_accepted)
  have cnt: "vr_count (verifyChain H (Text ?t) Undefined) = int (length snap)"
    using dec acc unfolding vc \<open>doc = JArr snap\<close> by (auto simp: decided_def accepted_def in_order_def dest: mset_eq_length)
  have w: "list_all wf_receipt snap" using acc by (simp add: accepted_def)
  have h: "head \<in> set snap" "isHeadAt (int (length snap) - 1) head" using f unfolding cnt by (auto simp: find_Some_iff)
  then have "rSeq head = int (length snap) - 1" by (auto simp: isHeadAt_def rSeq_def memberAt_def numOf_def split: option.splits)
  then have "head = last ordered" by (rule accepted_last(3) [OF acc h(1)])
  with doc acc b that show thesis by blast
qed

section \<open>Properties\<close>

text \<open>The snapshot confirms the head: the documents and options are well posed and the rule holds of the votes.\<close>

definition snapshotConfirms :: "host \<Rightarrow> input \<Rightarrow> input \<Rightarrow> input \<Rightarrow> jsval \<Rightarrow> bool" where
  "snapshotConfirms H hb ab tb opts \<longleftrightarrow> (\<exists>head as trustSet admitted fresh window pinned q.
     parseDocument hb = Inr head \<and> parseDocument ab = Inr (JArr as) \<and> parseDocument tb = Inr trustSet \<and>
     inertOptions COMPLETENESS_OPTION_SCHEMA opts = Inr admitted \<and> admittedFreshness admitted = Inr fresh \<and>
     wellPosed head fresh trustSet window pinned q \<and> confirmed H head window pinned q as)"

lemma verifyCompleteness_confirms: "\<exists>res. verifyCompleteness H hb ab tb opts = Inr res \<and> cr_complete res = snapshotConfirms H hb ab tb opts"
proof (cases "\<exists>head anchors trustSet admitted fresh. parseDocument hb = Inr head \<and> parseDocument ab = Inr anchors \<and>
    parseDocument tb = Inr trustSet \<and> inertOptions COMPLETENESS_OPTION_SCHEMA opts = Inr admitted \<and> admittedFreshness admitted = Inr fresh")
  case True
  then obtain head anchors trustSet admitted fresh where p: "parseDocument hb = Inr head" "parseDocument ab = Inr anchors"
    "parseDocument tb = Inr trustSet" "inertOptions COMPLETENESS_OPTION_SCHEMA opts = Inr admitted" "admittedFreshness admitted = Inr fresh" by blast
  have e: "verifyCompleteness H hb ab tb opts = verifyCompletenessParsed H head anchors trustSet fresh" by (simp add: verifyCompleteness_def p)
  obtain res where "verifyCompletenessParsed H head anchors trustSet fresh = Inr res"
    "cr_complete res \<longleftrightarrow> (\<exists>window pinned q as. wellPosed head fresh trustSet window pinned q \<and> anchors = JArr as \<and> confirmed H head window pinned q as)"
    by (rule completeness_parsed [OF parseDocument_safe(1) [OF p(2)]])
  then show ?thesis unfolding e snapshotConfirms_def by (auto simp: p)
next
  case False
  then have "\<exists>e. verifyCompleteness H hb ab tb opts = Inr (invalidInput e)"
    unfolding verifyCompleteness_def by (auto split: sum.splits)
  moreover have "\<not> snapshotConfirms H hb ab tb opts" using False unfolding snapshotConfirms_def by blast
  ultimately show ?thesis by (auto simp: invalidInput_def acceptanceResult_def)
qed

text \<open>
  (C37) The acceptance rule never throws and is complete exactly as specified: the head, the options and the
  trust set are well formed, no genuine anchor of a pinned witness lies beyond the head or diverges at its
  height, and at least the quorum of distinct pinned witnesses has a genuine anchor of exactly this head inside
  the freshness window. Neither the order of the anchors nor their repetition matters.
\<close>

theorem acceptance_rule_exact:
  "\<exists>res. verifyCompleteness H hb ab tb opts = Inr res \<and> cr_complete res = snapshotConfirms H hb ab tb opts"
  by (rule verifyCompleteness_confirms)


text \<open>
  (C39) The producer and the witnessed verifier speak of the same head: an anchor built for a chain is
  well formed for the acceptance rule, and its frontier is the head the witnessed verifier derives from the same
  document, the last receipt of a chain the verifier accepts.
\<close>

theorem anchor_binds_derived_head:
  assumes "anchorForChainHead H receipts signer ts = Inr a"
  shows "anchorShapeOk a \<and> (\<exists>rs. parseDocument (Text (jsonStringify (JArr receipts))) = Inr (JArr rs) \<and>
     passes (verifyParsedChain H (JArr rs) (inertVerifyOptions [])) \<and> deriveHead (JArr rs) = chainHead (aChain a) (aSeq a) (aHash a))"
proof -
  obtain rs v man cp ordered where p: "parseDocument (Text (jsonStringify (JArr receipts))) = Inr (JArr rs)"
    and acc: "accepted H rs (inertVerifyOptions []) v man cp ordered" and b: "buildAnchor H (frontierOf (last ordered) ts) signer = Inr a"
    using assms by (rule anchorForChainHead_Inr)
  have "passes (verifyParsedChain H (JArr rs) (inertVerifyOptions []))" using accepted_verdict [OF acc] by (simp add: passes_def decided_def)
  moreover have "deriveHead (JArr rs) = chainHead (aChain a) (aSeq a) (aHash a)"
    unfolding deriveHead_accepted [OF acc] buildAnchor_shape(2-4) [OF b]
    by (simp add: frontierOf_def aChain_def aSeq_def aHash_def textOf_def numOf_def)
  ultimately show ?thesis using buildAnchor_shape(1) [OF b] p by blast
qed

theorem anchor_binds_derived_head_witness:
  "\<exists>a. anchorForChainHead signHost [exampleReceipt 0 JNull (U ''v'')] \<lparr>ls_kid = U ''w'', ls_privateKey = U ''k''\<rparr> (U ''2026-01-01T00:00:00Z'') = Inr a \<and>
     anchorShapeOk a"
proof -
  have "(case anchorForChainHead signHost [exampleReceipt 0 JNull (U ''v'')] \<lparr>ls_kid = U ''w'', ls_privateKey = U ''k''\<rparr> (U ''2026-01-01T00:00:00Z'')
      of Inr _ \<Rightarrow> True | Inl _ \<Rightarrow> False)" by code_simp
  then obtain a where a: "anchorForChainHead signHost [exampleReceipt 0 JNull (U ''v'')] \<lparr>ls_kid = U ''w'', ls_privateKey = U ''k''\<rparr>
      (U ''2026-01-01T00:00:00Z'') = Inr a" by (auto split: sum.splits)
  with anchor_binds_derived_head [OF a] show ?thesis by blast
qed

end
