(* ===== verification/Policy.thy ===== *)
theory Policy
  imports Verify_Correct
begin

text \<open>
  The policy language of src/src/policy: the closed grammar of validate.ts, the reference evaluator of eval.ts
  and the identity hashes of dsl.ts. The lemmas show that the evaluator permits only by an explicit rule, that
  it reads nothing outside the read-set a policy commits to, and that every accepted policy has its hashes.
\<close>

section \<open>The grammar\<close>

definition POLICY_SPEC :: jstr where
  "POLICY_SPEC = U ''noa.policy/0.2''"

datatype verdict = Allow | Deny

definition DEFAULT_VERDICT :: verdict where
  "DEFAULT_VERDICT = Deny"

datatype policy_error =
    UnknownKey jstr jstr
  | TooDeep jstr
  | ConditionNotObject jstr
  | OpNotString jstr
  | ClausesNotArray jstr
  | PathNotString jstr
  | ValuesNotArray jstr
  | ValueNotScalar jstr
  | MixedTypes jstr
  | UnknownOp jstr jstr
  | PolicyNotObject
  | PolicySpec
  | PolicyId
  | PolicyRequiredPaths
  | PolicyRules
  | RuleNotObject nat
  | RuleId nat
  | RuleDuplicateId nat jstr
  | RuleThen nat
  | NotCanonicalizable
  | PolicyDocument doc_reason

datatype scalar_type = TString | TBoolean | TNumber

fun isScalar :: "json \<Rightarrow> bool" where
  "isScalar (JStr s) = True"
| "isScalar (JBool b) = True"
| "isScalar (JNum n) = isSafeInteger n"
| "isScalar _ = False"

fun scalarType :: "json \<Rightarrow> scalar_type" where
  "scalarType (JStr s) = TString"
| "scalarType (JBool b) = TBoolean"
| "scalarType _ = TNumber"

definition isCmpOp :: "jstr \<Rightarrow> bool" where
  "isCmpOp op \<longleftrightarrow> op \<in> set [U ''eq'', U ''ne'', U ''lt'', U ''le'', U ''gt'', U ''ge'']"

definition noExtraKeys :: "json \<Rightarrow> jstr list \<Rightarrow> jstr \<Rightarrow> policy_error list" where
  "noExtraKeys obj allowed path = map (UnknownKey path) (filter (\<lambda>k. k \<notin> set allowed) (objectKeys obj))"

definition isNonEmptyString :: "json option \<Rightarrow> bool" where
  "isNonEmptyString v = (case v of Some (JStr s) \<Rightarrow> s \<noteq> [] | _ \<Rightarrow> False)"

text \<open>The loop over the values of an \<open>in\<close>: the type of the first scalar is the type of all.\<close>

fun inValues :: "jstr \<Rightarrow> scalar_type option \<Rightarrow> json list \<Rightarrow> policy_error list" where
  "inValues path firstType [] = []"
| "inValues path firstType (v # vs) =
     (if \<not> isScalar v then ValueNotScalar path # inValues path firstType vs
      else
        (let tt = scalarType v in
         case firstType of
           None \<Rightarrow> inValues path (Some tt) vs
         | Some t \<Rightarrow> (if tt \<noteq> t then [MixedTypes path] else []) @ inValues path firstType vs))"

definition sub :: "jstr \<Rightarrow> jstr \<Rightarrow> jstr" where
  "sub path name = path @ [46] @ name"

definition subIndex :: "jstr \<Rightarrow> nat \<Rightarrow> jstr" where
  "subIndex path i = path @ [91] @ natStr i @ [93]"

text \<open>An absent member is \<open>undefined\<close>, which the checks below treat like every other value that is no object.\<close>

definition present :: "json option \<Rightarrow> json" where
  "present v = (case v of None \<Rightarrow> JNull | Some w \<Rightarrow> w)"

lemma jget_smaller: "jget c k = Some v \<Longrightarrow> size v < size c"
  by (cases c) (auto dest!: map_of_SomeD intro: size_obj_member')

lemma size_present [termination_simp]: "isObjectType c \<Longrightarrow> size (present (jget c k)) < size c"
proof (cases "jget c k")
  case None
  then show "isObjectType c \<Longrightarrow> ?thesis" by (cases c) (simp_all add: present_def)
qed (simp add: present_def jget_smaller)

lemma size_clause [termination_simp]:
  "jget c k = Some (JArr cl) \<Longrightarrow> (i, x) \<in> set (enumerate n cl) \<Longrightarrow> size x < size c"
  using jget_smaller [of c k "JArr cl"] size_elem [of i x n cl] by simp

definition clausesOk :: "json option \<Rightarrow> bool" where
  "clausesOk v = (case v of Some (JArr cl) \<Rightarrow> cl \<noteq> [] | _ \<Rightarrow> False)"

definition elements :: "json option \<Rightarrow> json list" where
  "elements v = (case v of Some (JArr xs) \<Rightarrow> xs | _ \<Rightarrow> [])"

lemma size_elements [termination_simp]: "(i, x) \<in> set (enumerate n (elements (jget c k))) \<Longrightarrow> size x < size c"
  by (cases "jget c k") (auto simp: elements_def size_clause split: json.splits)

lemma size_elements' [termination_simp]: "x \<in> set (elements (jget c k)) \<Longrightarrow> size x < size c"
  using jget_smaller [of c k] by (cases "jget c k") (fastforce simp: elements_def dest: size_arr_elem split: json.splits)+

fun validateCondition :: "json \<Rightarrow> jstr \<Rightarrow> nat \<Rightarrow> policy_error list" where
  "validateCondition c path depth =
     (if depth > JCS_MAX_DEPTH then [TooDeep path]
      else if \<not> isObjectType c then [ConditionNotObject path]
      else case jget c (U ''op'') of
        Some (JStr op) \<Rightarrow>
          if op = U ''and'' \<or> op = U ''or'' then
            noExtraKeys c [U ''op'', U ''clauses''] (sub path op) @
            (if \<not> clausesOk (jget c (U ''clauses'')) then [ClausesNotArray (sub path op)]
             else concat (map (\<lambda>(i, x). validateCondition x (subIndex (sub path op) i) (depth + 1))
               (enumerate 0 (elements (jget c (U ''clauses''))))))
          else if op = U ''not'' then
            noExtraKeys c [U ''op'', U ''clause''] (sub path op) @
            validateCondition (present (jget c (U ''clause''))) (sub path op) (depth + 1)
          else if op = U ''exists'' \<or> op = U ''absent'' then
            noExtraKeys c [U ''op'', U ''path''] (sub path op) @
            (if isNonEmptyString (jget c (U ''path'')) then [] else [PathNotString (sub path op)])
          else if op = U ''in'' then
            noExtraKeys c [U ''op'', U ''path'', U ''values''] (sub path op) @
            (if isNonEmptyString (jget c (U ''path'')) then [] else [PathNotString (sub path op)]) @
            (if \<not> clausesOk (jget c (U ''values'')) then [ValuesNotArray (sub path op)]
             else inValues (sub path op) None (elements (jget c (U ''values''))))
          else if isCmpOp op then
            noExtraKeys c [U ''op'', U ''path'', U ''value''] (sub path op) @
            (if isNonEmptyString (jget c (U ''path'')) then [] else [PathNotString (sub path op)]) @
            (if isScalar (present (jget c (U ''value''))) then [] else [ValueNotScalar (sub path op)])
          else [UnknownOp path op]
      | _ \<Rightarrow> [OpNotString path])"

declare validateCondition.simps [simp del]

text \<open>One pass of the loop over the rules, with the identifiers seen so far.\<close>

definition validateRule :: "nat \<Rightarrow> json \<Rightarrow> jstr list \<Rightarrow> policy_error list \<times> jstr list" where
  "validateRule i r seenIds =
     (if \<not> isObjectType r then ([RuleNotObject i], seenIds)
      else
        (let path = subIndex (U ''policy.rules'') i;
             (idErrors, seen) =
               (case jget r (U ''id'') of
                  Some (JStr s) \<Rightarrow>
                    if s = [] then ([RuleId i], seenIds)
                    else if s \<in> set seenIds then ([RuleDuplicateId i s], seenIds) else ([], s # seenIds)
                | _ \<Rightarrow> ([RuleId i], seenIds)) in
         (noExtraKeys r [U ''id'', U ''when'', U ''then''] path @ idErrors @
          (if jget r (U ''then'') = Some (JStr (U ''ALLOW'')) \<or> jget r (U ''then'') = Some (JStr (U ''DENY'')) then [] else [RuleThen i]) @
          validateCondition (present (jget r (U ''when''))) (sub path (U ''when'')) 0, seen)))"

fun validateRules :: "nat \<Rightarrow> json list \<Rightarrow> jstr list \<Rightarrow> policy_error list" where
  "validateRules i [] seenIds = []"
| "validateRules i (r # rs) seenIds =
     (let (errors, seen) = validateRule i r seenIds in errors @ validateRules (i + 1) rs seen)"

definition validatePolicyParsed :: "json \<Rightarrow> policy_error list" where
  "validatePolicyParsed p =
     (if \<not> isObjectType p then [PolicyNotObject]
      else
        (let errors =
           noExtraKeys p [U ''spec'', U ''id'', U ''requiredPaths'', U ''rules''] (U ''policy'') @
           (if jget p (U ''spec'') \<noteq> Some (JStr POLICY_SPEC) then [PolicySpec] else []) @
           (if isNonEmptyString (jget p (U ''id'')) then [] else [PolicyId]) @
           (case jget p (U ''requiredPaths'') of
              Some (JArr xs) \<Rightarrow> if list_all (\<lambda>x. isNonEmptyString (Some x)) xs then [] else [PolicyRequiredPaths]
            | _ \<Rightarrow> [PolicyRequiredPaths]) @
           (case jget p (U ''rules'') of Some (JArr rs) \<Rightarrow> validateRules 0 rs [] | _ \<Rightarrow> [PolicyRules]) in
         if errors = [] then (case canonicalize p of Inl _ \<Rightarrow> [NotCanonicalizable] | Inr _ \<Rightarrow> [])
         else errors))"

definition validatePolicy :: "input \<Rightarrow> policy_error list" where
  "validatePolicy policy = (case parseDocument policy of Inl e \<Rightarrow> [PolicyDocument e] | Inr p \<Rightarrow> validatePolicyParsed p)"

definition assertValidPolicy :: "input \<Rightarrow> policy_error list + json" where
  "assertValidPolicy policy =
     (case parseDocument policy of
        Inl e \<Rightarrow> Inl [PolicyDocument e]
      | Inr p \<Rightarrow> (let v = validatePolicyParsed p in if v \<noteq> [] then Inl v else Inr p))"

section \<open>The evaluator\<close>

text \<open>Every exception inside the evaluator ends in the same answer, so they are one value.\<close>

datatype policy_throw = PolicyThrow

definition assertScalar :: "json \<Rightarrow> policy_throw + unit" where
  "assertScalar v = (if isScalar v then Inr () else Inl PolicyThrow)"

definition ownGet :: "json \<Rightarrow> jstr \<Rightarrow> json option" where
  "ownGet inputs path = jget inputs path"

fun cmp :: "json \<Rightarrow> json \<Rightarrow> policy_throw + int" where
  "cmp (JNum a) (JNum b) = Inr (if a < b then - 1 else if a > b then 1 else 0)"
| "cmp (JBool a) (JBool b) = Inr ((if a then 1 else 0) - (if b then 1 else 0))"
| "cmp (JStr s) (JStr t) = Inr (if s < t then - 1 else if s > t then 1 else 0)"
| "cmp _ _ = Inl PolicyThrow"

text \<open>\<open>every\<close> and \<open>some\<close> stop at the first element that decides; a throw of the predicate passes through.\<close>

fun everyE :: "('x \<Rightarrow> policy_throw + bool) \<Rightarrow> 'x list \<Rightarrow> policy_throw + bool" where
  "everyE f [] = Inr True"
| "everyE f (x # xs) = bindS (f x) (\<lambda>b. if b then everyE f xs else Inr False)"

fun someE :: "('x \<Rightarrow> policy_throw + bool) \<Rightarrow> 'x list \<Rightarrow> policy_throw + bool" where
  "someE f [] = Inr False"
| "someE f (x # xs) = bindS (f x) (\<lambda>b. if b then Inr True else someE f xs)"

lemma everyE_cong [fundef_cong]: "xs = ys \<Longrightarrow> (\<And>x. x \<in> set ys \<Longrightarrow> f x = g x) \<Longrightarrow> everyE f xs = everyE g ys"
  by (induction ys arbitrary: xs) (simp_all cong: if_cong)

lemma someE_cong [fundef_cong]: "xs = ys \<Longrightarrow> (\<And>x. x \<in> set ys \<Longrightarrow> f x = g x) \<Longrightarrow> someE f xs = someE g ys"
  by (induction ys arbitrary: xs) (simp_all cong: if_cong)

definition opHolds :: "jstr \<Rightarrow> int \<Rightarrow> bool" where
  "opHolds op k =
     (if op = U ''eq'' then k = 0 else if op = U ''ne'' then k \<noteq> 0 else if op = U ''lt'' then k < 0
      else if op = U ''le'' then k \<le> 0 else if op = U ''gt'' then k > 0 else op = U ''ge'' \<and> k \<ge> 0)"

text \<open>Only conditions of the grammar reach \<open>match\<close>, so \<open>path\<close> is a string and \<open>clauses\<close> an array.\<close>

fun matchC :: "json \<Rightarrow> json \<Rightarrow> policy_throw + bool" where
  "matchC c inputs =
     (if \<not> isObjectType c then Inl PolicyThrow
      else
        (let op = textOf (jget c (U ''op'')); v = ownGet inputs (textOf (jget c (U ''path''))) in
         if op = U ''and'' then everyE (\<lambda>x. matchC x inputs) (elements (jget c (U ''clauses'')))
         else if op = U ''or'' then someE (\<lambda>x. matchC x inputs) (elements (jget c (U ''clauses'')))
         else if op = U ''not'' then bindS (matchC (present (jget c (U ''clause''))) inputs) (\<lambda>b. Inr (\<not> b))
         else if op = U ''exists'' then Inr (v \<noteq> None)
         else if op = U ''absent'' then Inr (v = None)
         else if op = U ''in'' then
           (case v of
              None \<Rightarrow> Inr False
            | Some w \<Rightarrow> someE (\<lambda>x. bindS (assertScalar x) (\<lambda>_. bindS (cmp w x) (\<lambda>k. Inr (k = 0)))) (elements (jget c (U ''values''))))
         else
           (case v of
              None \<Rightarrow> Inr False
            | Some w \<Rightarrow>
                bindS (assertScalar (present (jget c (U ''value'')))) (\<lambda>_.
                bindS (cmp w (present (jget c (U ''value'')))) (\<lambda>k. Inr (opHolds op k))))))"

declare matchC.simps [simp del]

record eval_result =
  ev_verdict :: verdict
  ev_ruleFired :: "jstr option"
  ev_engine :: jstr

definition REF_EVAL_VERSION :: jstr where
  "REF_EVAL_VERSION = U ''noa-refeval/0.2''"

definition evalResult :: "verdict \<Rightarrow> jstr option \<Rightarrow> eval_result" where
  "evalResult v fired = \<lparr>ev_verdict = v, ev_ruleFired = fired, ev_engine = REF_EVAL_VERSION\<rparr>"

definition thenOf :: "json \<Rightarrow> verdict" where
  "thenOf r = (if jget r (U ''then'') = Some (JStr (U ''ALLOW'')) then Allow else Deny)"

fun fireRule :: "json list \<Rightarrow> json \<Rightarrow> policy_throw + eval_result" where
  "fireRule [] inputs = Inr (evalResult DEFAULT_VERDICT None)"
| "fireRule (r # rs) inputs =
     bindS (matchC (present (jget r (U ''when''))) inputs) (\<lambda>b.
       if b then Inr (evalResult (thenOf r) (Some (textOf (jget r (U ''id''))))) else fireRule rs inputs)"

definition evaluateParsed :: "json \<Rightarrow> json \<Rightarrow> eval_result" where
  "evaluateParsed policy inputs =
     (if validatePolicyParsed policy \<noteq> [] then evalResult Deny (Some (U ''policy-invalid''))
      else if \<not> isPlainObject inputs then evalResult Deny (Some (U ''input-invalid''))
      else
        (case find (\<lambda>p. jget inputs p = None) (map (\<lambda>x. textOf (Some x)) (elements (jget policy (U ''requiredPaths'')))) of
           Some p \<Rightarrow> evalResult Deny (Some (U ''required-input-absent:'' @ p))
         | None \<Rightarrow>
             (case bindS (mapE (\<lambda>k. assertScalar (present (jget inputs k))) (objectKeys inputs)) (\<lambda>_.
                fireRule (elements (jget policy (U ''rules''))) inputs) of
                Inl _ \<Rightarrow> evalResult Deny (Some (U ''eval-error''))
              | Inr r \<Rightarrow> r)))"

definition evaluate :: "input \<Rightarrow> input \<Rightarrow> eval_result" where
  "evaluate policy inputs =
     (case parseDocument policy of
        Inl _ \<Rightarrow> evalResult Deny (Some (U ''policy-invalid''))
      | Inr p \<Rightarrow>
          (case parseDocument inputs of
             Inl _ \<Rightarrow> evalResult Deny (Some (U ''eval-error''))
           | Inr i \<Rightarrow> evaluateParsed p i))"

section \<open>Identity hashes\<close>

definition canonicalThrow :: "json \<Rightarrow> policy_throw + jstr" where
  "canonicalThrow v = (case canonicalize v of Inl _ \<Rightarrow> Inl PolicyThrow | Inr s \<Rightarrow> Inr s)"

definition policyHash :: "sha \<Rightarrow> json \<Rightarrow> policy_throw + jstr" where
  "policyHash sha p = bindS (canonicalThrow p) (\<lambda>s. Inr (sha256Prefixed sha s))"

text \<open>A set of JavaScript values in insertion order: strings and other primitives once, objects by identity.\<close>

definition setInsert :: "json \<Rightarrow> json list \<Rightarrow> json list" where
  "setInsert x s = (if \<not> isObjectType x \<and> x \<in> set s then s else s @ [x])"

definition hasMember :: "json \<Rightarrow> jstr \<Rightarrow> bool" where
  "hasMember c k = (jget c k \<noteq> None)"

text \<open>
  What the index loop \<open>i < c.clauses.length\<close> visits. On an array it is the elements; a string other than the
  empty one, \<open>null\<close> and a missing index are a \<open>TypeError\<close>; a number or a boolean has no length. An object is
  counted to its own \<open>length\<close> member, whose objects and arrays have no prototype and do not convert to a
  number. A \<open>length\<close> that is a string converts by the numeric literal grammar of the platform, which is
  not modelled: the loop refuses there.
\<close>

fun likeLength :: "json option \<Rightarrow> policy_throw + int" where
  "likeLength None = Inr 0"
| "likeLength (Some JNull) = Inr 0"
| "likeLength (Some (JBool b)) = Inr (if b then 1 else 0)"
| "likeLength (Some (JNum n)) = Inr n"
| "likeLength (Some _) = Inl PolicyThrow"

definition likeItems :: "(jstr \<times> json) list \<Rightarrow> policy_throw + json list" where
  "likeItems m =
     bindS (likeLength (jget (JObj m) (U ''length''))) (\<lambda>n.
       if n > int (length m) then Inl PolicyThrow
       else mapE (\<lambda>i. case jget (JObj m) (numToString (int i)) of None \<Rightarrow> Inl PolicyThrow | Some x \<Rightarrow> Inr x) [0..<nat n])"

definition clauseItems :: "json option \<Rightarrow> policy_throw + json list" where
  "clauseItems v =
     (case v of
        Some (JArr xs) \<Rightarrow> Inr xs
      | Some (JObj m) \<Rightarrow> likeItems m
      | Some (JStr s) \<Rightarrow> if s = [] then Inr [] else Inl PolicyThrow
      | Some JNull \<Rightarrow> Inl PolicyThrow
      | _ \<Rightarrow> Inr [])"

lemma likeItems_smaller:
  assumes "likeItems m = Inr xs" "x \<in> set xs"
  shows "size x < size (JObj m)"
proof -
  obtain i where "jget (JObj m) (numToString (int i)) = Some x"
    using assms unfolding likeItems_def bindS_Inr mapE_Inr list_all2_conv_all_nth in_set_conv_nth
    by (force simp: mapE_Inr list_all2_conv_all_nth in_set_conv_nth simp del: jget.simps split: if_splits option.splits)
  then show ?thesis by (rule jget_smaller)
qed

lemma size_clauseItems [termination_simp]:
  assumes "clauseItems (jget c k) = Inr xs" "x \<in> set xs"
  shows "size x < size c"
proof -
  obtain v where v: "jget c k = Some v" "size x < size v"
    using assms likeItems_smaller [of _ xs x]
    by (auto simp: clauseItems_def split: option.splits json.splits if_splits dest: size_arr_elem)
  with jget_smaller [of c k v] show ?thesis by simp
qed

fun readWalk :: "json \<Rightarrow> json list \<Rightarrow> policy_throw + json list" where
  "readWalk c s =
     (if \<not> isObjectType c then Inl PolicyThrow
      else if hasMember c (U ''clauses'') then
        bindS (clauseItems (jget c (U ''clauses''))) (\<lambda>items. foldE (\<lambda>s x. readWalk x s) s items)
      else if hasMember c (U ''clause'') then readWalk (present (jget c (U ''clause''))) s
      else case jget c (U ''path'') of Some (JStr p) \<Rightarrow> Inr (setInsert (JStr p) s) | _ \<Rightarrow> Inr s)"

declare readWalk.simps [simp del]

fun jsString :: "json \<Rightarrow> policy_throw + jstr" where
  "jsString JNull = Inr (U ''null'')"
| "jsString (JBool b) = Inr (if b then U ''true'' else U ''false'')"
| "jsString (JNum n) = Inr (numToString n)"
| "jsString (JStr s) = Inr s"
| "jsString _ = Inl PolicyThrow"

definition stringKey :: "json \<Rightarrow> jstr" where
  "stringKey v = (case jsString v of Inr s \<Rightarrow> s | Inl _ \<Rightarrow> [])"

text \<open>\<open>arraySort\<close> without a comparator compares the strings of the elements, and of none when there is only one.\<close>

definition sortJs :: "json list \<Rightarrow> policy_throw + json list" where
  "sortJs xs = (if length xs \<le> 1 then Inr xs else bindS (mapE jsString xs) (\<lambda>_. Inr (sort_key stringKey xs)))"

definition ruleWalk :: "json list \<Rightarrow> json \<Rightarrow> policy_throw + json list" where
  "ruleWalk s r = (if isObjectType r \<and> hasMember r (U ''when'') then readWalk (present (jget r (U ''when''))) s else Inr s)"

definition readSetInert :: "json \<Rightarrow> policy_throw + json list" where
  "readSetInert p =
     (if p = JNull then Inl PolicyThrow
      else bindS (foldE ruleWalk (foldl (\<lambda>s x. setInsert x s) [] (elements (jget p (U ''requiredPaths''))))
             (elements (jget p (U ''rules'')))) sortJs)"

definition readSetHash :: "sha \<Rightarrow> json \<Rightarrow> policy_throw + jstr" where
  "readSetHash sha p = bindS (readSetInert p) (\<lambda>s. bindS (canonicalThrow (JArr s)) (\<lambda>t. Inr (sha256Prefixed sha t)))"

section \<open>A permit needs a rule\<close>

definition whenOf :: "json \<Rightarrow> json" where
  "whenOf r = present (jget r (U ''when''))"

definition rulesOf :: "json \<Rightarrow> json list" where
  "rulesOf p = elements (jget p (U ''rules''))"

definition requiredOf :: "json \<Rightarrow> jstr list" where
  "requiredOf p = map (\<lambda>x. textOf (Some x)) (elements (jget p (U ''requiredPaths'')))"

text \<open>An input snapshot: an object whose members are scalars.\<close>

definition snapshot :: "json \<Rightarrow> bool" where
  "snapshot i \<longleftrightarrow> isPlainObject i \<and> (\<forall>k v. jget i k = Some v \<longrightarrow> isScalar v)"

text \<open>The list has an element with \<open>Q\<close>, and those before it have \<open>P\<close>.\<close>

definition firstOf :: "('x \<Rightarrow> bool) \<Rightarrow> ('x \<Rightarrow> bool) \<Rightarrow> 'x list \<Rightarrow> bool" where
  "firstOf P Q xs \<longleftrightarrow> (\<exists>pre x post. xs = pre @ x # post \<and> list_all P pre \<and> Q x)"

lemma firstOf_Nil: "\<not> firstOf P Q []"
  by (simp add: firstOf_def)

lemma firstOf_Cons: "firstOf P Q (x # xs) \<longleftrightarrow> Q x \<or> P x \<and> firstOf P Q xs"
proof
  assume "firstOf P Q (x # xs)"
  then obtain pre y post where "x # xs = pre @ y # post" "list_all P pre" "Q y" by (auto simp: firstOf_def)
  then show "Q x \<or> P x \<and> firstOf P Q xs" by (cases pre) (auto simp: firstOf_def)
next
  assume "Q x \<or> P x \<and> firstOf P Q xs"
  then show "firstOf P Q (x # xs)"
  proof
    assume "Q x"
    then show ?thesis unfolding firstOf_def by (intro exI [of _ "[]"] exI [of _ x] exI [of _ xs]) simp
  next
    assume "P x \<and> firstOf P Q xs"
    then obtain pre y post where "P x" "xs = pre @ y # post" "list_all P pre" "Q y" by (auto simp: firstOf_def)
    then show ?thesis unfolding firstOf_def by (intro exI [of _ "x # pre"] exI [of _ y] exI [of _ post]) simp
  qed
qed

definition permits :: "json \<Rightarrow> json \<Rightarrow> bool" where
  "permits p i \<longleftrightarrow> validatePolicyParsed p = [] \<and> snapshot i \<and> (\<forall>q\<in>set (requiredOf p). jget i q \<noteq> None) \<and>
     firstOf (\<lambda>q. matchC (whenOf q) i = Inr False)
       (\<lambda>r. matchC (whenOf r) i = Inr True \<and> jget r (U ''then'') = Some (JStr (U ''ALLOW''))) (rulesOf p)"

lemma fireRule_allow:
  "(\<exists>e. fireRule rs i = Inr e \<and> ev_verdict e = Allow) \<longleftrightarrow>
     firstOf (\<lambda>q. matchC (whenOf q) i = Inr False)
       (\<lambda>r. matchC (whenOf r) i = Inr True \<and> jget r (U ''then'') = Some (JStr (U ''ALLOW''))) rs"
proof (induction rs)
  case Nil
  show ?case by (simp add: evalResult_def DEFAULT_VERDICT_def firstOf_Nil)
next
  case (Cons r rs)
  have f: "fireRule (r # rs) i = bindS (matchC (whenOf r) i) (\<lambda>b.
       if b then Inr (evalResult (thenOf r) (Some (textOf (jget r (U ''id''))))) else fireRule rs i)"
    by (simp add: whenOf_def)
  show ?case
  proof (cases "matchC (whenOf r) i")
    case (Inr b)
    show ?thesis unfolding f Inr firstOf_Cons Cons.IH [symmetric] by (cases b) (simp_all add: evalResult_def thenOf_def)
  qed (simp add: firstOf_Cons, simp add: whenOf_def)
qed

lemma snapshot_scan:
  assumes "isPlainObject i"
  shows "(\<exists>u. mapE (\<lambda>k. assertScalar (present (jget i k))) (objectKeys i) = Inr u) \<longleftrightarrow> snapshot i"
proof -
  obtain m where m: "i = JObj m" using assms by (auto simp: isPlainObject_iff)
  have "(\<exists>u. mapE (\<lambda>k. assertScalar (present (jget i k))) ks = Inr u) \<longleftrightarrow> (\<forall>k\<in>set ks. isScalar (present (jget i k)))" for ks
    by (induction ks) (auto simp: bindS_Inr assertScalar_def)
  moreover have d: "k \<in> set (objectKeys i) \<longleftrightarrow> jget i k \<noteq> None" for k
    using map_of_eq_None_iff [of m k] by (simp add: m)
  moreover have "(\<forall>k\<in>set (objectKeys i). isScalar (present (jget i k))) \<longleftrightarrow> (\<forall>k v. jget i k = Some v \<longrightarrow> isScalar v)"
    unfolding Ball_def d present_def by (intro iff_allI) (simp split: option.split)
  ultimately show ?thesis using assms unfolding snapshot_def by simp
qed

lemma evaluateParsed_snapshot:
  assumes "validatePolicyParsed p = []" "snapshot i"
  shows "evaluateParsed p i =
     (case find (\<lambda>q. jget i q = None) (requiredOf p) of
        Some q \<Rightarrow> evalResult Deny (Some (U ''required-input-absent:'' @ q))
      | None \<Rightarrow> (case fireRule (rulesOf p) i of Inl _ \<Rightarrow> evalResult Deny (Some (U ''eval-error'')) | Inr r \<Rightarrow> r))"
proof -
  have i: "isPlainObject i" using assms(2) by (simp add: snapshot_def)
  obtain u where "mapE (\<lambda>k. assertScalar (present (jget i k))) (objectKeys i) = Inr u" using snapshot_scan [OF i] assms(2) by blast
  then show ?thesis using assms(1) i by (simp add: evaluateParsed_def requiredOf_def rulesOf_def split: option.split)
qed

lemma evaluateParsed_not_snapshot:
  assumes "validatePolicyParsed p \<noteq> [] \<or> \<not> snapshot i"
  shows "ev_verdict (evaluateParsed p i) = Deny"
proof (cases "validatePolicyParsed p \<noteq> [] \<or> \<not> isPlainObject i")
  case False
  then have "\<nexists>u. mapE (\<lambda>k. assertScalar (present (jget i k))) (objectKeys i) = Inr u" using snapshot_scan [of i] assms by blast
  then obtain e where "mapE (\<lambda>k. assertScalar (present (jget i k))) (objectKeys i) = Inl e" by (metis sum.exhaust)
  then show ?thesis using False by (simp add: evaluateParsed_def evalResult_def split: option.splits)
qed (auto simp: evaluateParsed_def evalResult_def)

lemma evaluate_permits: "ev_verdict (evaluateParsed p i) = Allow \<longleftrightarrow> permits p i"
proof (cases "validatePolicyParsed p = [] \<and> snapshot i")
  case True
  have f: "find (\<lambda>q. jget i q = None) (requiredOf p) = None \<longleftrightarrow> (\<forall>q\<in>set (requiredOf p). jget i q \<noteq> None)"
    by (auto simp: find_None_iff)
  have "ev_verdict (evaluateParsed p i) = Allow \<longleftrightarrow> find (\<lambda>q. jget i q = None) (requiredOf p) = None \<and>
      (\<exists>e. fireRule (rulesOf p) i = Inr e \<and> ev_verdict e = Allow)"
    using True by (auto simp: evaluateParsed_snapshot evalResult_def split: option.splits sum.splits)
  then show ?thesis unfolding f fireRule_allow permits_def using True by blast
next
  case False
  then have "ev_verdict (evaluateParsed p i) = Deny" by (intro evaluateParsed_not_snapshot) blast
  then show ?thesis using False unfolding permits_def by auto
qed

section \<open>The read-set\<close>

definition opOf :: "json \<Rightarrow> jstr" where
  "opOf c = textOf (jget c (U ''op''))"

text \<open>The input paths a condition mentions.\<close>

fun paths :: "json \<Rightarrow> jstr list" where
  "paths c =
     (if \<not> isObjectType c then []
      else if opOf c = U ''and'' \<or> opOf c = U ''or'' then concat (map paths (elements (jget c (U ''clauses''))))
      else if opOf c = U ''not'' then paths (present (jget c (U ''clause'')))
      else [textOf (jget c (U ''path''))])"

declare paths.simps [simp del]

lemma match_paths: "(\<forall>q\<in>set (paths c). jget i q = jget i' q) \<Longrightarrow> matchC c i = matchC c i'"
proof (induction c rule: paths.induct)
  case (1 c)
  show ?case
  proof (cases "isObjectType c")
    case True
    consider (junction) "opOf c = U ''and'' \<or> opOf c = U ''or''" | (negation) "opOf c = U ''not''"
      | (leaf) "opOf c \<notin> {U ''and'', U ''or'', U ''not''}" by auto
    then show ?thesis
    proof cases
      case junction
      have "matchC x i = matchC x i'" if "x \<in> set (elements (jget c (U ''clauses'')))" for x
        using 1 True junction that unfolding paths.simps [of c] by auto
      then have "everyE (\<lambda>x. matchC x i) (elements (jget c (U ''clauses''))) = everyE (\<lambda>x. matchC x i') (elements (jget c (U ''clauses'')))"
        "someE (\<lambda>x. matchC x i) (elements (jget c (U ''clauses''))) = someE (\<lambda>x. matchC x i') (elements (jget c (U ''clauses'')))"
        by (auto intro: everyE_cong someE_cong)
      then show ?thesis using True junction unfolding matchC.simps [of c] Let_def opOf_def by auto
    next
      case negation
      have "matchC (present (jget c (U ''clause''))) i = matchC (present (jget c (U ''clause''))) i'"
        using 1 True negation unfolding paths.simps [of c] by simp
      then show ?thesis using True negation unfolding matchC.simps [of c] Let_def opOf_def by simp
    next
      case leaf
      have "ownGet i (textOf (jget c (U ''path''))) = ownGet i' (textOf (jget c (U ''path'')))"
        using 1(3) True leaf unfolding paths.simps [of c] ownGet_def by simp
      then show ?thesis using True leaf unfolding matchC.simps [of c] Let_def opOf_def by simp
    qed
  qed (simp add: matchC.simps)
qed

lemma noExtraKeys_Nil: "isObjectType c \<Longrightarrow> noExtraKeys c ks p = [] \<Longrightarrow> k \<notin> set ks \<Longrightarrow> jget c k = None"
  using map_of_eq_None_iff [of _ k] by (cases c) (auto simp: noExtraKeys_def filter_empty_conv image_iff)

text \<open>What the grammar gives for an accepted condition, by its operator.\<close>

lemma valid_condition:
  assumes "validateCondition c p d = []"
  shows "isObjectType c"
    "opOf c = U ''and'' \<or> opOf c = U ''or'' \<Longrightarrow> \<exists>cl. jget c (U ''clauses'') = Some (JArr cl) \<and>
       (\<forall>x\<in>set cl. \<exists>p'. validateCondition x p' (d + 1) = [])"
    "opOf c = U ''not'' \<Longrightarrow> jget c (U ''clauses'') = None \<and> jget c (U ''clause'') \<noteq> None \<and>
       (\<exists>p'. validateCondition (present (jget c (U ''clause''))) p' (d + 1) = [])"
    "opOf c \<notin> {U ''and'', U ''or'', U ''not''} \<Longrightarrow> jget c (U ''clauses'') = None \<and> jget c (U ''clause'') = None \<and>
       (\<exists>q. jget c (U ''path'') = Some (JStr q) \<and> q \<noteq> [])"
proof -
  show o: "isObjectType c" using assms unfolding validateCondition.simps [of c] by (auto split: if_splits)
  obtain op where op: "jget c (U ''op'') = Some (JStr op)" and depth: "\<not> d > JCS_MAX_DEPTH"
    using assms o unfolding validateCondition.simps [of c] by (auto split: if_splits option.splits json.splits)
  have opOf: "opOf c = op" by (simp add: opOf_def op textOf_def)
  note v = assms [unfolded validateCondition.simps [of c]]
  show "\<exists>cl. jget c (U ''clauses'') = Some (JArr cl) \<and> (\<forall>x\<in>set cl. \<exists>p'. validateCondition x p' (d + 1) = [])"
    if "opOf c = U ''and'' \<or> opOf c = U ''or''"
  proof -
    have k: "clausesOk (jget c (U ''clauses''))"
      and all: "concat (map (\<lambda>(i, x). validateCondition x (subIndex (sub p op) i) (d + 1)) (enumerate 0 (elements (jget c (U ''clauses''))))) = []"
      using v o op depth that opOf by (auto split: if_splits)
    obtain cl where cl: "jget c (U ''clauses'') = Some (JArr cl)" using k by (auto simp: clausesOk_def split: option.splits json.splits)
    have "\<exists>p'. validateCondition x p' (d + 1) = []" if x: "x \<in> set cl" for x
    proof -
      obtain i where "i < length cl" "x = cl ! i" using x by (auto simp: in_set_conv_nth)
      then have "(i, x) \<in> set (enumerate 0 cl)" by (simp add: in_set_enumerate_eq)
      then show ?thesis using all by (auto simp: cl elements_def)
    qed
    then show ?thesis using cl by blast
  qed
  show "jget c (U ''clauses'') = None \<and> jget c (U ''clause'') \<noteq> None \<and>
       (\<exists>p'. validateCondition (present (jget c (U ''clause''))) p' (d + 1) = [])" if "opOf c = U ''not''"
  proof -
    have n: "noExtraKeys c [U ''op'', U ''clause''] (sub p op) = []" "validateCondition (present (jget c (U ''clause''))) (sub p op) (d + 1) = []"
      using v o op depth that opOf by (auto split: if_splits)
    have "jget c (U ''clause'') \<noteq> None"
    proof
      assume "jget c (U ''clause'') = None"
      then show False using n(2) by (simp add: present_def validateCondition.simps [of JNull] split: if_splits)
    qed
    then show ?thesis using n noExtraKeys_Nil [OF o n(1), of "U ''clauses''"] by auto
  qed
  show "jget c (U ''clauses'') = None \<and> jget c (U ''clause'') = None \<and> (\<exists>q. jget c (U ''path'') = Some (JStr q) \<and> q \<noteq> [])"
    if "opOf c \<notin> {U ''and'', U ''or'', U ''not''}"
  proof -
    have ne: "op \<noteq> U ''and''" "op \<noteq> U ''or''" "op \<noteq> U ''not''" using that unfolding opOf by simp_all
    define ks where "ks = (if op = U ''exists'' \<or> op = U ''absent'' then [U ''op'', U ''path'']
      else if op = U ''in'' then [U ''op'', U ''path'', U ''values''] else [U ''op'', U ''path'', U ''value''])"
    have n: "noExtraKeys c ks (sub p op) = []" and q: "isNonEmptyString (jget c (U ''path''))"
      using v o op depth ne by (auto simp: ks_def split: if_splits)
    have "U ''clauses'' \<notin> set ks" "U ''clause'' \<notin> set ks" by (simp_all add: ks_def)
    then show ?thesis using q noExtraKeys_Nil [OF o n] by (auto simp: isNonEmptyString_def split: option.splits json.splits)
  qed
qed

lemma set_setInsert [simp]: "set (setInsert x s) = insert x (set s)"
  by (auto simp: setInsert_def)

text \<open>The walk collects exactly the paths of an accepted condition.\<close>

lemma readWalk_paths:
  "validateCondition c p d = [] \<Longrightarrow> \<exists>s'. readWalk c s = Inr s' \<and> set s' = set s \<union> JStr ` set (paths c)"
proof (induction c arbitrary: p d s rule: paths.induct)
  case (1 c)
  note v = valid_condition [OF "1.prems"]
  consider (junction) "opOf c = U ''and'' \<or> opOf c = U ''or''" | (negation) "opOf c = U ''not''"
    | (leaf) "opOf c \<notin> {U ''and'', U ''or'', U ''not''}" by auto
  then show ?case
  proof cases
    case junction
    obtain cl where cl: "jget c (U ''clauses'') = Some (JArr cl)" and vs: "\<forall>x\<in>set cl. \<exists>p'. validateCondition x p' (d + 1) = []"
      using v(2) [OF junction] by blast
    have step: "\<exists>s'. readWalk x s = Inr s' \<and> set s' = set s \<union> JStr ` set (paths x)" if "x \<in> set cl" for x s
      using vs that "1.IH"(1) [of x] v(1) junction by (auto simp: cl elements_def)
    have "\<exists>s'. foldE (\<lambda>s x. readWalk x s) s xs = Inr s' \<and> set s' = set s \<union> JStr ` set (concat (map paths xs))"
      if "set xs \<subseteq> set cl" for xs s
      using that
    proof (induction xs arbitrary: s)
      case (Cons x xs)
      obtain s1 where s1: "readWalk x s = Inr s1" "set s1 = set s \<union> JStr ` set (paths x)" using step [of x s] Cons.prems by auto
      obtain s2 where "foldE (\<lambda>s x. readWalk x s) s1 xs = Inr s2" "set s2 = set s1 \<union> JStr ` set (concat (map paths xs))"
        using Cons.IH [of s1] Cons.prems by auto
      then show ?case using s1 by (auto simp: image_Un)
    qed simp
    from this [of cl s] show ?thesis using v(1) junction
      by (simp add: readWalk.simps [of c] paths.simps [of c] hasMember_def cl elements_def clauseItems_def)
  next
    case negation
    obtain p' where p': "validateCondition (present (jget c (U ''clause''))) p' (d + 1) = []" using v(3) [OF negation] by blast
    have "readWalk c s = readWalk (present (jget c (U ''clause''))) s"
      using v(1) v(3) [OF negation] by (simp add: readWalk.simps [of c] hasMember_def)
    moreover have "paths c = paths (present (jget c (U ''clause'')))" using v(1) negation by (simp add: paths.simps [of c])
    ultimately show ?thesis using "1.IH"(2) [OF _ _ _ p', of s] v(1) negation by simp
  next
    case leaf
    then show ?thesis using v(1) v(4) [OF leaf] by (auto simp: readWalk.simps [of c] paths.simps [of c] hasMember_def textOf_def)
  qed
qed

definition valid_rule :: "json \<Rightarrow> bool" where
  "valid_rule r \<longleftrightarrow> isObjectType r \<and> (\<exists>path. validateCondition (whenOf r) path 0 = [])"

lemma validateRules_Nil: "validateRules i rs seen = [] \<Longrightarrow> list_all valid_rule rs"
proof (induction rs arbitrary: i seen)
  case (Cons r rs)
  obtain es seen' where e: "validateRule i r seen = (es, seen')" by fastforce
  then have "es = []" "validateRules (i + 1) rs seen' = []" using Cons.prems by simp_all
  moreover have "valid_rule r" using e \<open>es = []\<close>
    by (auto simp: validateRule_def valid_rule_def whenOf_def Let_def split: if_splits prod.splits)
  ultimately show ?case using Cons.IH by simp
qed simp

lemma valid_policy:
  assumes "validatePolicyParsed p = []"
  shows "list_all valid_rule (rulesOf p)" "\<exists>s. canonicalize p = Inr s" "isObjectType p"
    "elements (jget p (U ''requiredPaths'')) = map JStr (requiredOf p)"
proof -
  show o: "isObjectType p" using assms by (auto simp: validatePolicyParsed_def split: if_splits)
  show "\<exists>s. canonicalize p = Inr s" using assms o by (auto simp: validatePolicyParsed_def Let_def split: if_splits sum.splits)
  have "(case jget p (U ''rules'') of Some (JArr rs) \<Rightarrow> validateRules 0 rs [] | _ \<Rightarrow> [PolicyRules]) = []"
    and q: "(case jget p (U ''requiredPaths'') of
              Some (JArr xs) \<Rightarrow> if list_all (\<lambda>x. isNonEmptyString (Some x)) xs then [] else [PolicyRequiredPaths]
            | _ \<Rightarrow> [PolicyRequiredPaths]) = []"
    using assms o unfolding validatePolicyParsed_def Let_def by (simp_all split: if_splits)
  then show "list_all valid_rule (rulesOf p)"
    by (auto simp: rulesOf_def elements_def dest: validateRules_Nil split: option.splits json.splits)
  obtain xs where xs: "jget p (U ''requiredPaths'') = Some (JArr xs)" "list_all (\<lambda>x. isNonEmptyString (Some x)) xs"
    using q by (auto split: option.splits json.splits if_splits)
  then have "map (\<lambda>x. JStr (textOf (Some x))) xs = map (\<lambda>x. x) xs"
    by (intro map_cong refl) (auto simp: list_all_iff isNonEmptyString_def textOf_def split: json.splits dest!: bspec)
  then show "elements (jget p (U ''requiredPaths'')) = map JStr (requiredOf p)"
    by (simp add: requiredOf_def xs(1) elements_def comp_def)
qed

definition policyPaths :: "json \<Rightarrow> jstr set" where
  "policyPaths p = set (requiredOf p) \<union> (\<Union>r\<in>set (rulesOf p). set (paths (whenOf r)))"

lemma ruleWalk_rule:
  assumes "valid_rule r"
  shows "\<exists>s'. ruleWalk s r = Inr s' \<and> set s' = set s \<union> JStr ` set (paths (whenOf r))"
proof -
  obtain path where v: "validateCondition (whenOf r) path 0 = []" using assms by (auto simp: valid_rule_def)
  have "jget r (U ''when'') \<noteq> None"
  proof
    assume "jget r (U ''when'') = None"
    then show False using v by (simp add: whenOf_def present_def validateCondition.simps [of JNull] split: if_splits)
  qed
  then show ?thesis using readWalk_paths [OF v, of s] assms by (simp add: ruleWalk_def hasMember_def valid_rule_def whenOf_def)
qed

lemma ruleWalk_rules:
  "list_all valid_rule rs \<Longrightarrow> \<exists>s'. foldE ruleWalk s rs = Inr s' \<and> set s' = set s \<union> JStr ` (\<Union>r\<in>set rs. set (paths (whenOf r)))"
proof (induction rs arbitrary: s)
  case (Cons r rs)
  obtain s1 where s1: "ruleWalk s r = Inr s1" "set s1 = set s \<union> JStr ` set (paths (whenOf r))" using ruleWalk_rule [of r s] Cons.prems by auto
  obtain s2 where "foldE ruleWalk s1 rs = Inr s2" "set s2 = set s1 \<union> JStr ` (\<Union>r\<in>set rs. set (paths (whenOf r)))"
    using Cons.IH [of s1] Cons.prems by auto
  then show ?case using s1 by (auto simp: image_Un)
qed simp

lemma sortJs_strings: "set xs \<subseteq> range JStr \<Longrightarrow> \<exists>ys. sortJs xs = Inr ys \<and> set ys = set xs"
proof -
  assume s: "set xs \<subseteq> range JStr"
  have "\<exists>ts. mapE jsString xs = Inr ts" using s by (induction xs) auto
  then show ?thesis by (auto simp: sortJs_def)
qed

lemma readSet_policy:
  assumes "validatePolicyParsed p = []"
  shows "\<exists>s. readSetInert p = Inr s \<and> set s = JStr ` policyPaths p"
proof -
  note v = valid_policy [OF assms]
  let ?s0 = "foldl (\<lambda>s x. setInsert x s) [] (elements (jget p (U ''requiredPaths'')))"
  have "set (foldl (\<lambda>s x. setInsert x s) s xs) = set s \<union> set xs" for s xs by (induction xs arbitrary: s) auto
  then have s0: "set ?s0 = JStr ` set (requiredOf p)" by (simp add: v(4))
  obtain s1 where s1: "foldE ruleWalk ?s0 (rulesOf p) = Inr s1" "set s1 = JStr ` policyPaths p"
    using ruleWalk_rules [OF v(1), of ?s0] by (auto simp: s0 policyPaths_def image_Un)
  obtain ys where "sortJs s1 = Inr ys" "set ys = set s1" using sortJs_strings [of s1] s1(2) by blast
  then show ?thesis using s1 v(3) by (cases p) (simp_all add: readSetInert_def rulesOf_def)
qed

lemma fireRule_cong:
  "(\<forall>r\<in>set rs. matchC (whenOf r) i = matchC (whenOf r) i') \<Longrightarrow> fireRule rs i = fireRule rs i'"
  by (induction rs) (simp_all add: whenOf_def cong: if_cong)

lemma evaluate_reads:
  assumes v: "validatePolicyParsed p = []" and s: "snapshot i" "snapshot i'" and a: "\<forall>q\<in>policyPaths p. jget i q = jget i' q"
  shows "evaluateParsed p i = evaluateParsed p i'"
proof -
  have "find (\<lambda>q. jget i q = None) (requiredOf p) = find (\<lambda>q. jget i' q = None) (requiredOf p)"
    using a by (intro find_cong refl) (simp add: policyPaths_def)
  moreover have "fireRule (rulesOf p) i = fireRule (rulesOf p) i'"
    using a by (intro fireRule_cong ballI match_paths) (auto simp: policyPaths_def)
  ultimately show ?thesis by (simp only: evaluateParsed_snapshot [OF v s(1)] evaluateParsed_snapshot [OF v s(2)])
qed

section \<open>Accepted policies have their hashes\<close>

text \<open>A document inside one that canonicalizes.\<close>

definition serializable :: "json \<Rightarrow> bool" where
  "serializable v \<longleftrightarrow> (\<exists>d s. serialize v d = Inr s)"

lemma mapE_all: "mapE f xs = Inr ys \<Longrightarrow> x \<in> set xs \<Longrightarrow> \<exists>y. f x = Inr y"
  by (induction xs arbitrary: ys) (auto simp: bindS_Inr)

lemma serializable_jget:
  assumes "serializable v" "jget v k = Some w"
  shows "serializable w"
proof -
  obtain m where v: "v = JObj m" using assms(2) by (cases v) auto
  obtain d ss where "mapE (\<lambda>(k, v). bindS (serializeString k) (\<lambda>ks. bindS (serialize v (d + 1)) (\<lambda>vs. Inr (ks @ [58] @ vs)))) (sortedMembers m) = Inr ss"
    using assms(1) unfolding v serializable_def by (auto simp: bindS_Inr split: if_splits)
  moreover have "k \<in> fst ` set m" using assms(2) map_of_eq_None_iff [of m k] by (auto simp: v)
  then have "(k, w) \<in> set (sortedMembers m)" using assms(2) by (auto simp: sortedMembers_def v image_iff)
  ultimately obtain y where "bindS (serializeString k) (\<lambda>ks. bindS (serialize w (d + 1)) (\<lambda>vs. Inr (ks @ [58] @ vs))) = Inr y"
    using mapE_all by fastforce
  then show ?thesis by (auto simp: bindS_Inr serializable_def)
qed

lemma serializable_element: "serializable (JArr xs) \<Longrightarrow> x \<in> set xs \<Longrightarrow> serializable x"
  unfolding serializable_def by (fastforce simp: bindS_Inr split: if_splits dest: mapE_all)

lemma serializable_elements: "serializable v \<Longrightarrow> x \<in> set (elements (jget v k)) \<Longrightarrow> serializable x"
proof -
  assume v: "serializable v" and x: "x \<in> set (elements (jget v k))"
  obtain xs where "jget v k = Some (JArr xs)" "x \<in> set xs"
    using x by (cases "jget v k") (auto simp: elements_def split: json.splits)
  then show ?thesis using serializable_jget [OF v] serializable_element by blast
qed

lemma serializable_present: "serializable v \<Longrightarrow> serializable (present (jget v k))"
  using serializable_jget [of v k] by (cases "jget v k") (auto simp: present_def serializable_def intro: exI [of _ 0])

lemma serializable_text: "serializable v \<Longrightarrow> strIsWellFormed (textOf (jget v k))"
proof -
  assume v: "serializable v"
  have n: "strIsWellFormed []" by (simp add: strIsWellFormed_ascii)
  have "strIsWellFormed t" if "jget v k = Some (JStr t)" for t
    using serializable_jget [OF v that] by (auto simp: serializable_def serializeString_def split: if_splits)
  then show ?thesis using n by (auto simp: textOf_def split: option.splits json.splits)
qed

lemma serializable_paths: "serializable c \<Longrightarrow> q \<in> set (paths c) \<Longrightarrow> strIsWellFormed q"
proof (induction c rule: paths.induct)
  case (1 c)
  show ?case using "1.prems" "1.IH" serializable_elements [OF "1.prems"(1)] serializable_present [OF "1.prems"(1)]
      serializable_text [OF "1.prems"(1)]
    by (auto simp: paths.simps [of c] split: if_splits)
qed

lemma policyPaths_wf:
  assumes "serializable p" "q \<in> policyPaths p"
  shows "strIsWellFormed q"
proof -
  have "strIsWellFormed (textOf (Some x))" if "serializable x" for x
    using serializable_text [of "JObj [([], x)]" "[]"] that
    by (cases x) (auto simp: textOf_def serializable_def serializeString_def strIsWellFormed_ascii split: if_splits)
  moreover have "strIsWellFormed q" if "r \<in> set (elements (jget p (U ''rules'')))" "q \<in> set (paths (present (jget r (U ''when''))))" for r
    using serializable_paths [OF serializable_present [OF serializable_elements [OF assms(1) that(1)]] that(2)] .
  ultimately show ?thesis using assms serializable_elements [OF assms(1)]
    by (auto simp: policyPaths_def requiredOf_def rulesOf_def whenOf_def)
qed

lemma canonical_strings: "list_all strIsWellFormed ts \<Longrightarrow> \<exists>s. canonicalThrow (JArr (map JStr ts)) = Inr s"
proof -
  assume "list_all strIsWellFormed ts"
  then have "\<exists>ss. mapE (\<lambda>x. serialize x 1) (map JStr ts) = Inr ss"
    by (induction ts) (auto simp: serializeString_def JCS_MAX_DEPTH_def)
  then show ?thesis by (auto simp: canonicalThrow_def canonicalize_def JCS_MAX_DEPTH_def)
qed

lemma accepted_policy_hashes:
  assumes "validatePolicyParsed p = []"
  shows "\<exists>h. policyHash sha p = Inr h" "\<exists>h. readSetHash sha p = Inr h"
proof -
  obtain s where c: "canonicalize p = Inr s" using valid_policy(2) [OF assms] ..
  then show "\<exists>h. policyHash sha p = Inr h" by (simp add: policyHash_def canonicalThrow_def)
  have ser: "serializable p" using c by (auto simp: serializable_def canonicalize_def)
  obtain rs where rs: "readSetInert p = Inr rs" "set rs = JStr ` policyPaths p" using readSet_policy [OF assms] by blast
  define ts where "ts = map (\<lambda>x. textOf (Some x)) rs"
  have "map JStr ts = rs" unfolding ts_def map_map using rs(2) by (intro map_idI) (auto simp: textOf_def)
  moreover have "list_all strIsWellFormed ts" using rs(2) policyPaths_wf [OF ser] by (auto simp: ts_def list_all_iff textOf_def)
  ultimately show "\<exists>h. readSetHash sha p = Inr h" using canonical_strings [of ts] rs(1) by (auto simp: readSetHash_def)
qed

section \<open>Properties\<close>

definition examplePolicy :: json where
  "examplePolicy = JObj [(U ''spec'', JStr POLICY_SPEC), (U ''id'', JStr (U ''p'')), (U ''requiredPaths'', JArr [JStr (U ''amount'')]),
     (U ''rules'', JArr [JObj [(U ''id'', JStr (U ''small'')), (U ''when'', JObj [(U ''op'', JStr (U ''not'')),
        (U ''clause'', JObj [(U ''op'', JStr (U ''gt'')), (U ''path'', JStr (U ''amount'')), (U ''value'', JNum 10)])]),
        (U ''then'', JStr (U ''ALLOW''))]])]"

text \<open>
  (C31) The evaluator denies by default: it permits exactly when the policy satisfies the grammar, the inputs
  are an object of scalars with every required path, and a rule that says ALLOW matches while every earlier
  rule was evaluated and did not match. An error of any comparison on the way is a denial.
\<close>

theorem evaluator_permits_exactly: "ev_verdict (evaluateParsed p i) = Allow \<longleftrightarrow> permits p i"
  by (rule evaluate_permits)

text \<open>
  (C32) The read-set is closed: two input snapshots that agree on the paths of the read-set whose hash is
  committed get the same verdict from the same rule, whatever else they contain.
\<close>

theorem read_set_closed:
  assumes "validatePolicyParsed p = []" "readSetInert p = Inr rs" "snapshot i" "snapshot i'"
    "\<And>q. JStr q \<in> set rs \<Longrightarrow> jget i q = jget i' q"
  shows "evaluateParsed p i = evaluateParsed p i'"
proof (rule evaluate_reads [OF assms(1,3,4)])
  have "set rs = JStr ` policyPaths p" using readSet_policy [OF assms(1)] assms(2) by auto
  then show "\<forall>q\<in>policyPaths p. jget i q = jget i' q" using assms(5) by blast
qed

theorem read_set_closed_witness:
  "evaluateParsed examplePolicy (JObj [(U ''amount'', JNum 3)]) =
     evaluateParsed examplePolicy (JObj [(U ''note'', JBool True), (U ''amount'', JNum 3)]) \<and>
   ev_verdict (evaluateParsed examplePolicy (JObj [(U ''amount'', JNum 3)])) = Allow"
proof -
  have v: "validatePolicyParsed examplePolicy = []" "readSetInert examplePolicy = Inr [JStr (U ''amount'')]"
    "ev_verdict (evaluateParsed examplePolicy (JObj [(U ''amount'', JNum 3)])) = Allow" by code_simp+
  have s: "snapshot (JObj [(U ''amount'', JNum 3)])" "snapshot (JObj [(U ''note'', JBool True), (U ''amount'', JNum 3)])"
    by (simp_all add: snapshot_def isSafeInteger_def MAX_SAFE_INTEGER_def)
  show ?thesis using read_set_closed [OF v(1,2) s] v(3) by simp
qed

text \<open>
  (C33) Every policy the validator accepts has its identity: the policy hash and the read-set hash are computed
  without an exception.
\<close>

theorem accepted_policy_has_identity:
  assumes "validatePolicyParsed p = []"
  shows "(\<exists>h. policyHash sha p = Inr h) \<and> (\<exists>h. readSetHash sha p = Inr h)"
  using accepted_policy_hashes [OF assms] by blast

theorem accepted_policy_has_identity_witness:
  "validatePolicyParsed examplePolicy = [] \<and> (\<exists>h. readSetHash (\<lambda>_. []) examplePolicy = Inr h)"
proof -
  have "validatePolicyParsed examplePolicy = []" by code_simp
  with accepted_policy_has_identity [OF this, of "\<lambda>_. []"] show ?thesis by blast
qed

end
