(* ===== verification/Compliance.thy ===== *)
theory Compliance
  imports Policy
begin

text \<open>
  The compliance proof of src/src/policy/compliance.ts: the commitment of a receipt to a policy and its inputs,
  and the verifier that authenticates the receipt, compares the commitment and evaluates the policy again. The
  lemmas say exactly when the proof succeeds, that one receipt proves one decision, and that its carrier check
  is the one of the chain verifier.
\<close>

section \<open>The commitment\<close>

record compliance_commit =
  cc_policyHash :: jstr
  cc_readSetHash :: jstr
  cc_inputsHash :: jstr
  cc_verdict :: verdict

definition inputsHash :: "sha \<Rightarrow> json \<Rightarrow> policy_throw + jstr" where
  "inputsHash sha inputs = bindS (canonicalThrow inputs) (\<lambda>s. Inr (sha256Prefixed sha s))"

definition complianceCommit :: "sha \<Rightarrow> json \<Rightarrow> json \<Rightarrow> policy_throw + compliance_commit" where
  "complianceCommit sha policy inputs =
     bindS (policyHash sha policy) (\<lambda>ph. bindS (readSetHash sha policy) (\<lambda>rh. bindS (inputsHash sha inputs) (\<lambda>ih.
       Inr \<lparr>cc_policyHash = ph, cc_readSetHash = rh, cc_inputsHash = ih, cc_verdict = ev_verdict (evaluateParsed policy inputs)\<rparr>)))"

section \<open>Results\<close>

datatype attribution = KID_LEVEL | AGENT_BOUND

datatype compliance_reason =
    ComplianceOptions option_error
  | ComplianceDocument jstr doc_reason
  | ReceiptNotObject
  | NoCommitment
  | ComplianceKeyring keyring_error
  | NoKeyring
  | CarrierMalformed "schema_error list"
  | CarrierHashMismatch
  | CarrierKeyUnknown jstr
  | CarrierNotAuthenticated
  | CarrierKeyRetired jstr
  | IdentityManifestNotObject
  | IdentityManifestEntry jstr
  | AgentNotAuthorized jstr jstr
  | PolicyHashMismatch
  | ReadSetHashMismatch
  | InputsHashMismatch
  | VerdictMismatch json verdict
  | FailedClosed

record compliance_result =
  cm_ok :: bool
  cm_reason :: "compliance_reason option"
  cm_attribution :: "attribution option"
  cm_policyVerdict :: "verdict option"
  cm_ruleFired :: "jstr option option"

definition refused :: "compliance_reason \<Rightarrow> compliance_result" where
  "refused reason = \<lparr>cm_ok = False, cm_reason = Some reason, cm_attribution = None, cm_policyVerdict = None, cm_ruleFired = None\<rparr>"

definition established :: "attribution \<Rightarrow> eval_result \<Rightarrow> compliance_result" where
  "established att ev = \<lparr>cm_ok = True, cm_reason = None, cm_attribution = Some att, cm_policyVerdict = Some (ev_verdict ev),
     cm_ruleFired = Some (ev_ruleFired ev)\<rparr>"

definition verdictMismatch :: "json \<Rightarrow> eval_result \<Rightarrow> compliance_result" where
  "verdictMismatch recorded ev = \<lparr>cm_ok = False, cm_reason = Some (VerdictMismatch recorded (ev_verdict ev)), cm_attribution = None,
     cm_policyVerdict = Some (ev_verdict ev), cm_ruleFired = Some (ev_ruleFired ev)\<rparr>"

section \<open>The verifier\<close>

definition COMPLIANCE_OPTION_SCHEMA :: option_schema where
  "COMPLIANCE_OPTION_SCHEMA = [(U ''keyring'', DocumentField), (U ''identityManifest'', DocumentField)]"

text \<open>\<open>snap.governance?.compliance\<close>, absent when it is falsy.\<close>

definition commitmentOf :: "json \<Rightarrow> json option" where
  "commitmentOf snap =
     (case memberAt snap (U ''governance'') (U ''compliance'') of None \<Rightarrow> None | Some c \<Rightarrow> if falsy c then None else Some c)"

text \<open>Identity binding: the manifest, when one is supplied, must authorize the agent for the key.\<close>

definition complianceManifestStep :: "json \<Rightarrow> manifest \<Rightarrow> jstr \<Rightarrow> compliance_reason + manifest" where
  "complianceManifestStep live m aid =
     (case manifestKids (jget live aid) of None \<Rightarrow> Inl (IdentityManifestEntry aid) | Some kids \<Rightarrow> Inr (AList.update aid kids m))"

definition bindIdentity :: "jstr option \<Rightarrow> json \<Rightarrow> compliance_reason + attribution" where
  "bindIdentity doc snap =
     (case doc of
        None \<Rightarrow> Inr KID_LEVEL
      | Some text \<Rightarrow>
          (case parseDocument (Text text) of
             Inl e \<Rightarrow> Inl (ComplianceDocument (U ''identityManifest'') e)
           | Inr live \<Rightarrow>
               if \<not> isPlainObject live then Inl IdentityManifestNotObject
               else
                 bindS (foldE (complianceManifestStep live) [] (objectKeys live)) (\<lambda>manifest.
                   if authorizes manifest (rAgent snap) (rKid snap) then Inr AGENT_BOUND
                   else Inl (AgentNotAuthorized (rAgent snap) (rKid snap)))))"

text \<open>Authentication of the carrier. A receipt that has no canonical form throws and is refused by the handler.\<close>

definition authenticateCarrier :: "host \<Rightarrow> parsed_keyring \<Rightarrow> jstr option \<Rightarrow> json \<Rightarrow> compliance_reason + attribution" where
  "authenticateCarrier H verification manifestDoc snap =
     (let errors = validateReceiptShapeParsed snap in
      if errors \<noteq> [] then Inl (CarrierMalformed errors)
      else case receiptHashInput snap of
        Inl _ \<Rightarrow> Inl FailedClosed
      | Inr hashInput \<Rightarrow>
          if U ''sha256:'' @ sha256Hex (sha256 H) hashInput \<noteq> rHash snap then Inl CarrierHashMismatch
          else
            (case map_of (pk_keyring verification) (rKid snap) of
               None \<Rightarrow> Inl (CarrierKeyUnknown (rKid snap))
             | Some pub \<Rightarrow>
                 if pub = [] then Inl (CarrierKeyUnknown (rKid snap))
                 else if \<not> verifyEd25519 H pub (signingMessage (sha256 H) RECEIPT_SIG_DOMAIN hashInput) (rSigValue snap)
                 then Inl CarrierNotAuthenticated
                 else if map_of (pk_retiredKids verification) (rKid snap) = Some True then Inl (CarrierKeyRetired (rKid snap))
                 else bindIdentity manifestDoc snap))"

definition verdictText :: "verdict \<Rightarrow> jstr" where
  "verdictText v = (case v of Allow \<Rightarrow> U ''ALLOW'' | Deny \<Rightarrow> U ''DENY'')"

text \<open>The three hashes, then the verdict when one is recorded; a throw of the hashes is refused by the handler.\<close>

definition checkCommitment :: "sha \<Rightarrow> json \<Rightarrow> json \<Rightarrow> json \<Rightarrow> attribution \<Rightarrow> compliance_result" where
  "checkCommitment sha c policy inputs att =
     (case policyHash sha policy of
        Inl _ \<Rightarrow> refused FailedClosed
      | Inr ph \<Rightarrow>
          if jget c (U ''policyHash'') \<noteq> Some (JStr ph) then refused PolicyHashMismatch
          else
            (case readSetHash sha policy of
               Inl _ \<Rightarrow> refused FailedClosed
             | Inr rh \<Rightarrow>
                 if jget c (U ''readSetHash'') \<noteq> Some (JStr rh) then refused ReadSetHashMismatch
                 else
                   (case inputsHash sha inputs of
                      Inl _ \<Rightarrow> refused FailedClosed
                    | Inr ih \<Rightarrow>
                        if jget c (U ''inputsHash'') \<noteq> Some (JStr ih) then refused InputsHashMismatch
                        else
                          (let ev = evaluateParsed policy inputs in
                           case jget c (U ''verdict'') of
                             None \<Rightarrow> established att ev
                           | Some v \<Rightarrow> if v \<noteq> JStr (verdictText (ev_verdict ev)) then verdictMismatch v ev else established att ev))))"

definition verifyReceiptCompliance :: "host \<Rightarrow> input \<Rightarrow> input \<Rightarrow> input \<Rightarrow> jsval \<Rightarrow> compliance_result" where
  "verifyReceiptCompliance H receipt policy inputs opts =
     (case inertOptions COMPLIANCE_OPTION_SCHEMA opts of
        Inl e \<Rightarrow> refused (ComplianceOptions e)
      | Inr admitted \<Rightarrow>
     (case parseDocument receipt of
        Inl e \<Rightarrow> refused (ComplianceDocument (U ''receipt'') e)
      | Inr snap \<Rightarrow>
     (case parseDocument policy of
        Inl e \<Rightarrow> refused (ComplianceDocument (U ''policy'') e)
      | Inr policySnap \<Rightarrow>
     (case parseDocument inputs of
        Inl e \<Rightarrow> refused (ComplianceDocument (U ''inputs'') e)
      | Inr inputsSnap \<Rightarrow>
          if \<not> isObjectType snap then refused ReceiptNotObject
          else
            (case commitmentOf snap of
               None \<Rightarrow> refused NoCommitment
             | Some c \<Rightarrow>
                 (case optionText admitted (U ''keyring'') of
                    None \<Rightarrow> refused NoKeyring
                  | Some keyring \<Rightarrow>
                      (case parseVerificationKeyring H (Text keyring) of
                         Inl e \<Rightarrow> refused (ComplianceKeyring e)
                       | Inr verification \<Rightarrow>
                           (case authenticateCarrier H verification (optionText admitted (U ''identityManifest'')) snap of
                              Inl e \<Rightarrow> refused e
                            | Inr att \<Rightarrow> checkCommitment (sha256 H) c policySnap inputsSnap att))))))))"

section \<open>What a proof establishes\<close>

text \<open>The manifest option, read as the chain verifier reads it, gives this attribution to the receipt.\<close>

definition attributes :: "jstr option \<Rightarrow> json \<Rightarrow> attribution \<Rightarrow> bool" where
  "attributes doc r att \<longleftrightarrow> (\<exists>m. parseManifest 1 doc = Inr m \<and>
     (case m of None \<Rightarrow> att = KID_LEVEL | Some man \<Rightarrow> authorizes man (rAgent r) (rKid r) \<and> att = AGENT_BOUND))"

definition carrier_ok :: "host \<Rightarrow> parsed_keyring \<Rightarrow> json \<Rightarrow> bool" where
  "carrier_ok H v r \<longleftrightarrow> wf_receipt r \<and> hash_ok H r \<and> authentic H v r \<and> \<not> retired_kid v (rKid r)"

definition committed :: "sha \<Rightarrow> json \<Rightarrow> json \<Rightarrow> json \<Rightarrow> bool" where
  "committed sha r policy inputs \<longleftrightarrow> (\<exists>c cc. memberAt r (U ''governance'') (U ''compliance'') = Some c \<and> \<not> falsy c \<and>
     complianceCommit sha policy inputs = Inr cc \<and>
     jget c (U ''policyHash'') = Some (JStr (cc_policyHash cc)) \<and> jget c (U ''readSetHash'') = Some (JStr (cc_readSetHash cc)) \<and>
     jget c (U ''inputsHash'') = Some (JStr (cc_inputsHash cc)) \<and> jget c (U ''verdict'') \<in> {None, Some (JStr (verdictText (cc_verdict cc)))})"

lemma foldE_manifest:
  "foldE (complianceManifestStep live) m ks = Inr x \<longleftrightarrow> foldE (manifestStep live) m ks = Inr x"
  by (induction ks arbitrary: m) (auto simp: complianceManifestStep_def manifestStep_def split: option.splits)

lemma bindIdentity_attributes: "bindIdentity doc r = Inr att \<longleftrightarrow> attributes doc r att"
  by (auto simp: bindIdentity_def attributes_def parseManifest_def bindS_Inr foldE_manifest split: option.splits sum.splits if_splits)

lemma authenticateCarrier_ok:
  "authenticateCarrier H v doc r = Inr att \<longleftrightarrow> carrier_ok H v r \<and> attributes doc r att"
  by (auto simp: authenticateCarrier_def Let_def carrier_ok_def validate_Nil hash_ok_def authentic_def retired_kid_def sha256Prefixed_def
      bindIdentity_attributes split: sum.splits option.splits if_splits)

lemma complianceCommit_Inr:
  "complianceCommit sha p i = Inr cc \<longleftrightarrow> policyHash sha p = Inr (cc_policyHash cc) \<and> readSetHash sha p = Inr (cc_readSetHash cc) \<and>
     inputsHash sha i = Inr (cc_inputsHash cc) \<and> cc_verdict cc = ev_verdict (evaluateParsed p i)"
  by (cases cc) (auto simp: complianceCommit_def bindS_Inr)

lemma checkCommitment_result:
  "checkCommitment sha c p i att = established att (evaluateParsed p i) \<or> \<not> cm_ok (checkCommitment sha c p i att)"
  by (auto simp: checkCommitment_def Let_def refused_def verdictMismatch_def split: sum.splits option.splits)

lemma checkCommitment_established:
  "cm_ok (checkCommitment sha c p i att) \<longleftrightarrow> (\<exists>cc. complianceCommit sha p i = Inr cc \<and>
     jget c (U ''policyHash'') = Some (JStr (cc_policyHash cc)) \<and> jget c (U ''readSetHash'') = Some (JStr (cc_readSetHash cc)) \<and>
     jget c (U ''inputsHash'') = Some (JStr (cc_inputsHash cc)) \<and> jget c (U ''verdict'') \<in> {None, Some (JStr (verdictText (cc_verdict cc)))})"
  (is "?ok \<longleftrightarrow> ?committed")
proof
  assume ?ok
  then obtain ph rh ih where "policyHash sha p = Inr ph" "readSetHash sha p = Inr rh" "inputsHash sha i = Inr ih"
    "jget c (U ''policyHash'') = Some (JStr ph)" "jget c (U ''readSetHash'') = Some (JStr rh)" "jget c (U ''inputsHash'') = Some (JStr ih)"
    "jget c (U ''verdict'') \<in> {None, Some (JStr (verdictText (ev_verdict (evaluateParsed p i))))}"
    by (auto simp: checkCommitment_def Let_def refused_def verdictMismatch_def split: sum.splits option.splits if_splits)
  then show ?committed
    by (intro exI [of _ "\<lparr>cc_policyHash = ph, cc_readSetHash = rh, cc_inputsHash = ih, cc_verdict = ev_verdict (evaluateParsed p i)\<rparr>"])
      (simp add: complianceCommit_Inr)
next
  assume ?committed
  then show ?ok by (auto simp: complianceCommit_Inr checkCommitment_def Let_def established_def)
qed

lemma refused_not_ok [simp]: "\<not> cm_ok (refused e)"
  by (simp add: refused_def)

lemma commitmentOf_Some: "commitmentOf r = Some c \<longleftrightarrow> memberAt r (U ''governance'') (U ''compliance'') = Some c \<and> \<not> falsy c"
  by (auto simp: commitmentOf_def split: option.splits)

text \<open>What the verifier establishes of the documents, written without its order of checks.\<close>

definition proven :: "host \<Rightarrow> input \<Rightarrow> input \<Rightarrow> input \<Rightarrow> jsval \<Rightarrow> attribution \<Rightarrow> json \<Rightarrow> json \<Rightarrow> json \<Rightarrow> bool" where
  "proven H receipt policy inputs opts att r p i \<longleftrightarrow>
     parseDocument receipt = Inr r \<and> parseDocument policy = Inr p \<and> parseDocument inputs = Inr i \<and>
     (\<exists>admitted keyring v. inertOptions COMPLIANCE_OPTION_SCHEMA opts = Inr admitted \<and>
        optionText admitted (U ''keyring'') = Some keyring \<and> parseVerificationKeyring H (Text keyring) = Inr v \<and>
        carrier_ok H v r \<and> attributes (optionText admitted (U ''identityManifest'')) r att) \<and>
     committed (sha256 H) r p i"

lemma verifyReceiptCompliance_ok:
  assumes "cm_ok (verifyReceiptCompliance H receipt policy inputs opts)"
  obtains att r p i where "proven H receipt policy inputs opts att r p i"
    "verifyReceiptCompliance H receipt policy inputs opts = established att (evaluateParsed p i)"
proof -
  obtain admitted r p i c keyring v att where d: "inertOptions COMPLIANCE_OPTION_SCHEMA opts = Inr admitted"
    "parseDocument receipt = Inr r" "parseDocument policy = Inr p" "parseDocument inputs = Inr i" "commitmentOf r = Some c"
    "optionText admitted (U ''keyring'') = Some keyring" "parseVerificationKeyring H (Text keyring) = Inr v"
    "authenticateCarrier H v (optionText admitted (U ''identityManifest'')) r = Inr att"
    and e: "verifyReceiptCompliance H receipt policy inputs opts = checkCommitment (sha256 H) c p i att"
    using assms by (auto simp: verifyReceiptCompliance_def split: sum.splits option.splits if_splits)
  have ok: "cm_ok (checkCommitment (sha256 H) c p i att)" using assms e by simp
  have "committed (sha256 H) r p i"
    using ok d(5) unfolding checkCommitment_established commitmentOf_Some committed_def by blast
  then have "proven H receipt policy inputs opts att r p i"
    using d unfolding proven_def authenticateCarrier_ok by blast
  then show thesis using that checkCommitment_result [of "sha256 H" c p i att] ok e by simp
qed

lemma proven_established:
  assumes "proven H receipt policy inputs opts att r p i"
  shows "verifyReceiptCompliance H receipt policy inputs opts = established att (evaluateParsed p i)"
proof -
  from assms obtain admitted keyring v where d: "parseDocument receipt = Inr r" "parseDocument policy = Inr p" "parseDocument inputs = Inr i"
    "inertOptions COMPLIANCE_OPTION_SCHEMA opts = Inr admitted"
    "optionText admitted (U ''keyring'') = Some keyring" "parseVerificationKeyring H (Text keyring) = Inr v"
    "authenticateCarrier H v (optionText admitted (U ''identityManifest'')) r = Inr att" and c: "committed (sha256 H) r p i"
    and w: "wf_receipt r"
    unfolding proven_def authenticateCarrier_ok carrier_ok_def by blast
  from c obtain b where b: "commitmentOf r = Some b" "cm_ok (checkCommitment (sha256 H) b p i att)"
    unfolding committed_def commitmentOf_Some checkCommitment_established by blast
  have "isObjectType r" using b(1) by (cases r) (auto simp: commitmentOf_def memberAt_def)
  then show ?thesis using d b checkCommitment_result [of "sha256 H" b p i att] by (simp add: verifyReceiptCompliance_def)
qed

lemma established_inject: "established att ev = established att' ev' \<Longrightarrow> att = att'"
  by (simp add: established_def)

section \<open>The commitment pins the policy and the inputs\<close>

text \<open>SHA-256 does not collide on the canonical encodings of the two documents.\<close>

definition digest_separates :: "host \<Rightarrow> json \<Rightarrow> json \<Rightarrow> bool" where
  "digest_separates H x y \<longleftrightarrow> (\<forall>s t. canonicalize x = Inr s \<longrightarrow> canonicalize y = Inr t \<longrightarrow>
     sha256 H (utf8Encode s) = sha256 H (utf8Encode t) \<longrightarrow> utf8Encode s = utf8Encode t)"

lemma digest_pins:
  assumes "bindS (canonicalThrow x) (\<lambda>s. Inr (sha256Prefixed (sha256 H) s)) = Inr h"
    "bindS (canonicalThrow y) (\<lambda>s. Inr (sha256Prefixed (sha256 H) s)) = Inr h" "digest_separates H x y"
    "json_ok isUnit x" "json_ok isUnit y" "jdepth x \<le> 64" "jdepth y \<le> 64"
  shows "sortJson x = sortJson y"
proof -
  obtain s t where st: "canonicalize x = Inr s" "canonicalize y = Inr t" "sha256Prefixed (sha256 H) s = sha256Prefixed (sha256 H) t"
    using assms(1,2) by (auto simp: bindS_Inr canonicalThrow_def split: sum.splits)
  then have "toHex (sha256 H (utf8Encode s)) = toHex (sha256 H (utf8Encode t))" by (simp add: sha256Prefixed_def sha256Hex_def)
  then have "sha256 H (utf8Encode s) = sha256 H (utf8Encode t)" by (rule toHex_inject)
  then have "utf8Encode s = utf8Encode t" using assms(3) st(1,2) unfolding digest_separates_def by blast
  moreover have "text_ok s" "text_ok t" using canonicalize_text_ok assms(4-7) st(1,2) by blast+
  ultimately have "s = t" by (auto simp: text_ok_def intro: utf8Encode_inject)
  then show ?thesis using st(1,2) canonicalize_eq_iff [of x y] assms(4-7) by simp
qed

lemma committed_unique:
  assumes "committed (sha256 H) r p i" "committed (sha256 H) r p' i'" "digest_separates H p p'" "digest_separates H i i'"
    "json_ok isUnit p" "json_ok isUnit p'" "json_ok isUnit i" "json_ok isUnit i'"
    "jdepth p \<le> 64" "jdepth p' \<le> 64" "jdepth i \<le> 64" "jdepth i' \<le> 64"
  shows "sortJson p = sortJson p' \<and> sortJson i = sortJson i'"
proof -
  obtain ph ih where "policyHash (sha256 H) p = Inr ph" "policyHash (sha256 H) p' = Inr ph"
    "inputsHash (sha256 H) i = Inr ih" "inputsHash (sha256 H) i' = Inr ih"
    using assms(1,2) unfolding committed_def complianceCommit_Inr by auto
  note h = this [unfolded policyHash_def inputsHash_def]
  show ?thesis using digest_pins [OF h(1,2)] digest_pins [OF h(3,4)] assms(3-) by simp
qed

section \<open>The carrier is what the chain verifier accepts\<close>

definition carrierOptions :: "(jstr \<times> inert) list \<Rightarrow> verify_options" where
  "carrierOptions admitted = (inertVerifyOptions [])\<lparr>vo_keyring := optionText admitted (U ''keyring''),
     vo_identityManifest := optionText admitted (U ''identityManifest'')\<rparr>"

lemma carrier_accepted:
  assumes "carrier_ok H v r" "attributes (optionText admitted (U ''identityManifest'')) r att" "rSeq r = 0" "rPrevHash r = None"
    "optionText admitted (U ''keyring'') = Some keyring" "parseVerificationKeyring H (Text keyring) = Inr v"
  obtains man where "accepted H [r] (carrierOptions admitted) (Some v) man None [r]"
proof -
  let ?o = "carrierOptions admitted"
  have o: "vo_keyring ?o = Some keyring" "vo_identityManifest ?o = optionText admitted (U ''identityManifest'')" "vo_checkpoint ?o = None"
    "vo_maxReceipts ?o = None" "vo_requireNFC ?o = None"
    using assms(5) by (simp_all add: carrierOptions_def inertVerifyOptions_def optionText_def optionNum_def optionBool_def)
  obtain man where man: "parseManifest 1 (vo_identityManifest ?o) = Inr man"
    "case man of None \<Rightarrow> True | Some m \<Rightarrow> authorizes m (rAgent r) (rKid r)"
    using assms(2) unfolding attributes_def o(2) by (auto split: option.splits)
  have "receipt_ok H (runOf [r] ?o (Some v) man) r"
    using assms(1) man(2) by (auto simp: receipt_ok_def carrier_ok_def runOf_def o(5) split: option.splits)
  moreover have "1 \<le> maxOf ?o" by (simp add: maxOf_def o(4) DEFAULT_MAX_RECEIPTS_def)
  moreover have "parseKeyringOption H c 1 (vo_keyring ?o) = Inr (Some v)" for c by (simp add: parseKeyringOption_def o(1) assms(6))
  moreover have "in_order [r] [r]" by (simp add: in_order_def assms(3))
  ultimately have "accepted H [r] ?o (Some v) man None [r]"
    using assms(1,4) man(1) unfolding accepted_def
    by (simp add: o(3) parseCheckpointOption_def carrier_ok_def one_partition_def one_tenant_def assms(3) one_key_def) (metis option.inject)
  then show thesis by (rule that)
qed

lemma carrier_valid:
  assumes "accepted H [r] opts (Some v) man None [r]" "carrier_ok H v r"
  shows "vr_status (verifyParsedChain H (JArr [r]) opts) = VALID"
  using accepted_verdict [OF assms(1)] assms(2) by (simp add: decided_def uses_retired_def carrier_ok_def)

section \<open>Properties\<close>


text \<open>
  (C35) A receipt proves one decision: the same receipt is never proven compliant for two policies, or for two
  input snapshots, that differ by more than the order of their members, unless SHA-256 collides on them.
\<close>

theorem compliance_pins_decision:
  "\<not> (cm_ok (verifyReceiptCompliance H receipt policy inputs opts) \<and> cm_ok (verifyReceiptCompliance H receipt policy' inputs' opts') \<and>
      parseDocument policy = Inr p \<and> parseDocument policy' = Inr p' \<and> parseDocument inputs = Inr i \<and> parseDocument inputs' = Inr i' \<and>
      json_ok isUnit p \<and> json_ok isUnit p' \<and> json_ok isUnit i \<and> json_ok isUnit i' \<and>
      digest_separates H p p' \<and> digest_separates H i i' \<and> (sortJson p, sortJson i) \<noteq> (sortJson p', sortJson i'))"
proof (rule notI, elim conjE)
  assume ok: "cm_ok (verifyReceiptCompliance H receipt policy inputs opts)" "cm_ok (verifyReceiptCompliance H receipt policy' inputs' opts')"
    and d: "parseDocument policy = Inr p" "parseDocument policy' = Inr p'" "parseDocument inputs = Inr i" "parseDocument inputs' = Inr i'"
    and u: "json_ok isUnit p" "json_ok isUnit p'" "json_ok isUnit i" "json_ok isUnit i'"
    and s: "digest_separates H p p'" "digest_separates H i i'" and ne: "(sortJson p, sortJson i) \<noteq> (sortJson p', sortJson i')"
  obtain r where "committed (sha256 H) r p i" "parseDocument receipt = Inr r"
    using ok(1) by (rule verifyReceiptCompliance_ok) (use d that in \<open>auto simp: proven_def\<close>)
  moreover obtain r' where "committed (sha256 H) r' p' i'" "parseDocument receipt = Inr r'"
    using ok(2) by (rule verifyReceiptCompliance_ok) (use d that in \<open>auto simp: proven_def\<close>)
  ultimately show False
    using committed_unique [of H r p i p' i'] s u ne d [THEN parseDocument_safe(2)] by simp
qed

text \<open>
  (C36) The compliance verifier authenticates no more than the chain verifier does: a first receipt that it
  proves compliant is a VALID chain of its own under the same keyring and identity manifest.
\<close>

theorem compliant_carrier_is_valid_chain:
  "\<not> (cm_ok (verifyReceiptCompliance H receipt policy inputs opts) \<and> parseDocument receipt = Inr r \<and>
      inertOptions COMPLIANCE_OPTION_SCHEMA opts = Inr admitted \<and> rSeq r = 0 \<and> rPrevHash r = None \<and>
      vr_status (verifyParsedChain H (JArr [r]) (carrierOptions admitted)) \<noteq> VALID)"
proof (rule notI, elim conjE)
  assume ok: "cm_ok (verifyReceiptCompliance H receipt policy inputs opts)" and d: "parseDocument receipt = Inr r"
      "inertOptions COMPLIANCE_OPTION_SCHEMA opts = Inr admitted" and g: "rSeq r = 0" "rPrevHash r = None"
    and ne: "vr_status (verifyParsedChain H (JArr [r]) (carrierOptions admitted)) \<noteq> VALID"
  obtain att p i where "proven H receipt policy inputs opts att r p i"
    using ok by (rule verifyReceiptCompliance_ok) (use d that in \<open>auto simp: proven_def\<close>)
  then obtain keyring v where k: "optionText admitted (U ''keyring'') = Some keyring" "parseVerificationKeyring H (Text keyring) = Inr v"
    and c: "carrier_ok H v r" "attributes (optionText admitted (U ''identityManifest'')) r att" unfolding proven_def using d(2) by auto
  obtain man where "accepted H [r] (carrierOptions admitted) (Some v) man None [r]" using carrier_accepted [OF c g k] .
  then show False using carrier_valid c(1) ne by blast
qed

end
