(* ===== verification/Spec2Isabelle.thy ===== *)
theory Spec2Isabelle
  imports Historical Federation Compliance
begin

text \<open>
  Verification of the receipt core (src/src).
\<close>

end
